(* ===== verification/Prelude.thy ===== *)
theory Prelude
  imports Main "HOL-Library.Word" "HOL-Library.AList" "HOL-Library.Signed_Division" "HOL-Library.Multiset"
begin

text \<open>
  Shared vocabulary of the development: Go's fixed-width integers, bytes and byte order,
  panics and the sequencing of calls that may panic, association lists that stand for Go maps
  which the program iterates over, and the generic contract of a state machine whose steps
  may panic.
\<close>

named_theorems go_simps \<open>unfolding rules of the Go primitives\<close>
named_theorems msg_defs \<open>definitions of the message layer\<close>
named_theorems vs_defs \<open>definitions of the vote set queries\<close>
named_theorems core_defs \<open>definitions of the consensus core\<close>


section \<open>Integers\<close>

text \<open>
  Go's \<^verbatim>\<open>int64\<close> (and \<^verbatim>\<open>int\<close> on a 64-bit target) wraps around; a value is an HOL integer
  and every arithmetic operation of the source is followed by \<open>wrap64\<close>.
\<close>

definition wrap64 :: "int \<Rightarrow> int" where
  "wrap64 x = (x + 2 ^ 63) mod 2 ^ 64 - 2 ^ 63"

definition is_int64 :: "int \<Rightarrow> bool" where
  "is_int64 x \<longleftrightarrow> - (2 ^ 63) \<le> x \<and> x < 2 ^ 63"

abbreviation max_int64 :: int where
  "max_int64 \<equiv> 2 ^ 63 - 1"

text \<open>Go's division of integers truncates towards zero.\<close>

definition go_div :: "int \<Rightarrow> int \<Rightarrow> int" where
  "go_div a b = a sdiv b"

lemma is_int64_simps [simp]: "is_int64 0" "is_int64 1" "is_int64 (- 1)"
  by (simp_all add: is_int64_def)

lemma wrap64_id [simp]: "is_int64 x \<Longrightarrow> wrap64 x = x"
  by (simp add: wrap64_def is_int64_def)

lemma wrap64_idI: "- (2 ^ 63) \<le> x \<Longrightarrow> x < 2 ^ 63 \<Longrightarrow> wrap64 x = x"
  by (simp add: is_int64_def)

lemma is_int64_wrap64 [simp, intro]: "is_int64 (wrap64 x)"
  using pos_mod_bound [of "2 ^ 64" "x + 2 ^ 63"] pos_mod_sign [of "2 ^ 64" "x + 2 ^ 63"]
  by (simp add: wrap64_def is_int64_def)

lemma wrap64_add_wrap64 [simp]: "wrap64 (wrap64 x + y) = wrap64 (x + y)"
proof -
  have "wrap64 x + y + 2 ^ 63 = (x + 2 ^ 63) mod 2 ^ 64 + y"
    by (simp add: wrap64_def)
  moreover have "((x + 2 ^ 63) mod 2 ^ 64 + y) mod 2 ^ 64 = (x + y + 2 ^ 63) mod 2 ^ 64"
    by (simp only: mod_add_left_eq) (simp only: ac_simps)
  ultimately show ?thesis
    by (simp only: wrap64_def [of "wrap64 x + y"] wrap64_def [of "x + y"])
qed

lemma go_div_nonneg [simp]: "0 \<le> a \<Longrightarrow> 0 < b \<Longrightarrow> go_div a b = a div b"
  by (cases "a = 0") (simp_all add: go_div_def signed_divide_int_def)


section \<open>Bytes\<close>

type_synonym byte = "8 word"

text \<open>The big-endian image of an integer of \<open>n\<close> bytes, as \<^verbatim>\<open>encoding/binary\<close> writes it.\<close>

definition be_bytes :: "nat \<Rightarrow> int \<Rightarrow> byte list" where
  "be_bytes n x = map (\<lambda>i. word_of_int (x div 2 ^ (8 * (n - 1 - i)))) [0..<n]"

lemma length_be_bytes [simp]: "length (be_bytes n x) = n"
  by (simp add: be_bytes_def)

lemma be_bytes_Suc: "be_bytes (Suc n) x = be_bytes n (x div 256) @ [word_of_int x]"
proof -
  have "x div 2 ^ (8 * (n - i)) = x div 256 div 2 ^ (8 * (n - 1 - i))" if "i < n" for i
  proof -
    have "8 * (n - i) = 8 + 8 * (n - 1 - i)" using that by simp
    then have "(2::int) ^ (8 * (n - i)) = 256 * 2 ^ (8 * (n - 1 - i))"
      by (simp only: power_add) simp
    then show ?thesis by (simp add: zdiv_zmult2_eq)
  qed
  then show ?thesis by (simp add: be_bytes_def)
qed

definition be_value :: "byte list \<Rightarrow> int" where
  "be_value bs = foldl (\<lambda>a b. a * 256 + uint b) 0 bs"

lemma be_value_be_bytes: "be_value (be_bytes n x) = x mod 256 ^ n"
proof (induction n arbitrary: x)
  case 0
  then show ?case by (simp add: be_bytes_def be_value_def)
next
  case (Suc n)
  have "be_value (be_bytes (Suc n) x) = (x div 256) mod 256 ^ n * 256 + x mod 256"
    using Suc [of "x div 256"]
    by (simp add: be_bytes_Suc be_value_def uint_word_of_int take_bit_eq_mod)
  also have "\<dots> = x mod (256 * 256 ^ n)"
    by (simp add: zmod_zmult2_eq ac_simps)
  finally show ?case by simp
qed

lemma be_bytes_inject:
  assumes "be_bytes n x = be_bytes n y"
  shows "x mod 256 ^ n = y mod 256 ^ n"
  using assms by (metis be_value_be_bytes)

lemma is_int64_mod_inject:
  assumes "is_int64 x" and "is_int64 y" and "x mod 256 ^ 8 = y mod 256 ^ 8"
  shows "x = y"
proof -
  have "wrap64 x = wrap64 y"
    using assms(3) unfolding wrap64_def by (simp add: mod_eq_dvd_iff)
  with assms show ?thesis by simp
qed


section \<open>Panics and sequencing\<close>

text \<open>
  A call of the source either returns or panics. \<open>PanicSanity\<close> is
  \<^verbatim>\<open>common.PanicSanity\<close>, \<open>PanicMsg\<close> the built-in \<^verbatim>\<open>panic\<close>, \<open>NilPointer\<close> and
  \<open>IndexOutOfRange\<close> are the run-time panics of the language, and \<open>Diverges\<close> is a loop that
  does not end. None of them is recovered anywhere in the program, so a panic ends the node.
\<close>

datatype panic = PanicSanity string | PanicMsg string | NilPointer | IndexOutOfRange | Diverges

type_synonym 'a outcome = "panic + 'a"

definition and_then :: "'a outcome \<Rightarrow> ('a \<Rightarrow> 'b outcome) \<Rightarrow> 'b outcome" where
  "and_then m f = (case m of Inl p \<Rightarrow> Inl p | Inr x \<Rightarrow> f x)"

lemma and_then_simps [simp]:
  "and_then (Inl p) f = Inl p"
  "and_then (Inr x) f = f x"
  by (simp_all add: and_then_def)

lemma and_then_Inr_iff: "and_then m f = Inr y \<longleftrightarrow> (\<exists>x. m = Inr x \<and> f x = Inr y)"
  by (cases m) simp_all

lemma and_then_InrE:
  assumes "and_then m f = Inr y"
  obtains x where "m = Inr x" and "f x = Inr y"
  using assms by (auto simp: and_then_Inr_iff)

lemma and_then_assoc: "and_then (and_then m f) g = and_then m (\<lambda>x. and_then (f x) g)"
  by (cases m) simp_all

text \<open>A loop over a slice whose body may panic.\<close>

fun for_each :: "('x \<Rightarrow> 's \<Rightarrow> 's outcome) \<Rightarrow> 'x list \<Rightarrow> 's \<Rightarrow> 's outcome" where
  "for_each body [] s = Inr s"
| "for_each body (x # xs) s = and_then (body x s) (for_each body xs)"

lemma for_each_invariant:
  assumes "for_each body xs s = Inr s'" and "I s"
    and "\<And>x t t'. x \<in> set xs \<Longrightarrow> I t \<Longrightarrow> body x t = Inr t' \<Longrightarrow> I t'"
  shows "I s'"
  using assms
  by (induction xs arbitrary: s) (auto elim!: and_then_InrE)

lemma for_each_append:
  "for_each body (xs @ ys) s = and_then (for_each body xs s) (for_each body ys)"
  by (induction xs arbitrary: s) (auto simp: and_then_def split: sum.splits)


section \<open>Maps the program iterates over\<close>

text \<open>
  A Go map that is ranged over is an association list with distinct keys, looked up by
  \<open>map_of\<close> and written by \<open>AList.update\<close>. Go leaves the iteration order open, so every
  function that ranges over a map takes the order as an argument: a function \<open>ord\<close> that
  permutes the list of keys (\<open>is_order\<close>).
\<close>

definition is_order :: "('k list \<Rightarrow> 'k list) \<Rightarrow> bool" where
  "is_order ord \<longleftrightarrow> (\<forall>ks. mset (ord ks) = mset ks)"

definition map_range :: "('k list \<Rightarrow> 'k list) \<Rightarrow> ('k \<times> 'v) list \<Rightarrow> ('k \<times> 'v) list" where
  "map_range ord m = map (\<lambda>k. (k, the (map_of m k))) (ord (map fst m))"

lemma is_orderD: "is_order ord \<Longrightarrow> mset (ord ks) = mset ks"
  by (simp add: is_order_def)

lemma is_order_set [simp]: "is_order ord \<Longrightarrow> set (ord ks) = set ks"
  by (metis is_orderD mset_eq_setD)

lemma is_order_distinct [simp]: "is_order ord \<Longrightarrow> distinct (ord ks) = distinct ks"
  by (metis is_orderD mset_eq_imp_distinct_iff)

lemma is_order_length [simp]: "is_order ord \<Longrightarrow> length (ord ks) = length ks"
  by (metis is_orderD mset_eq_length)

lemma set_map_range:
  assumes "is_order ord" and "distinct (map fst m)"
  shows "set (map_range ord m) = set m"
  using assms by (force simp: map_range_def)

lemma fst_map_range [simp]: "map fst (map_range ord m) = ord (map fst m)"
  by (simp add: map_range_def comp_def)

lemma length_map_range [simp]: "is_order ord \<Longrightarrow> length (map_range ord m) = length m"
  by (simp add: map_range_def)

lemma alist_update_new:
  "map_of m k = None \<Longrightarrow> AList.update k v m = m @ [(k, v)]"
  by (induction m) (auto split: if_splits)

lemma sum_list_alist_update:
  fixes f :: "'v \<Rightarrow> int"
  assumes "distinct (map fst m)"
  shows "sum_list (map (f \<circ> snd) (AList.update k v m)) =
    sum_list (map (f \<circ> snd) m) + f v - (case map_of m k of None \<Rightarrow> 0 | Some w \<Rightarrow> f w)"
  using assms
proof (induction m)
  case Nil
  then show ?case by simp
next
  case (Cons p m)
  then show ?case
    by (cases p) (auto simp: map_of_eq_None_iff [THEN iffD2])
qed

lemma sum_list_nonneg_member:
  fixes f :: "'a \<Rightarrow> int"
  assumes "\<And>x. x \<in> set xs \<Longrightarrow> 0 \<le> f x" and "y \<in> set xs"
  shows "f y \<le> sum_list (map f xs)"
  using assms
proof (induction xs)
  case Nil
  then show ?case by simp
next
  case (Cons a xs)
  then have "0 \<le> sum_list (map f xs)"
    by (intro sum_list_nonneg) auto
  moreover have "0 \<le> f a" using Cons.prems(1) by simp
  ultimately show ?case using Cons by (cases "y = a") fastforce+
qed


section \<open>The contract of a state machine\<close>

text \<open>
  Every stateful component is driven by a step function that consumes an event and may panic.
  The contract: a set of admissible events, an invariant that every step keeps.
  Its consequence is proved once: runs of any length keep the invariant. The extension
  adds that an admissible step does not panic, and gives that no run panics.
\<close>

fun run_steps :: "('e \<Rightarrow> 's \<Rightarrow> 's outcome) \<Rightarrow> 'e list \<Rightarrow> 's \<Rightarrow> 's outcome" where
  "run_steps step [] s = Inr s"
| "run_steps step (e # es) s = and_then (step e s) (run_steps step es)"

lemma run_steps_append:
  "run_steps step (xs @ ys) s = and_then (run_steps step xs s) (run_steps step ys)"
  by (induction xs arbitrary: s) (auto simp: and_then_def split: sum.splits)

locale machine =
  fixes step :: "'e \<Rightarrow> 's \<Rightarrow> 's outcome"
    and admissible :: "'e \<Rightarrow> bool"
    and inv :: "'s \<Rightarrow> bool"
  assumes step_inv: "\<And>e s s'. admissible e \<Longrightarrow> inv s \<Longrightarrow> step e s = Inr s' \<Longrightarrow> inv s'"
begin

lemma run_inv:
  "list_all admissible es \<Longrightarrow> inv s \<Longrightarrow> run_steps step es s = Inr s' \<Longrightarrow> inv s'"
  by (induction es arbitrary: s) (auto elim!: and_then_InrE dest: step_inv)

end

locale total_machine = machine +
  assumes step_total: "\<And>e s. admissible e \<Longrightarrow> inv s \<Longrightarrow> \<exists>s'. step e s = Inr s'"
begin

lemma run_total:
  "list_all admissible es \<Longrightarrow> inv s \<Longrightarrow> \<exists>s'. run_steps step es s = Inr s' \<and> inv s'"
proof (induction es arbitrary: s)
  case Nil
  then show ?case by simp
next
  case (Cons e es)
  then obtain t where t: "step e s = Inr t"
    using step_total [of e s] by auto
  with Cons.prems have "inv t" using step_inv [of e s t] by auto
  with Cons t show ?case by auto
qed

end

end
