(* ===== verification/Sha256.thy ===== *)
theory Sha256
  imports Prelude
begin

text \<open>
  SHA-256, the digest of the standard library's \<^verbatim>\<open>crypto/sha256\<close> that every message of the
  protocol is hashed with before it is signed. The definition follows FIPS 180-4 on 32-bit
  words; the properties of the development only need that it is a function with 32-byte values.
\<close>

unbundle bit_operations_syntax

definition sha_rotr :: "nat \<Rightarrow> 32 word \<Rightarrow> 32 word" where
  "sha_rotr n x = drop_bit n x OR push_bit (32 - n) x"

definition sha_ch :: "32 word \<Rightarrow> 32 word \<Rightarrow> 32 word \<Rightarrow> 32 word" where
  "sha_ch x y z = (x AND y) XOR (NOT x AND z)"

definition sha_maj :: "32 word \<Rightarrow> 32 word \<Rightarrow> 32 word \<Rightarrow> 32 word" where
  "sha_maj x y z = (x AND y) XOR (x AND z) XOR (y AND z)"

definition sha_big0 :: "32 word \<Rightarrow> 32 word" where
  "sha_big0 x = sha_rotr 2 x XOR sha_rotr 13 x XOR sha_rotr 22 x"

definition sha_big1 :: "32 word \<Rightarrow> 32 word" where
  "sha_big1 x = sha_rotr 6 x XOR sha_rotr 11 x XOR sha_rotr 25 x"

definition sha_small0 :: "32 word \<Rightarrow> 32 word" where
  "sha_small0 x = sha_rotr 7 x XOR sha_rotr 18 x XOR drop_bit 3 x"

definition sha_small1 :: "32 word \<Rightarrow> 32 word" where
  "sha_small1 x = sha_rotr 17 x XOR sha_rotr 19 x XOR drop_bit 10 x"

definition sha_K :: "32 word list" where
  "sha_K =
   [1116352408, 1899447441, 3049323471, 3921009573, 961987163, 1508970993, 2453635748,
    2870763221, 3624381080, 310598401, 607225278, 1426881987, 1925078388, 2162078206, 2614888103,
    3248222580, 3835390401, 4022224774, 264347078, 604807628, 770255983, 1249150122, 1555081692,
    1996064986, 2554220882, 2821834349, 2952996808, 3210313671, 3336571891, 3584528711,
    113926993, 338241895, 666307205, 773529912, 1294757372, 1396182291, 1695183700, 1986661051,
    2177026350, 2456956037, 2730485921, 2820302411, 3259730800, 3345764771, 3516065817,
    3600352804, 4094571909, 275423344, 430227734, 506948616, 659060556, 883997877, 958139571,
    1322822218, 1537002063, 1747873779, 1955562222, 2024104815, 2227730452, 2361852424,
    2428436474, 2756734187, 3204031479, 3329325298]"

definition sha_H0 :: "32 word list" where
  "sha_H0 = [1779033703, 3144134277, 1013904242, 2773480762, 1359893119, 2600822924, 528734635, 1541459225]"

text \<open>Padding: one bit, zeros, and the bit length as a 64-bit big-endian number.\<close>

definition sha_pad :: "byte list \<Rightarrow> byte list" where
  "sha_pad m = m @ [0x80] @ replicate ((119 - length m mod 64) mod 64) 0 @ be_bytes 8 (8 * int (length m))"

fun sha_words :: "byte list \<Rightarrow> 32 word list" where
  "sha_words (a # b # c # d # bs) =
     word_of_int (((uint a * 256 + uint b) * 256 + uint c) * 256 + uint d) # sha_words bs"
| "sha_words bs = []"

text \<open>The message schedule, extended one word at a time to 64 words.\<close>

fun sha_extend :: "nat \<Rightarrow> 32 word list \<Rightarrow> 32 word list" where
  "sha_extend 0 w = w"
| "sha_extend (Suc n) w =
     (let t = length w in
      sha_extend n (w @ [sha_small1 (w ! (t - 2)) + w ! (t - 7) + sha_small0 (w ! (t - 15)) + w ! (t - 16)]))"

fun sha_round :: "32 word list \<Rightarrow> 32 word \<times> 32 word \<Rightarrow> 32 word list" where
  "sha_round [a, b, c, d, e, f, g, h] (k, w) =
     (let t1 = h + sha_big1 e + sha_ch e f g + k + w;
          t2 = sha_big0 a + sha_maj a b c
      in [t1 + t2, a, b, c, d + t1, e, f, g])"
| "sha_round s _ = s"

definition sha_compress :: "32 word list \<Rightarrow> byte list \<Rightarrow> 32 word list" where
  "sha_compress h block =
     map2 (+) h (foldl sha_round h (zip sha_K (sha_extend 48 (sha_words block))))"

fun sha_blocks :: "nat \<Rightarrow> 32 word list \<Rightarrow> byte list \<Rightarrow> 32 word list" where
  "sha_blocks 0 h bs = h"
| "sha_blocks (Suc n) h bs = sha_blocks n (sha_compress h (take 64 bs)) (drop 64 bs)"

definition sha256 :: "byte list \<Rightarrow> byte list" where
  "sha256 m =
     (let bs = sha_pad m
      in concat (map (\<lambda>w. be_bytes 4 (uint w)) (sha_blocks (length bs div 64) sha_H0 bs)))"

lemma length_sha_round [simp]: "length s = 8 \<Longrightarrow> length (sha_round s kw) = 8"
  by (cases "(s, kw)" rule: sha_round.cases) (auto simp: Let_def)

lemma length_sha_rounds [simp]: "length s = 8 \<Longrightarrow> length (foldl sha_round s kws) = 8"
  by (induction kws arbitrary: s) simp_all

lemma length_sha_blocks: "length h = 8 \<Longrightarrow> length (sha_blocks n h bs) = 8"
  by (induction n arbitrary: h bs) (simp_all add: sha_compress_def)

lemma length_sha256 [simp]: "length (sha256 m) = 32"
proof -
  have "length (sha_blocks n sha_H0 bs) = 8" for n bs
    by (rule length_sha_blocks) (simp add: sha_H0_def)
  then show ?thesis
    by (simp add: sha256_def Let_def length_concat comp_def sum_list_triv)
qed

end
