(* ===== verification/Messages.thy ===== *)
theory Messages
  imports Sha256
begin

text \<open>
  The message layer (\<^verbatim>\<open>src/message\<close> and the helpers of \<^verbatim>\<open>src/common\<close> it uses): the four
  consensus messages with their accessors, digests and stateless validation, the application
  state, and the size check of the decoder. A pointer that may be nil is an \<open>option\<close>; a
  \<^verbatim>\<open>[32]byte\<close> array is a 256-bit word; an instant of \<^verbatim>\<open>time.Time\<close> is the number of nanoseconds
  since Go's zero time (1 January of year 1, UTC); the amino codec is a parameter.
\<close>

section \<open>Data\<close>

type_synonym PubKey = string
type_synonym ProposedData = "256 word"
type_synonym VoteType = byte
type_synonym Time = int
type_synonym Duration = int

definition NilData :: ProposedData where
  "NilData = 0"

definition IsNil :: "ProposedData \<Rightarrow> bool" where
  "IsNil pd \<longleftrightarrow> pd = NilData"

definition PrevoteType :: VoteType where "PrevoteType = 0x01"

definition PrecommitType :: VoteType where "PrecommitType = 0x02"

definition ProposalType :: VoteType where "ProposalType = 0x20"

lemmas vote_types = PrevoteType_def PrecommitType_def ProposalType_def

lemma vote_types_distinct [simp]:
  "PrevoteType \<noteq> PrecommitType" "PrecommitType \<noteq> PrevoteType"
  "PrevoteType \<noteq> ProposalType" "ProposalType \<noteq> PrevoteType"
  "PrecommitType \<noteq> ProposalType" "ProposalType \<noteq> PrecommitType"
  by (simp_all add: vote_types)

definition IsVoteTypeValid :: "VoteType \<Rightarrow> bool" where
  "IsVoteTypeValid t \<longleftrightarrow> t = PrevoteType \<or> t = PrecommitType \<or> t = ProposalType"

record Vote =
  v_Type :: VoteType
  v_Height :: int
  v_Round :: int
  v_Timestamp :: Time
  v_Proposed :: ProposedData
  v_Prev :: ProposedData
  v_Address :: PubKey
  v_Signature :: "byte list"

text \<open>\<^verbatim>\<open>NewVote\<close> reads the clock for the time stamp; the reading is its last argument.\<close>

definition NewVote :: "VoteType \<Rightarrow> int \<Rightarrow> int \<Rightarrow> ProposedData \<Rightarrow> ProposedData \<Rightarrow> Time \<Rightarrow> Vote" where
  "NewVote t height round proposed prev now =
     \<lparr>v_Type = t, v_Height = height, v_Round = round, v_Timestamp = now,
      v_Proposed = proposed, v_Prev = prev, v_Address = [], v_Signature = []\<rparr>"

record Commit =
  c_ProposedData :: ProposedData
  c_Prev :: ProposedData
  c_Precommits :: "Vote option list"
  c_CommitTime :: Time
  c_Address :: PubKey
  c_Signature :: "byte list"

record FetchVotesReq =
  q_Type :: VoteType
  q_Height :: int
  q_Round :: int
  q_Invoker :: PubKey
  q_Voters :: "PubKey list"
  q_Time :: Time
  q_Signature :: "byte list"

record FetchVotesRsp =
  r_Type :: VoteType
  r_Height :: int
  r_Round :: int
  r_Responser :: PubKey
  r_MissingVotes :: "Vote option list"
  r_Time :: Time
  r_Signature :: "byte list"

datatype ConsensusMessage =
    MVote Vote
  | MCommit Commit
  | MFetchVotesReq FetchVotesReq
  | MFetchVotesRsp FetchVotesRsp

record AppState =
  LastHeight :: int
  LastProposedData :: ProposedData
  LastCommitTime :: Time
  AppHash :: "byte list"

text \<open>\<^verbatim>\<open>common.ValNum\<close>, the largest number of votes a fetch message may carry.\<close>

definition ValNum :: nat where "ValNum = 21"


section \<open>Encodings the digests are built from\<close>

text \<open>
  What \<^verbatim>\<open>binary.Write\<close> does with each kind of value the message digests pass to it: values of
  a fixed size are appended big-endian; an \<^verbatim>\<open>int\<close>, a \<^verbatim>\<open>string\<close> and a \<^verbatim>\<open>time.Time\<close> (a struct
  with a pointer field) have no fixed size, so the call returns an error and writes nothing.
\<close>

datatype bin_data =
    BinUint8 byte
  | BinInt64 int
  | BinBytes "byte list"
  | BinInt int
  | BinString string
  | BinTime Time

fun binary_Write :: "byte list \<Rightarrow> bin_data \<Rightarrow> byte list \<times> string option" where
  "binary_Write buf (BinUint8 b) = (buf @ [b], None)"
| "binary_Write buf (BinInt64 x) = (buf @ be_bytes 8 x, None)"
| "binary_Write buf (BinBytes bs) = (buf @ bs, None)"
| "binary_Write buf (BinInt x) = (buf, Some ''binary.Write: some values are not fixed-sized in type int'')"
| "binary_Write buf (BinString s) = (buf, Some ''binary.Write: some values are not fixed-sized in type string'')"
| "binary_Write buf (BinTime t) = (buf, Some ''binary.Write: some values are not fixed-sized in type time.Time'')"

text \<open>The digests ignore the error of every write.\<close>

definition bin_writes :: "bin_data list \<Rightarrow> byte list" where
  "bin_writes ds = foldl (\<lambda>buf d. fst (binary_Write buf d)) [] ds"

definition pd_bytes :: "ProposedData \<Rightarrow> byte list" where
  "pd_bytes pd = be_bytes 32 (uint pd)"

definition string_bytes :: "string \<Rightarrow> byte list" where
  "string_bytes s = map (\<lambda>c. word_of_int (int (of_char c))) s"

text \<open>
  \<^verbatim>\<open>time.Time.MarshalBinary\<close> of an instant in UTC: version 1, the seconds since year 1, the
  nanoseconds, and the zone offset \<open>-1\<close> that stands for UTC.
\<close>

definition time_MarshalBinary :: "Time \<Rightarrow> byte list" where
  "time_MarshalBinary t =
     [1] @ be_bytes 8 (t div 10 ^ 9) @ be_bytes 4 (t mod 10 ^ 9) @ be_bytes 2 (-1)"

text \<open>
  The go-amino codec: \<open>MustMarshalBinaryBare\<close> and \<open>UnmarshalBinaryBare\<close> of the third-party
  package, as the program calls them on its registered messages.
\<close>

record Codec =
  MustMarshalBinaryBare :: "ConsensusMessage \<Rightarrow> byte list"
  UnmarshalBinaryBare :: "byte list \<Rightarrow> string + ConsensusMessage"

text \<open>
  What the helpers of \<^verbatim>\<open>src/common/nil.go\<close> ask of a value by reflection: its kind, whether it is nil and its
  length. The kind of a nil interface is \<open>KInvalid\<close>.
\<close>

datatype reflect_Kind =
  KInvalid | KBool | KInt | KInt8 | KInt16 | KInt32 | KInt64 | KUint | KUint8 | KUint16 | KUint32 | KUint64 |
  KUintptr | KFloat32 | KFloat64 | KComplex64 | KComplex128 | KArray | KChan | KFunc | KInterface | KMap | KPtr |
  KSlice | KString | KStruct | KUnsafePointer

record reflect_Value =
  rv_Kind :: reflect_Kind
  rv_IsNil :: bool
  rv_Len :: int

definition IsTypedNil :: "reflect_Value \<Rightarrow> bool" where
  "IsTypedNil rv = (if List.member [KChan, KFunc, KMap, KPtr, KSlice] (rv_Kind rv) then rv_IsNil rv else False)"

definition IsEmpty :: "reflect_Value \<Rightarrow> bool" where
  "IsEmpty rv = (if List.member [KArray, KChan, KMap, KSlice, KString] (rv_Kind rv) then rv_Len rv = 0 else False)"

text \<open>Messages are pointers, so the interface given to \<^verbatim>\<open>cdcEncode\<close> holds a type even where the pointer is nil.\<close>

definition ValueOf_msg :: "ConsensusMessage option \<Rightarrow> reflect_Value" where
  "ValueOf_msg item = \<lparr>rv_Kind = KPtr, rv_IsNil = (item = None), rv_Len = 0\<rparr>"

definition cdcEncode :: "Codec \<Rightarrow> ConsensusMessage option \<Rightarrow> byte list" where
  "cdcEncode cdc item =
     (if \<not> IsTypedNil (ValueOf_msg item) \<and> \<not> IsEmpty (ValueOf_msg item)
      then MustMarshalBinaryBare cdc (the item) else [])"

lemma cdcEncode_simps [simp]:
  "cdcEncode cdc None = []" "cdcEncode cdc (Some m) = MustMarshalBinaryBare cdc m"
  by (simp_all add: cdcEncode_def ValueOf_msg_def IsTypedNil_def IsEmpty_def)

definition maxMsgSize :: nat where "maxMsgSize = 1024 * 1024"

definition DecodeConsensusMsg :: "Codec \<Rightarrow> byte list \<Rightarrow> string + ConsensusMessage" where
  "DecodeConsensusMsg cdc bz =
     (if length bz > maxMsgSize then Inl ''Msg exceeds max size'' else UnmarshalBinaryBare cdc bz)"


section \<open>Votes\<close>

definition Vote_SetSigner :: "PubKey \<Rightarrow> Vote \<Rightarrow> Vote" where
  "Vote_SetSigner key v = v\<lparr>v_Address := key\<rparr>"

definition Vote_GetSigner :: "Vote \<Rightarrow> PubKey" where
  "Vote_GetSigner v = v_Address v"

definition Vote_SetSignature :: "byte list \<Rightarrow> Vote \<Rightarrow> Vote" where
  "Vote_SetSignature sig v = v\<lparr>v_Signature := sig\<rparr>"

definition Vote_GetSignature :: "Vote \<Rightarrow> byte list" where
  "Vote_GetSignature v = v_Signature v"

definition Vote_Digest :: "Vote \<Rightarrow> byte list" where
  "Vote_Digest v =
     sha256 (bin_writes
       [BinUint8 (v_Type v), BinInt64 (v_Height v), BinInt (v_Round v), BinTime (v_Timestamp v),
        BinBytes (pd_bytes (v_Proposed v)), BinBytes (pd_bytes (v_Prev v)), BinString (v_Address v)])"

definition Vote_Copy :: "Vote \<Rightarrow> Vote" where
  "Vote_Copy v = v\<lparr>v_Signature := [] @ v_Signature v\<rparr>"

definition Vote_Bytes :: "Codec \<Rightarrow> Vote option \<Rightarrow> byte list" where
  "Vote_Bytes cdc v = cdcEncode cdc (map_option MVote v)"

definition Vote_ValidateBasic :: "Vote \<Rightarrow> string option" where
  "Vote_ValidateBasic v =
     (if \<not> IsVoteTypeValid (v_Type v) then Some ''Invalid Type''
      else if v_Height v < 0 then Some ''Negative Height''
      else if v_Round v < 0 then Some ''Negative Round''
      else if v_Address v = [] then Some ''Missing vote address''
      else if length (v_Signature v) = 0 then Some ''Missing vote signature''
      else None)"


section \<open>Commits\<close>

definition Commit_SetSigner :: "PubKey \<Rightarrow> Commit \<Rightarrow> Commit" where
  "Commit_SetSigner key c = c\<lparr>c_Address := key\<rparr>"

definition Commit_GetSigner :: "Commit \<Rightarrow> PubKey" where
  "Commit_GetSigner c = c_Address c"

definition Commit_SetSignature :: "byte list \<Rightarrow> Commit \<Rightarrow> Commit" where
  "Commit_SetSignature sig c = c\<lparr>c_Signature := sig\<rparr>"

definition Commit_GetSignature :: "Commit \<Rightarrow> byte list" where
  "Commit_GetSignature c = c_Signature c"

definition Commit_Digest :: "Codec \<Rightarrow> Commit \<Rightarrow> byte list" where
  "Commit_Digest cdc c =
     sha256 (pd_bytes (c_ProposedData c) @ pd_bytes (c_Prev c)
       @ concat (map (Vote_Bytes cdc) (c_Precommits c))
       @ time_MarshalBinary (c_CommitTime c) @ string_bytes (c_Address c))"

definition Commit_Bytes :: "Codec \<Rightarrow> Commit option \<Rightarrow> byte list" where
  "Commit_Bytes cdc c = cdcEncode cdc (map_option MCommit c)"

text \<open>\<^verbatim>\<open>FirstPrecommit\<close>: the first non-nil precommit; nil for no precommits; an empty precommit
  (every field zero but the type) when all of them are nil.\<close>

fun first_vote :: "Vote option list \<Rightarrow> Vote option" where
  "first_vote [] = None"
| "first_vote (Some v # vs) = Some v"
| "first_vote (None # vs) = first_vote vs"

definition FirstPrecommit :: "Commit \<Rightarrow> Vote option" where
  "FirstPrecommit c =
     (if length (c_Precommits c) = 0 then None
      else case first_vote (c_Precommits c) of
        Some v \<Rightarrow> Some v
      | None \<Rightarrow> Some \<lparr>v_Type = PrecommitType, v_Height = 0, v_Round = 0, v_Timestamp = 0,
                      v_Proposed = NilData, v_Prev = NilData, v_Address = [], v_Signature = []\<rparr>)"

definition Commit_Height :: "Commit \<Rightarrow> int" where
  "Commit_Height c = (case FirstPrecommit c of None \<Rightarrow> 0 | Some v \<Rightarrow> v_Height v)"

definition Commit_Round :: "Commit \<Rightarrow> int" where
  "Commit_Round c = (case FirstPrecommit c of None \<Rightarrow> 0 | Some v \<Rightarrow> v_Round v)"

definition Commit_Type :: "Commit \<Rightarrow> byte" where
  "Commit_Type c = PrecommitType"

definition Commit_Size :: "Commit option \<Rightarrow> int" where
  "Commit_Size c = (case c of None \<Rightarrow> 0 | Some c \<Rightarrow> int (length (c_Precommits c)))"

definition Commit_GetByIndex :: "int \<Rightarrow> Commit \<Rightarrow> Vote option outcome" where
  "Commit_GetByIndex i c =
     (if 0 \<le> i \<and> i < int (length (c_Precommits c)) then Inr (c_Precommits c ! nat i)
      else Inl IndexOutOfRange)"

definition Commit_IsCommit :: "Commit \<Rightarrow> bool" where
  "Commit_IsCommit c \<longleftrightarrow> length (c_Precommits c) \<noteq> 0"

text \<open>The loop of \<^verbatim>\<open>Commit.ValidateBasic\<close>; \<open>cache\<close> holds the addresses met so far.\<close>

fun validate_precommits :: "Commit \<Rightarrow> int \<Rightarrow> int \<Rightarrow> PubKey list \<Rightarrow> Vote option list \<Rightarrow> string option" where
  "validate_precommits c height round cache [] = None"
| "validate_precommits c height round cache (None # ps) = validate_precommits c height round cache ps"
| "validate_precommits c height round cache (Some p # ps) =
     (if v_Type p \<noteq> PrecommitType then Some ''invalid commit vote. Expected precommit''
      else if v_Height p \<noteq> height then Some ''invalid commit precommit height''
      else if v_Round p \<noteq> round then Some ''invalid commit precommit round''
      else if v_Prev p \<noteq> c_Prev c then Some ''invalid Prev of precommit in Commit''
      else if v_Proposed p \<noteq> c_ProposedData c then Some ''invalid Proposed of precommit in Commit''
      else if v_Address p \<in> set cache then Some ''duplicated precommits in Commit''
      else validate_precommits c height round (v_Address p # cache) ps)"

definition Commit_ValidateBasic :: "Commit \<Rightarrow> string option" where
  "Commit_ValidateBasic c =
     (if IsNil (c_ProposedData c) then Some ''commit cannot be for nil block''
      else if length (c_Precommits c) = 0 then Some ''no precommits in commit''
      else case validate_precommits c (Commit_Height c) (Commit_Round c) [] (c_Precommits c) of
        Some e \<Rightarrow> Some e
      | None \<Rightarrow>
          if c_Address c = [] then Some ''missing commit address''
          else if length (c_Signature c) = 0 then Some ''missing commit signature''
          else None)"


section \<open>Vote requests and responses\<close>

definition Req_SetSigner :: "PubKey \<Rightarrow> FetchVotesReq \<Rightarrow> FetchVotesReq" where
  "Req_SetSigner key q = q\<lparr>q_Invoker := key\<rparr>"

definition Req_GetSigner :: "FetchVotesReq \<Rightarrow> PubKey" where
  "Req_GetSigner q = q_Invoker q"

definition Req_SetSignature :: "byte list \<Rightarrow> FetchVotesReq \<Rightarrow> FetchVotesReq" where
  "Req_SetSignature sig q = q\<lparr>q_Signature := sig\<rparr>"

definition Req_GetSignature :: "FetchVotesReq \<Rightarrow> byte list" where
  "Req_GetSignature q = q_Signature q"

definition Req_Digest :: "FetchVotesReq \<Rightarrow> byte list" where
  "Req_Digest q =
     sha256 (bin_writes
       ([BinUint8 (q_Type q), BinInt64 (q_Height q), BinInt (q_Round q), BinString (q_Invoker q)]
        @ map BinString (q_Voters q) @ [BinTime (q_Time q)]))"

definition Req_Bytes :: "Codec \<Rightarrow> FetchVotesReq option \<Rightarrow> byte list" where
  "Req_Bytes cdc q = cdcEncode cdc (map_option MFetchVotesReq q)"

definition Req_ValidateBasic :: "FetchVotesReq \<Rightarrow> string option" where
  "Req_ValidateBasic q =
     (if q_Type q \<noteq> PrevoteType \<and> q_Type q \<noteq> PrecommitType then Some ''Invalid type''
      else if q_Invoker q = [] then Some ''Invoker is empty''
      else if length (q_Voters q) > ValNum then Some ''Voters list too long''
      else if length (q_Signature q) = 0 then Some ''Missing signature''
      else None)"

definition Rsp_SetSigner :: "PubKey \<Rightarrow> FetchVotesRsp \<Rightarrow> FetchVotesRsp" where
  "Rsp_SetSigner key r = r\<lparr>r_Responser := key\<rparr>"

definition Rsp_GetSigner :: "FetchVotesRsp \<Rightarrow> PubKey" where
  "Rsp_GetSigner r = r_Responser r"

definition Rsp_SetSignature :: "byte list \<Rightarrow> FetchVotesRsp \<Rightarrow> FetchVotesRsp" where
  "Rsp_SetSignature sig r = r\<lparr>r_Signature := sig\<rparr>"

definition Rsp_GetSignature :: "FetchVotesRsp \<Rightarrow> byte list" where
  "Rsp_GetSignature r = r_Signature r"

text \<open>The digest of a response dereferences every missing vote, so a nil vote panics.\<close>

definition Rsp_Digest :: "FetchVotesRsp \<Rightarrow> byte list outcome" where
  "Rsp_Digest r =
     (if None \<in> set (r_MissingVotes r) then Inl NilPointer
      else Inr (sha256 (bin_writes
       ([BinUint8 (r_Type r), BinInt64 (r_Height r), BinInt (r_Round r), BinString (r_Responser r)]
        @ map (\<lambda>v. BinBytes (Vote_Digest (the v))) (r_MissingVotes r) @ [BinTime (r_Time r)]))))"

definition Rsp_Bytes :: "Codec \<Rightarrow> FetchVotesRsp option \<Rightarrow> byte list" where
  "Rsp_Bytes cdc r = cdcEncode cdc (map_option MFetchVotesRsp r)"

definition Rsp_ValidateBasic :: "FetchVotesRsp \<Rightarrow> string option" where
  "Rsp_ValidateBasic r =
     (if r_Type r \<noteq> PrevoteType \<and> r_Type r \<noteq> PrecommitType then Some ''Invalid type''
      else if r_Responser r = [] then Some ''Responser is empty''
      else if length (r_MissingVotes r) > ValNum then Some ''Voters list too long''
      else if length (r_Signature r) = 0 then Some ''Missing signature''
      else None)"


section \<open>The interface of a consensus message\<close>

definition msg_ValidateBasic :: "ConsensusMessage \<Rightarrow> string option" where
  "msg_ValidateBasic m =
     (case m of
        MVote v \<Rightarrow> Vote_ValidateBasic v
      | MCommit c \<Rightarrow> Commit_ValidateBasic c
      | MFetchVotesReq q \<Rightarrow> Req_ValidateBasic q
      | MFetchVotesRsp r \<Rightarrow> Rsp_ValidateBasic r)"

definition msg_Bytes :: "Codec \<Rightarrow> ConsensusMessage \<Rightarrow> byte list" where
  "msg_Bytes cdc m =
     (case m of
        MVote v \<Rightarrow> Vote_Bytes cdc (Some v)
      | MCommit c \<Rightarrow> Commit_Bytes cdc (Some c)
      | MFetchVotesReq q \<Rightarrow> Req_Bytes cdc (Some q)
      | MFetchVotesRsp r \<Rightarrow> Rsp_Bytes cdc (Some r))"

lemmas accessor_defs =
  Vote_SetSigner_def Vote_GetSigner_def Vote_SetSignature_def Vote_GetSignature_def
  Commit_SetSigner_def Commit_GetSigner_def Commit_SetSignature_def Commit_GetSignature_def
  Req_SetSigner_def Req_GetSigner_def Req_SetSignature_def Req_GetSignature_def
  Rsp_SetSigner_def Rsp_GetSigner_def Rsp_SetSignature_def Rsp_GetSignature_def

text \<open>
  The contract the signing code relies on (\<^verbatim>\<open>message.ConsensusMessage\<close>): setters and getters
  of signer and signature agree, setting a signature leaves the signer, and the digest does not
  cover the signature. \<open>digest\<close> may panic.
\<close>

locale signable =
  fixes setSigner :: "PubKey \<Rightarrow> 'm \<Rightarrow> 'm"
    and getSigner :: "'m \<Rightarrow> PubKey"
    and setSignature :: "byte list \<Rightarrow> 'm \<Rightarrow> 'm"
    and getSignature :: "'m \<Rightarrow> byte list"
    and digest :: "'m \<Rightarrow> byte list outcome"
  assumes getSigner_setSigner: "getSigner (setSigner k m) = k"
    and getSigner_setSignature: "getSigner (setSignature s m) = getSigner m"
    and getSignature_setSignature: "getSignature (setSignature s m) = s"
    and digest_setSignature: "digest (setSignature s m) = digest m"

interpretation vote_signable: signable Vote_SetSigner Vote_GetSigner Vote_SetSignature Vote_GetSignature
  "Inr \<circ> Vote_Digest"
  by unfold_locales (simp_all add: accessor_defs Vote_Digest_def)

interpretation commit_signable: signable Commit_SetSigner Commit_GetSigner Commit_SetSignature
  Commit_GetSignature "Inr \<circ> Commit_Digest cdc"
  for cdc
  by unfold_locales (simp_all add: accessor_defs Commit_Digest_def)

interpretation req_signable: signable Req_SetSigner Req_GetSigner Req_SetSignature Req_GetSignature
  "Inr \<circ> Req_Digest"
  by unfold_locales (simp_all add: accessor_defs Req_Digest_def)

interpretation rsp_signable: signable Rsp_SetSigner Rsp_GetSigner Rsp_SetSignature Rsp_GetSignature
  Rsp_Digest
  by unfold_locales (simp_all add: accessor_defs Rsp_Digest_def)

end
