(* ===== verification/Committee.thy ===== *)
theory Committee
  imports Messages
begin

text \<open>
  The interfaces the host application implements (\<^verbatim>\<open>src/custom/Ivalidator.go\<close>) and the
  wrapper the core talks to them through (\<^verbatim>\<open>src/validators.go\<close>). A committee is the record of
  what its methods answer at one moment; the core replaces it when the application changes.
  \<^verbatim>\<open>Sign\<close> and \<^verbatim>\<open>VerifySignature\<close> work on any message: they take the message's methods as
  arguments, as the Go interface value carries them.
\<close>

section \<open>What the application provides\<close>

record IPubValidator =
  VerifySig :: "byte list \<Rightarrow> byte list \<Rightarrow> bool"
  VotingPower :: int

record IPrivValidator =
  PrivPubKey :: PubKey
  PrivSign :: "byte list \<Rightarrow> byte list"

record ICommittee =
  GetValidator :: "PubKey \<Rightarrow> IPubValidator option"
  IsValidator :: "PubKey \<Rightarrow> bool"
  TotalVotingPower :: int
  ValidatorNum :: int
  GetCurrentProposer :: "int \<Rightarrow> PubKey"
  DecidesProposal :: ProposedData
  ValidateProposal :: "ProposedData \<Rightarrow> bool"
  GetAppState :: "AppState option"
  GetCommitHistory :: "int \<Rightarrow> Commit option"


section \<open>The validators wrapper\<close>

definition GetSelfPubKey :: "IPrivValidator \<Rightarrow> PubKey" where
  "GetSelfPubKey pv = PrivPubKey pv"

text \<open>\<^verbatim>\<open>Validators.Sign\<close>: the signer is set before the digest is taken.\<close>

definition Validators_Sign ::
  "(PubKey \<Rightarrow> 'm \<Rightarrow> 'm) \<Rightarrow> (byte list \<Rightarrow> 'm \<Rightarrow> 'm) \<Rightarrow> ('m \<Rightarrow> byte list outcome) \<Rightarrow>
   IPrivValidator \<Rightarrow> 'm \<Rightarrow> 'm outcome" where
  "Validators_Sign setSigner setSignature digest pv m =
     (let m1 = setSigner (PrivPubKey pv) m
      in and_then (digest m1) (\<lambda>d. Inr (setSignature (PrivSign pv d) m1)))"

definition Validators_VerifySignature ::
  "('m \<Rightarrow> PubKey) \<Rightarrow> ('m \<Rightarrow> byte list) \<Rightarrow> ('m \<Rightarrow> byte list outcome) \<Rightarrow>
   ICommittee \<Rightarrow> 'm \<Rightarrow> bool outcome" where
  "Validators_VerifySignature getSigner getSignature digest V m =
     (case GetValidator V (getSigner m) of
        None \<Rightarrow> Inr False
      | Some val \<Rightarrow> and_then (digest m) (\<lambda>d. Inr (VerifySig val d (getSignature m))))"

definition GetVotingPower :: "ICommittee \<Rightarrow> PubKey \<Rightarrow> int" where
  "GetVotingPower V address =
     (case GetValidator V address of None \<Rightarrow> 0 | Some val \<Rightarrow> VotingPower val)"

definition GetTotalVotingPower :: "ICommittee \<Rightarrow> int" where
  "GetTotalVotingPower V = TotalVotingPower V"

definition GetValidatorNum :: "ICommittee \<Rightarrow> int" where
  "GetValidatorNum V = ValidatorNum V"

text \<open>The instances at the four message types; the digests of three of them never panic.\<close>

definition SignVote :: "IPrivValidator \<Rightarrow> Vote \<Rightarrow> Vote" where
  "SignVote pv v =
     projr (Validators_Sign Vote_SetSigner Vote_SetSignature (Inr \<circ> Vote_Digest) pv v)"

definition SignCommit :: "Codec \<Rightarrow> IPrivValidator \<Rightarrow> Commit \<Rightarrow> Commit" where
  "SignCommit cdc pv c =
     projr (Validators_Sign Commit_SetSigner Commit_SetSignature (Inr \<circ> Commit_Digest cdc) pv c)"

definition SignReq :: "IPrivValidator \<Rightarrow> FetchVotesReq \<Rightarrow> FetchVotesReq" where
  "SignReq pv q =
     projr (Validators_Sign Req_SetSigner Req_SetSignature (Inr \<circ> Req_Digest) pv q)"

definition SignRsp :: "IPrivValidator \<Rightarrow> FetchVotesRsp \<Rightarrow> FetchVotesRsp outcome" where
  "SignRsp pv r = Validators_Sign Rsp_SetSigner Rsp_SetSignature Rsp_Digest pv r"

definition VerifyVote :: "ICommittee \<Rightarrow> Vote \<Rightarrow> bool" where
  "VerifyVote V v =
     projr (Validators_VerifySignature Vote_GetSigner Vote_GetSignature (Inr \<circ> Vote_Digest) V v)"

lemmas validators_defs = Validators_Sign_def Validators_VerifySignature_def Let_def

lemma SignVote_eq:
  "SignVote pv v = v\<lparr>v_Address := PrivPubKey pv,
     v_Signature := PrivSign pv (Vote_Digest (v\<lparr>v_Address := PrivPubKey pv\<rparr>))\<rparr>"
  by (simp add: SignVote_def validators_defs accessor_defs)

lemma SignCommit_eq:
  "SignCommit cdc pv c = c\<lparr>c_Address := PrivPubKey pv,
     c_Signature := PrivSign pv (Commit_Digest cdc (c\<lparr>c_Address := PrivPubKey pv\<rparr>))\<rparr>"
  by (simp add: SignCommit_def validators_defs accessor_defs)

lemma SignReq_eq:
  "SignReq pv q = q\<lparr>q_Invoker := PrivPubKey pv,
     q_Signature := PrivSign pv (Req_Digest (q\<lparr>q_Invoker := PrivPubKey pv\<rparr>))\<rparr>"
  by (simp add: SignReq_def validators_defs accessor_defs)

lemma VerifyVote_eq:
  "VerifyVote V v = (case GetValidator V (v_Address v) of
     None \<Rightarrow> False | Some val \<Rightarrow> VerifySig val (Vote_Digest v) (v_Signature v))"
  by (simp add: VerifyVote_def validators_defs accessor_defs split: option.split)

lemma VerifyVote_validator:
  "VerifyVote V v \<Longrightarrow> \<exists>val. GetValidator V (v_Address v) = Some val"
  by (auto simp: VerifyVote_eq split: option.splits)

lemma SignVote_simps [simp]:
  "v_Type (SignVote pv v) = v_Type v" "v_Height (SignVote pv v) = v_Height v"
  "v_Round (SignVote pv v) = v_Round v" "v_Proposed (SignVote pv v) = v_Proposed v"
  "v_Prev (SignVote pv v) = v_Prev v" "v_Address (SignVote pv v) = PrivPubKey pv"
  "v_Timestamp (SignVote pv v) = v_Timestamp v"
  by (simp_all add: SignVote_eq)


section \<open>Signing and verifying agree\<close>

text \<open>
  \<open>key_pair V pv\<close>: the committee knows the node's key, and the scheme accepts what the
  private key signs. This is what the two interfaces document.
\<close>

definition key_pair :: "ICommittee \<Rightarrow> IPrivValidator \<Rightarrow> bool" where
  "key_pair V pv \<longleftrightarrow>
     (\<exists>val. GetValidator V (PrivPubKey pv) = Some val \<and> (\<forall>d. VerifySig val d (PrivSign pv d)))"

context signable
begin

lemma verify_sign:
  assumes "key_pair V pv" and "Validators_Sign setSigner setSignature digest pv m = Inr m'"
  shows "Validators_VerifySignature getSigner getSignature digest V m' = Inr True"
  using assms
  by (auto simp: Validators_Sign_def Validators_VerifySignature_def key_pair_def Let_def
      getSigner_setSignature getSigner_setSigner getSignature_setSignature digest_setSignature
      elim!: and_then_InrE)

end

lemma VerifyVote_SignVote:
  assumes "key_pair V pv"
  shows "VerifyVote V (SignVote pv v)"
  using vote_signable.verify_sign [OF assms, of v "SignVote pv v"]
  by (simp add: VerifyVote_def SignVote_def validators_defs)

end
