(* ===== verification/Vote_Set.thy ===== *)
theory Vote_Set
  imports Committee
begin

text \<open>
  The vote set (\<^verbatim>\<open>src/vote_set.go\<close>): the votes of one type collected at one height and round,
  grouped by the proposed data they are for, with the running sums and the first +2/3 majority
  seen. A method with a nil receiver is modelled on \<open>VoteSet option\<close>. The committee the set
  holds a pointer to is an argument.
\<close>

section \<open>Errors\<close>

text \<open>The errors of \<^verbatim>\<open>src/errors.go\<close> and the unnamed errors of the vote containers.\<close>

datatype verror =
    ErrVoteUnexpectedStep
  | ErrVoteInvalidValidatorIndex
  | ErrVoteInvalidValidatorAddress
  | ErrVoteInvalidSignature
  | ErrVoteInvalidBlockHash
  | ErrVoteNonDeterministicSignature
  | ErrVoteNil
  | ErrVoteMismatchedBase
  | ErrVoteHeightMismatch
  | ErrVoteInvalidRound
  | ErrInvalidProposer
  | ErrInvalidProposalSignature
  | ErrInvalidProposalPOLRound
  | ErrAddingVote
  | ErrDuplicateVote
  | ErrConflictingVote
  | ErrInvalidVoteType


section \<open>Votes for one proposed data\<close>

record proposedDataVotes =
  pdv_votes :: "(PubKey \<times> Vote) list"
  pdv_sum :: int

definition newProposedDataVotes :: proposedDataVotes where
  "newProposedDataVotes = \<lparr>pdv_votes = [], pdv_sum = 0\<rparr>"

definition pdv_addVote :: "Vote \<Rightarrow> int \<Rightarrow> proposedDataVotes \<Rightarrow> proposedDataVotes" where
  "pdv_addVote vote votingPower pd =
     (case map_of (pdv_votes pd) (v_Address vote) of
        Some _ \<Rightarrow> pd
      | None \<Rightarrow> pd\<lparr>pdv_votes := AList.update (v_Address vote) vote (pdv_votes pd),
                    pdv_sum := wrap64 (pdv_sum pd + votingPower)\<rparr>)"

definition pdv_getVote :: "PubKey \<Rightarrow> proposedDataVotes \<Rightarrow> Vote option" where
  "pdv_getVote address pd = map_of (pdv_votes pd) address"

definition pdv_getAllVotes :: "(PubKey list \<Rightarrow> PubKey list) \<Rightarrow> proposedDataVotes \<Rightarrow> Vote list" where
  "pdv_getAllVotes ord pd = map snd (map_range ord (pdv_votes pd))"


section \<open>Vote sets\<close>

record VoteSet =
  vs_height :: int
  vs_round :: int
  vs_type :: VoteType
  vs_base :: ProposedData
  vs_sum :: int
  vs_distinctVoter :: int
  vs_minorQuorum :: ProposedData
  vs_maj23 :: ProposedData
  vs_votesByProposedData :: "(ProposedData \<times> proposedDataVotes) list"
  vs_conflictingVotes :: "PubKey \<rightharpoonup> Vote list"

definition NewVoteSet :: "int \<Rightarrow> int \<Rightarrow> VoteType \<Rightarrow> ProposedData \<Rightarrow> VoteSet outcome" where
  "NewVoteSet height round vtype b =
     (if height = 0 then Inl (PanicSanity ''Cannot make VoteSet for height == 0, doesn't make sense.'')
      else Inr \<lparr>vs_height = height, vs_round = round, vs_type = vtype, vs_base = b,
                vs_sum = 0, vs_distinctVoter = 0, vs_minorQuorum = NilData, vs_maj23 = NilData,
                vs_votesByProposedData = [], vs_conflictingVotes = Map.empty\<rparr>)"

definition VoteSet_Height :: "VoteSet option \<Rightarrow> int" where
  "VoteSet_Height vs = (case vs of None \<Rightarrow> 0 | Some vs \<Rightarrow> vs_height vs)"

definition VoteSet_Round :: "VoteSet option \<Rightarrow> int" where
  "VoteSet_Round vs = (case vs of None \<Rightarrow> -1 | Some vs \<Rightarrow> vs_round vs)"

definition VoteSet_Type :: "VoteSet option \<Rightarrow> byte" where
  "VoteSet_Type vs = (case vs of None \<Rightarrow> 0 | Some vs \<Rightarrow> vs_type vs)"

definition getVote :: "VoteSet \<Rightarrow> ProposedData \<Rightarrow> PubKey \<Rightarrow> Vote option" where
  "getVote vs pd address =
     (case map_of (vs_votesByProposedData vs) pd of
        None \<Rightarrow> None
      | Some pdvotes \<Rightarrow> pdv_getVote address pdvotes)"

text \<open>\<^verbatim>\<open>GetTotalVotingPower()*2/3\<close> in 64-bit arithmetic.\<close>

definition two_thirds :: "ICommittee \<Rightarrow> int" where
  "two_thirds V = go_div (wrap64 (GetTotalVotingPower V * 2)) 3"

definition quorum_of :: "ICommittee \<Rightarrow> int" where
  "quorum_of V = wrap64 (two_thirds V + 1)"

text \<open>
  \<^verbatim>\<open>addVerifiedVote\<close> returns \<open>true\<close> and a conflicting vote that is always nil (the conflict
  check is a TODO of the source).
\<close>

definition addVerifiedVote :: "ICommittee \<Rightarrow> Vote \<Rightarrow> int \<Rightarrow> VoteSet \<Rightarrow> bool \<times> Vote option \<times> VoteSet" where
  "addVerifiedVote V vote votingPower vs =
     (let byProposed =
            (case map_of (vs_votesByProposedData vs) (v_Proposed vote) of
               Some b \<Rightarrow> b
             | None \<Rightarrow> newProposedDataVotes);
          origSum = pdv_sum byProposed;
          quorum = quorum_of V;
          byProposed' = pdv_addVote vote votingPower byProposed;
          vs1 = vs\<lparr>vs_votesByProposedData :=
                     AList.update (v_Proposed vote) byProposed' (vs_votesByProposedData vs)\<rparr>;
          vs2 = (if origSum < quorum \<and> quorum \<le> pdv_sum byProposed' \<and> vs_maj23 vs1 = NilData
                 then vs1\<lparr>vs_maj23 := v_Proposed vote\<rparr> else vs1);
          vs3 = vs2\<lparr>vs_sum := wrap64 (vs_sum vs2 + votingPower)\<rparr>;
          n = int (length (pdv_votes byProposed'));
          vs4 = (if vs_distinctVoter vs3 < n
                 then (let vs' = vs3\<lparr>vs_distinctVoter := n\<rparr>
                       in if vs_minorQuorum vs' = NilData
                          then vs'\<lparr>vs_minorQuorum := v_Proposed vote\<rparr> else vs')
                 else vs3)
      in (True, None, vs4))"

definition vs_addVote :: "ICommittee \<Rightarrow> Vote option \<Rightarrow> VoteSet \<Rightarrow> (bool \<times> verror option \<times> VoteSet) outcome" where
  "vs_addVote V vote_ptr vs =
     (case vote_ptr of
        None \<Rightarrow> Inr (False, Some ErrVoteNil, vs)
      | Some vote \<Rightarrow>
          if v_Prev vote \<noteq> vs_base vs then Inr (False, Some ErrVoteMismatchedBase, vs)
          else if v_Height vote \<noteq> vs_height vs \<or> v_Round vote \<noteq> vs_round vs \<or> v_Type vote \<noteq> vs_type vs
          then Inr (False, Some ErrVoteUnexpectedStep, vs)
          else case getVote vs (v_Proposed vote) (v_Address vote) of
            Some existing \<Rightarrow>
              if v_Signature existing = v_Signature vote
              then Inr (False, Some ErrDuplicateVote, vs)
              else Inr (False, Some ErrVoteNonDeterministicSignature, vs)
          | None \<Rightarrow>
              if \<not> VerifyVote V vote then Inr (False, Some ErrVoteInvalidSignature, vs)
              else
                (let (added, conflicting, vs') =
                       addVerifiedVote V vote (GetVotingPower V (v_Address vote)) vs
                 in if conflicting \<noteq> None then Inr (added, Some ErrConflictingVote, vs')
                    else if \<not> added then Inl (PanicSanity ''Expected to add non-conflicting vote'')
                    else Inr (added, None, vs')))"

definition AddVote :: "ICommittee \<Rightarrow> Vote option \<Rightarrow> VoteSet option \<Rightarrow> (bool \<times> verror option \<times> VoteSet) outcome" where
  "AddVote V vote_ptr vs_ptr =
     (case vs_ptr of
        None \<Rightarrow> Inl (PanicSanity ''AddVote() on nil VoteSet'')
      | Some vs \<Rightarrow> vs_addVote V vote_ptr vs)"


section \<open>Queries\<close>

definition HasTwoThirdsMajority :: "VoteSet option \<Rightarrow> bool" where
  [vs_defs]: "HasTwoThirdsMajority vs = (case vs of None \<Rightarrow> False | Some vs \<Rightarrow> vs_maj23 vs \<noteq> NilData)"

definition IsCommit :: "VoteSet option \<Rightarrow> bool" where
  [vs_defs]: "IsCommit vs =
     (case vs of None \<Rightarrow> False
      | Some vs \<Rightarrow> if vs_type vs \<noteq> PrecommitType then False else vs_maj23 vs \<noteq> NilData)"

definition MinorQuorum :: "ICommittee \<Rightarrow> VoteSet option \<Rightarrow> ProposedData \<times> bool" where
  "MinorQuorum V vs_ptr =
     (case vs_ptr of
        None \<Rightarrow> (NilData, False)
      | Some vs \<Rightarrow>
          (let valNum = GetValidatorNum V
           in if vs_distinctVoter vs > go_div (wrap64 (valNum * 2)) 3
                 \<or> valNum < 4 \<and> vs_distinctVoter vs \<ge> go_div (wrap64 (valNum + 1)) 2
              then (vs_minorQuorum vs, True) else (NilData, False)))"

definition HasTwoThirdsAny :: "ICommittee \<Rightarrow> VoteSet option \<Rightarrow> bool" where
  [vs_defs]: "HasTwoThirdsAny V vs = (case vs of None \<Rightarrow> False | Some vs \<Rightarrow> vs_sum vs > two_thirds V)"

definition HasAll :: "ICommittee \<Rightarrow> VoteSet option \<Rightarrow> bool outcome" where
  [vs_defs]: "HasAll V vs = (case vs of None \<Rightarrow> Inl NilPointer | Some vs \<Rightarrow> Inr (vs_sum vs = GetTotalVotingPower V))"

definition TwoThirdsMajority :: "VoteSet option \<Rightarrow> ProposedData \<times> bool" where
  [vs_defs]: "TwoThirdsMajority vs =
     (case vs of None \<Rightarrow> (NilData, False)
      | Some vs \<Rightarrow> if vs_maj23 vs \<noteq> NilData then (vs_maj23 vs, True) else (NilData, False))"


section \<open>Messages made from a vote set\<close>

text \<open>
  Ranging over the two maps takes their orders: \<open>order_pd\<close> for the map of proposed data,
  \<open>order_pk\<close> for the votes of one of them.
\<close>

record range_order =
  order_pd :: "ProposedData list \<Rightarrow> ProposedData list"
  order_pk :: "ProposedData \<Rightarrow> PubKey list \<Rightarrow> PubKey list"

definition is_range_order :: "range_order \<Rightarrow> bool" where
  "is_range_order ord \<longleftrightarrow> is_order (order_pd ord) \<and> (\<forall>pd. is_order (order_pk ord pd))"

text \<open>The entries of a vote set in the order two nested ranges visit them.\<close>

definition ranged_votes :: "range_order \<Rightarrow> VoteSet \<Rightarrow> (PubKey \<times> Vote) list" where
  "ranged_votes ord vs =
     concat (map (\<lambda>(pd, b). map_range (order_pk ord pd) (pdv_votes b))
                 (map_range (order_pd ord) (vs_votesByProposedData vs)))"

definition MakeCommit :: "range_order \<Rightarrow> VoteSet option \<Rightarrow> Commit outcome" where
  "MakeCommit ord vs_ptr =
     (case vs_ptr of
        None \<Rightarrow> Inl NilPointer
      | Some vs \<Rightarrow>
          if vs_maj23 vs = NilData then Inl (PanicSanity ''[MakeCommit] precommit doen't reach +2/3'')
          else case map_of (vs_votesByProposedData vs) (vs_maj23 vs) of
            None \<Rightarrow> Inl NilPointer
          | Some b \<Rightarrow>
              (case pdv_getAllVotes (order_pk ord (vs_maj23 vs)) b of
                 [] \<Rightarrow> Inl IndexOutOfRange
               | p # ps \<Rightarrow>
                   Inr \<lparr>c_ProposedData = vs_maj23 vs, c_Prev = v_Prev p,
                        c_Precommits = map Some (p # ps), c_CommitTime = 0,
                        c_Address = [], c_Signature = []\<rparr>))"

definition MakeFetchVotesReq :: "range_order \<Rightarrow> Time \<Rightarrow> VoteSet option \<Rightarrow> FetchVotesReq outcome" where
  "MakeFetchVotesReq ord now vs_ptr =
     (case vs_ptr of
        None \<Rightarrow> Inl NilPointer
      | Some vs \<Rightarrow>
          Inr \<lparr>q_Type = vs_type vs, q_Height = vs_height vs, q_Round = vs_round vs, q_Invoker = [],
               q_Voters = map fst (ranged_votes ord vs), q_Time = now, q_Signature = []\<rparr>)"

definition MakeFetchVotesRsp :: "range_order \<Rightarrow> Time \<Rightarrow> FetchVotesReq \<Rightarrow> VoteSet option \<Rightarrow> FetchVotesRsp outcome" where
  "MakeFetchVotesRsp ord now req vs_ptr =
     (case vs_ptr of
        None \<Rightarrow> Inl NilPointer
      | Some vs \<Rightarrow>
          Inr \<lparr>r_Type = vs_type vs, r_Height = vs_height vs, r_Round = vs_round vs, r_Responser = [],
               r_MissingVotes =
                 map (\<lambda>(pk, v). Some v)
                     (filter (\<lambda>(pk, v). pk \<notin> set (q_Voters req)) (ranged_votes ord vs)),
               r_Time = now, r_Signature = []\<rparr>)"

end
