(* ===== verification/Vote_Set_Facts.thy ===== *)
theory Vote_Set_Facts
  imports Vote_Set
begin

text \<open>
  Correctness of the vote set. The abstraction of a vote set is \<open>getVote\<close>, a partial map from
  proposed data and address to the vote; the well-formedness invariant ties the concrete maps to
  it, the counting invariant ties the running sums and the majority to the voting power behind
  each proposed data. Quorum intersection follows for any two vote sets of the same committee.
\<close>

section \<open>Acceptance of one vote\<close>

definition accepts :: "ICommittee \<Rightarrow> VoteSet \<Rightarrow> Vote \<Rightarrow> bool" where
  "accepts V vs v \<longleftrightarrow>
     v_Prev v = vs_base vs \<and> v_Height v = vs_height vs \<and> v_Round v = vs_round vs \<and>
     v_Type v = vs_type vs \<and> getVote vs (v_Proposed v) (v_Address v) = None \<and> VerifyVote V v"

definition vs_add :: "ICommittee \<Rightarrow> Vote \<Rightarrow> VoteSet \<Rightarrow> VoteSet" where
  "vs_add V v vs = snd (snd (addVerifiedVote V v (GetVotingPower V (v_Address v)) vs))"

lemma addVerifiedVote_eq:
  "addVerifiedVote V v (GetVotingPower V (v_Address v)) vs = (True, None, vs_add V v vs)"
  by (simp add: vs_add_def addVerifiedVote_def Let_def)

lemma vs_addVote_Some:
  "vs_addVote V (Some v) vs =
     Inr (if accepts V vs v then (True, None, vs_add V v vs)
          else (False, Some (if v_Prev v \<noteq> vs_base vs then ErrVoteMismatchedBase
                       else if v_Height v \<noteq> vs_height vs \<or> v_Round v \<noteq> vs_round vs \<or> v_Type v \<noteq> vs_type vs
                       then ErrVoteUnexpectedStep
                       else case getVote vs (v_Proposed v) (v_Address v) of
                          None \<Rightarrow> ErrVoteInvalidSignature
                        | Some old \<Rightarrow> if v_Signature old = v_Signature v then ErrDuplicateVote
                                     else ErrVoteNonDeterministicSignature), vs))"
  by (auto simp: vs_addVote_def accepts_def addVerifiedVote_eq split: option.split)

lemma vs_addVote_None [simp]: "vs_addVote V None vs = Inr (False, Some ErrVoteNil, vs)"
  by (simp add: vs_addVote_def)

lemma vs_addVote_total: "\<exists>added err vs'. vs_addVote V p vs = Inr (added, err, vs')"
  by (cases p) (auto simp: vs_addVote_Some)

lemma vs_addVote_cases:
  assumes "vs_addVote V p vs = Inr (added, err, vs')"
  obtains (rejected) e where "added = False" "err = Some e" "vs' = vs"
    | (accepted) v where "p = Some v" "accepts V vs v" "added = True" "err = None" "vs' = vs_add V v vs"
  using assms by (cases p) (auto simp: vs_addVote_Some split: if_splits)


section \<open>What adding a vote changes\<close>

definition pdv_of :: "VoteSet \<Rightarrow> ProposedData \<Rightarrow> proposedDataVotes" where
  "pdv_of vs d = (case map_of (vs_votesByProposedData vs) d of Some b \<Rightarrow> b | None \<Rightarrow> newProposedDataVotes)"

lemma getVote_eq_pdv_of: "getVote vs d k = map_of (pdv_votes (pdv_of vs d)) k"
  by (simp add: getVote_def pdv_of_def pdv_getVote_def newProposedDataVotes_def split: option.split)

lemma vs_add_frame [simp]:
  "vs_height (vs_add V v vs) = vs_height vs" "vs_round (vs_add V v vs) = vs_round vs"
  "vs_type (vs_add V v vs) = vs_type vs" "vs_base (vs_add V v vs) = vs_base vs"
  "vs_conflictingVotes (vs_add V v vs) = vs_conflictingVotes vs"
  by (simp_all add: vs_add_def addVerifiedVote_def Let_def)

lemma vs_add_map:
  "vs_votesByProposedData (vs_add V v vs) =
     AList.update (v_Proposed v)
       (pdv_addVote v (GetVotingPower V (v_Address v)) (pdv_of vs (v_Proposed v)))
       (vs_votesByProposedData vs)"
  by (simp add: vs_add_def addVerifiedVote_def Let_def pdv_of_def)

lemma vs_add_sum: "vs_sum (vs_add V v vs) = wrap64 (vs_sum vs + GetVotingPower V (v_Address v))"
  by (simp add: vs_add_def addVerifiedVote_def Let_def)

lemma vs_add_maj23:
  "vs_maj23 (vs_add V v vs) =
     (let b = pdv_of vs (v_Proposed v); b' = pdv_addVote v (GetVotingPower V (v_Address v)) b
      in if pdv_sum b < quorum_of V \<and> quorum_of V \<le> pdv_sum b' \<and> vs_maj23 vs = NilData
         then v_Proposed v else vs_maj23 vs)"
  by (simp add: vs_add_def addVerifiedVote_def Let_def pdv_of_def)

lemma pdv_of_vs_add:
  "pdv_of (vs_add V v vs) d =
     (if d = v_Proposed v then pdv_addVote v (GetVotingPower V (v_Address v)) (pdv_of vs d)
      else pdv_of vs d)"
  by (simp add: pdv_of_def [of "vs_add V v vs"] vs_add_map update_conv)
     (simp add: pdv_of_def)

lemma pdv_addVote_new:
  assumes "map_of (pdv_votes b) (v_Address v) = None"
  shows "pdv_votes (pdv_addVote v p b) = pdv_votes b @ [(v_Address v, v)]"
    and "pdv_sum (pdv_addVote v p b) = wrap64 (pdv_sum b + p)"
  using assms by (simp_all add: pdv_addVote_def alist_update_new)

lemma getVote_vs_add:
  assumes "accepts V vs v"
  shows "getVote (vs_add V v vs) d k =
    (if d = v_Proposed v \<and> k = v_Address v then Some v else getVote vs d k)"
proof -
  have new: "map_of (pdv_votes (pdv_of vs (v_Proposed v))) (v_Address v) = None"
    using assms by (simp add: accepts_def getVote_eq_pdv_of)
  then show ?thesis
    by (auto simp: getVote_eq_pdv_of pdv_of_vs_add pdv_addVote_new map_add_def split: option.split)
qed


section \<open>Well-formed vote sets\<close>

definition vs_wf :: "VoteSet \<Rightarrow> bool" where
  "vs_wf vs \<longleftrightarrow>
     distinct (map fst (vs_votesByProposedData vs)) \<and>
     (\<forall>(d, b) \<in> set (vs_votesByProposedData vs).
        pdv_votes b \<noteq> [] \<and> distinct (map fst (pdv_votes b))) \<and>
     (\<forall>d k v. getVote vs d k = Some v \<longrightarrow>
        v_Address v = k \<and> v_Proposed v = d \<and> v_Prev v = vs_base vs \<and>
        v_Height v = vs_height vs \<and> v_Round v = vs_round vs \<and> v_Type v = vs_type vs) \<and>
     (vs_maj23 vs \<noteq> NilData \<longrightarrow> vs_maj23 vs \<in> fst ` set (vs_votesByProposedData vs))"

lemma vs_wf_new: "NewVoteSet h r t b = Inr vs \<Longrightarrow> vs_wf vs"
  by (auto simp: NewVoteSet_def vs_wf_def getVote_def split: if_splits)

lemma vs_wf_entry:
  assumes "vs_wf vs" and "map_of (vs_votesByProposedData vs) d = Some b"
  shows "pdv_votes b \<noteq> []" and "distinct (map fst (pdv_votes b))"
proof -
  have "(d, b) \<in> set (vs_votesByProposedData vs)"
    using assms(2) by (rule map_of_SomeD)
  with assms(1) show "pdv_votes b \<noteq> []" and "distinct (map fst (pdv_votes b))"
    unfolding vs_wf_def by blast+
qed

lemma vs_wf_pdv_distinct: "vs_wf vs \<Longrightarrow> distinct (map fst (pdv_votes (pdv_of vs d)))"
  using vs_wf_entry(2) [of vs d] by (simp add: pdv_of_def newProposedDataVotes_def split: option.split)

lemma set_alist_update_subset:
  "set (AList.update k v m) \<subseteq> insert (k, v) (set m)"
  by (induction m) auto

lemma vs_wf_add:
  assumes wf: "vs_wf vs" and acc: "accepts V vs v"
  shows "vs_wf (vs_add V v vs)"
proof -
  let ?vs' = "vs_add V v vs"
  have new: "map_of (pdv_votes (pdv_of vs (v_Proposed v))) (v_Address v) = None"
    using acc by (simp add: accepts_def getVote_eq_pdv_of)
  have keys: "fst ` set (vs_votesByProposedData ?vs') = insert (v_Proposed v) (fst ` set (vs_votesByProposedData vs))"
    by (simp add: vs_add_map dom_update)
  have "distinct (map fst (vs_votesByProposedData ?vs'))"
    using wf by (simp add: vs_add_map distinct_update vs_wf_def)
  moreover have "pdv_votes b \<noteq> [] \<and> distinct (map fst (pdv_votes b))"
    if "(d, b) \<in> set (vs_votesByProposedData ?vs')" for d b
  proof -
    from that have "(d, b) = (v_Proposed v, pdv_addVote v (GetVotingPower V (v_Address v)) (pdv_of vs (v_Proposed v)))
        \<or> (d, b) \<in> set (vs_votesByProposedData vs)"
      unfolding vs_add_map using set_alist_update_subset by fastforce
    then show ?thesis
    proof
      assume "(d, b) \<in> set (vs_votesByProposedData vs)"
      with wf show ?thesis by (auto simp: vs_wf_def)
    next
      assume b: "(d, b) = (v_Proposed v, pdv_addVote v (GetVotingPower V (v_Address v)) (pdv_of vs (v_Proposed v)))"
      have "distinct (map fst (pdv_votes (pdv_of vs (v_Proposed v))))"
        by (rule vs_wf_pdv_distinct [OF wf])
      with b new show ?thesis
        by (auto simp: pdv_addVote_new map_of_eq_None_iff)
    qed
  qed
  moreover have "vs_maj23 ?vs' \<in> fst ` set (vs_votesByProposedData ?vs')" if "vs_maj23 ?vs' \<noteq> NilData"
    using that wf unfolding keys by (auto simp: vs_add_maj23 Let_def vs_wf_def split: if_splits)
  moreover have "v_Address w = k \<and> v_Proposed w = d \<and> v_Prev w = vs_base vs \<and>
        v_Height w = vs_height vs \<and> v_Round w = vs_round vs \<and> v_Type w = vs_type vs"
    if "getVote ?vs' d k = Some w" for d k w
    using that wf acc by (auto simp: getVote_vs_add [OF acc] vs_wf_def accepts_def split: if_splits)
  ultimately show ?thesis
    unfolding vs_wf_def by auto
qed

text \<open>The vote set as a machine that consumes votes.\<close>

definition vs_step :: "ICommittee \<Rightarrow> Vote option \<Rightarrow> VoteSet \<Rightarrow> VoteSet outcome" where
  "vs_step V p vs = and_then (vs_addVote V p vs) (\<lambda>(added, err, vs'). Inr vs')"

lemma vs_step_cases:
  "vs_step V p vs = Inr vs \<or> (\<exists>v. p = Some v \<and> accepts V vs v \<and> vs_step V p vs = Inr (vs_add V v vs))"
proof -
  obtain added err vs' where "vs_addVote V p vs = Inr (added, err, vs')"
    using vs_addVote_total by blast
  moreover from this have "vs_step V p vs = Inr vs'" by (simp add: vs_step_def)
  ultimately show ?thesis
    by (cases rule: vs_addVote_cases) auto
qed

interpretation vs_machine: total_machine "vs_step V" "\<lambda>_. True" vs_wf for V
proof unfold_locales
  show "vs_wf s'" if "vs_wf s" and "vs_step V e s = Inr s'" for e s s'
    using that vs_step_cases [of V e s] vs_wf_add by fastforce
  show "\<exists>s'. vs_step V e s = Inr s'" for e s
    using vs_step_cases [of V e s] by blast
qed


lemma vs_run_maj23:
  assumes "run_steps (vs_step V) ps vs = Inr vs'" and "vs_maj23 vs \<noteq> NilData"
  shows "vs_maj23 vs' = vs_maj23 vs"
  using assms
proof (induction ps arbitrary: vs)
  case Nil
  then show ?case by simp
next
  case (Cons x ps)
  obtain t where t: "vs_step V x vs = Inr t" "run_steps (vs_step V) ps t = Inr vs'"
    using Cons.prems(1) by (auto elim: and_then_InrE)
  then have "vs_maj23 t = vs_maj23 vs"
    using vs_step_cases [of V x vs] Cons.prems(2) by (auto simp: vs_add_maj23)
  with Cons.IH [OF t(2)] Cons.prems(2) show ?case by simp
qed


section \<open>Counting voting power\<close>

definition voters :: "VoteSet \<Rightarrow> ProposedData \<Rightarrow> PubKey set" where
  "voters vs d = {k. getVote vs d k \<noteq> None}"

definition tally :: "ICommittee \<Rightarrow> PubKey set \<Rightarrow> int" where
  "tally V S = (\<Sum>k\<in>S. GetVotingPower V k)"

definition nonneg_powers :: "ICommittee \<Rightarrow> bool" where
  "nonneg_powers V \<longleftrightarrow> (\<forall>k. 0 \<le> GetVotingPower V k)"

text \<open>
  The sums are exact as long as they stay below \<open>2 ^ 63\<close>: each proposed data's sum is the power
  of its voters, the total is the sum over all proposed data, and the majority is the first
  non-nil proposed data whose voters reached the quorum.
\<close>

definition vs_sums :: "ICommittee \<Rightarrow> VoteSet \<Rightarrow> bool" where
  "vs_sums V vs \<longleftrightarrow>
     (\<forall>d. pdv_sum (pdv_of vs d) = tally V (voters vs d)) \<and>
     vs_sum vs = sum_list (map (pdv_sum \<circ> snd) (vs_votesByProposedData vs))"

definition vs_counted :: "ICommittee \<Rightarrow> VoteSet \<Rightarrow> bool" where
  "vs_counted V vs \<longleftrightarrow>
     vs_sums V vs \<and>
     (vs_maj23 vs \<noteq> NilData \<longrightarrow> quorum_of V \<le> tally V (voters vs (vs_maj23 vs))) \<and>
     (\<forall>d. d \<noteq> NilData \<longrightarrow> quorum_of V \<le> tally V (voters vs d) \<longrightarrow> vs_maj23 vs \<noteq> NilData)"

lemma voters_eq: "voters vs d = fst ` set (pdv_votes (pdv_of vs d))"
  by (auto simp: voters_def getVote_eq_pdv_of map_of_eq_None_iff simp flip: not_None_eq)

lemma finite_voters [simp, intro]: "finite (voters vs d)"
  by (simp add: voters_eq)

lemma tally_nonneg: "nonneg_powers V \<Longrightarrow> 0 \<le> tally V S"
  by (simp add: tally_def nonneg_powers_def sum_nonneg)

lemma tally_mono: "nonneg_powers V \<Longrightarrow> finite T \<Longrightarrow> S \<subseteq> T \<Longrightarrow> tally V S \<le> tally V T"
  by (simp add: tally_def nonneg_powers_def sum_mono2)

lemma tally_Un_Int:
  "finite S \<Longrightarrow> finite T \<Longrightarrow> tally V (S \<union> T) + tally V (S \<inter> T) = tally V S + tally V T"
  by (simp add: tally_def sum.union_inter)

lemma voters_vs_add:
  assumes "accepts V vs v"
  shows "voters (vs_add V v vs) d = (if d = v_Proposed v then insert (v_Address v) (voters vs d) else voters vs d)"
  using assms by (auto simp: voters_def getVote_vs_add)

lemma tally_voters_vs_add:
  assumes "accepts V vs v"
  shows "tally V (voters (vs_add V v vs) d) =
    tally V (voters vs d) + (if d = v_Proposed v then GetVotingPower V (v_Address v) else 0)"
proof -
  have "v_Address v \<notin> voters vs (v_Proposed v)"
    using assms by (simp add: voters_def accepts_def)
  then show ?thesis
    by (simp add: voters_vs_add [OF assms] tally_def)
qed

lemma vs_entry_sum:
  assumes "vs_wf vs" and "vs_sums V vs" and "(d, b) \<in> set (vs_votesByProposedData vs)"
  shows "pdv_sum b = tally V (voters vs d)"
proof -
  have "map_of (vs_votesByProposedData vs) d = Some b"
    using assms(1,3) by (simp add: vs_wf_def)
  then have "pdv_of vs d = b" by (simp add: pdv_of_def)
  with assms(2) show ?thesis by (metis vs_sums_def)
qed

lemma tally_le_vs_sum:
  assumes wf: "vs_wf vs" and cnt: "vs_sums V vs" and nn: "nonneg_powers V"
  shows "tally V (voters vs d) \<le> vs_sum vs"
proof -
  have nonneg: "0 \<le> (pdv_sum \<circ> snd) x" if "x \<in> set (vs_votesByProposedData vs)" for x
    using that vs_entry_sum [OF wf cnt, of "fst x" "snd x"] tally_nonneg [OF nn] by simp
  show ?thesis
  proof (cases "map_of (vs_votesByProposedData vs) d")
    case None
    then have "tally V (voters vs d) = 0"
      by (simp add: voters_eq pdv_of_def newProposedDataVotes_def tally_def)
    also have "\<dots> \<le> sum_list (map (pdv_sum \<circ> snd) (vs_votesByProposedData vs))"
      using nonneg by (intro sum_list_nonneg) auto
    finally show ?thesis using cnt by (simp add: vs_sums_def)
  next
    case (Some b)
    then have "(d, b) \<in> set (vs_votesByProposedData vs)" by (rule map_of_SomeD)
    with nonneg have "(pdv_sum \<circ> snd) (d, b) \<le> sum_list (map (pdv_sum \<circ> snd) (vs_votesByProposedData vs))"
      by (rule sum_list_nonneg_member)
    moreover have "pdv_sum b = tally V (voters vs d)"
      by (rule vs_entry_sum) fact+
    ultimately show ?thesis using cnt by (simp add: vs_sums_def)
  qed
qed

lemma vs_sums_new: "NewVoteSet h r t b = Inr vs \<Longrightarrow> vs_sums V vs"
  by (auto simp: NewVoteSet_def vs_sums_def voters_def getVote_def tally_def pdv_of_def
      newProposedDataVotes_def split: if_splits)

lemma vs_counted_new:
  assumes "NewVoteSet h r t b = Inr vs" and "0 < quorum_of V"
  shows "vs_counted V vs"
  using assms vs_sums_new [OF assms(1)]
  by (auto simp: NewVoteSet_def vs_counted_def voters_def getVote_def tally_def split: if_splits)

text \<open>Adding an accepted vote with room left: the sums grow by the voter's power.\<close>

lemma vs_sums_add:
  assumes wf: "vs_wf vs" and cnt: "vs_sums V vs" and acc: "accepts V vs v"
    and nn: "nonneg_powers V" and room: "vs_sum vs + GetVotingPower V (v_Address v) < 2 ^ 63"
  shows "vs_sums V (vs_add V v vs)"
    and "vs_sum (vs_add V v vs) = vs_sum vs + GetVotingPower V (v_Address v)"
    and "pdv_sum (pdv_addVote v (GetVotingPower V (v_Address v)) (pdv_of vs (v_Proposed v))) =
      tally V (voters vs (v_Proposed v)) + GetVotingPower V (v_Address v)"
proof -
  let ?d = "v_Proposed v" and ?p = "GetVotingPower V (v_Address v)" and ?vs' = "vs_add V v vs"
  let ?b = "pdv_of vs ?d"
  have p: "0 \<le> ?p" using nn by (simp add: nonneg_powers_def)
  have new: "map_of (pdv_votes ?b) (v_Address v) = None"
    using acc by (simp add: accepts_def getVote_eq_pdv_of)
  have b: "pdv_sum ?b = tally V (voters vs ?d)" using cnt by (simp add: vs_sums_def)
  have le: "tally V (voters vs ?d) \<le> vs_sum vs" by (rule tally_le_vs_sum [OF wf cnt nn])
  have ge: "0 \<le> tally V (voters vs ?d)" by (rule tally_nonneg [OF nn])
  show sum: "vs_sum ?vs' = vs_sum vs + ?p"
    unfolding vs_add_sum using le ge p room by (intro wrap64_idI) linarith+
  show b': "pdv_sum (pdv_addVote v ?p ?b) = tally V (voters vs ?d) + ?p"
    unfolding pdv_addVote_new(2) [OF new] b using le ge p room by (intro wrap64_idI) linarith+
  have "pdv_sum (pdv_of ?vs' d) = tally V (voters ?vs' d)" for d
    using cnt b' by (simp add: pdv_of_vs_add tally_voters_vs_add [OF acc] vs_sums_def)
  moreover have "vs_sum ?vs' = sum_list (map (pdv_sum \<circ> snd) (vs_votesByProposedData ?vs'))"
  proof -
    have "(case map_of (vs_votesByProposedData vs) ?d of None \<Rightarrow> 0 | Some w \<Rightarrow> pdv_sum w) = pdv_sum ?b"
      by (simp add: pdv_of_def newProposedDataVotes_def split: option.split)
    then show ?thesis
      using wf cnt unfolding sum vs_add_map
      by (simp add: sum_list_alist_update vs_wf_def vs_sums_def b b')
  qed
  ultimately show "vs_sums V ?vs'" unfolding vs_sums_def by blast
qed

lemma vs_counted_add:
  assumes wf: "vs_wf vs" and cnt: "vs_counted V vs" and acc: "accepts V vs v"
    and nn: "nonneg_powers V" and room: "vs_sum vs + GetVotingPower V (v_Address v) < 2 ^ 63"
  shows "vs_counted V (vs_add V v vs)"
proof -
  let ?d = "v_Proposed v" and ?p = "GetVotingPower V (v_Address v)" and ?vs' = "vs_add V v vs"
  let ?b = "pdv_of vs ?d"
  have sums: "vs_sums V vs" using cnt by (simp add: vs_counted_def)
  have p: "0 \<le> ?p" using nn by (simp add: nonneg_powers_def)
  have b: "pdv_sum ?b = tally V (voters vs ?d)" using sums by (simp add: vs_sums_def)
  note b' = vs_sums_add(3) [OF wf sums acc nn room]
  have "quorum_of V \<le> tally V (voters ?vs' (vs_maj23 ?vs'))" if "vs_maj23 ?vs' \<noteq> NilData"
  proof (cases "pdv_sum ?b < quorum_of V \<and> quorum_of V \<le> pdv_sum (pdv_addVote v ?p ?b) \<and> vs_maj23 vs = NilData")
    case True
    then have "vs_maj23 ?vs' = ?d" by (simp add: vs_add_maj23)
    with True b' show ?thesis by (simp add: tally_voters_vs_add [OF acc])
  next
    case False
    then have eq: "vs_maj23 ?vs' = vs_maj23 vs" by (auto simp: vs_add_maj23 Let_def)
    with that cnt have "quorum_of V \<le> tally V (voters vs (vs_maj23 vs))"
      by (simp add: vs_counted_def)
    with p eq show ?thesis
      by (cases "vs_maj23 vs = ?d") (simp_all add: tally_voters_vs_add [OF acc])
  qed
  moreover have "vs_maj23 ?vs' \<noteq> NilData" if d: "d \<noteq> NilData" "quorum_of V \<le> tally V (voters ?vs' d)" for d
  proof (cases "quorum_of V \<le> tally V (voters vs d)")
    case True
    with d cnt have "vs_maj23 vs \<noteq> NilData" by (simp add: vs_counted_def)
    then show ?thesis by (simp add: vs_add_maj23)
  next
    case False
    with d have "d = ?d" by (simp add: tally_voters_vs_add [OF acc] split: if_splits)
    with d False b b' show ?thesis by (simp add: vs_add_maj23 Let_def tally_voters_vs_add [OF acc])
  qed
  ultimately show "vs_counted V ?vs'"
    using vs_sums_add(1) [OF wf sums acc nn room] unfolding vs_counted_def by blast
qed

text \<open>
  A run of additions keeps what each addition with room left keeps, as long as the number of
  votes times the largest voting power stays below \<open>2 ^ 63\<close>.
\<close>

definition powers_within :: "ICommittee \<Rightarrow> int \<Rightarrow> bool" where
  "powers_within V p \<longleftrightarrow> (\<forall>k. 0 \<le> GetVotingPower V k \<and> GetVotingPower V k \<le> p)"

lemma powers_within_nonneg: "powers_within V p \<Longrightarrow> nonneg_powers V"
  by (simp add: powers_within_def nonneg_powers_def)

lemma vs_run_keeps:
  assumes "run_steps (vs_step V) ps vs = Inr vs'" and "vs_wf vs" and "vs_sums V vs" and "I vs"
    and pw: "powers_within V p" and "vs_sum vs + int (length ps) * p < 2 ^ 63"
    and keeps: "\<And>vs v. vs_wf vs \<Longrightarrow> vs_sums V vs \<Longrightarrow> I vs \<Longrightarrow> accepts V vs v \<Longrightarrow>
       vs_sum vs + GetVotingPower V (v_Address v) < 2 ^ 63 \<Longrightarrow> I (vs_add V v vs)"
  shows "vs_sums V vs' \<and> I vs'"
  using assms(1-4,6)
proof (induction ps arbitrary: vs)
  case Nil
  then show ?case by simp
next
  case (Cons x ps)
  have p: "0 \<le> p" using pw by (meson order_trans powers_within_def)
  obtain vs1 where step: "vs_step V x vs = Inr vs1" and rest: "run_steps (vs_step V) ps vs1 = Inr vs'"
    using Cons.prems(1) by (auto elim: and_then_InrE)
  have wf1: "vs_wf vs1" using vs_machine.step_inv [OF _ Cons.prems(2) step] by simp
  have "(vs_sums V vs1 \<and> I vs1) \<and> vs_sum vs1 \<le> vs_sum vs + p"
    using vs_step_cases [of V x vs]
  proof
    assume "vs_step V x vs = Inr vs"
    with step Cons.prems(3,4) p show ?thesis by simp
  next
    assume "\<exists>v. x = Some v \<and> accepts V vs v \<and> vs_step V x vs = Inr (vs_add V v vs)"
    then obtain v where acc: "accepts V vs v" and vs1: "vs1 = vs_add V v vs"
      using step by auto
    have pv: "GetVotingPower V (v_Address v) \<le> p"
      using pw by (simp add: powers_within_def)
    have "0 \<le> int (length ps) * p" using p by simp
    with Cons.prems(5) pv have room: "vs_sum vs + GetVotingPower V (v_Address v) < 2 ^ 63"
      by (simp add: algebra_simps)
    note vs_sums_add [OF Cons.prems(2,3) acc powers_within_nonneg [OF pw] room]
      keeps [OF Cons.prems(2-4) acc room]
    with pv vs1 show ?thesis by simp
  qed
  with Cons.IH [OF rest wf1] Cons.prems(5) show ?case
    by (simp add: algebra_simps)
qed

section \<open>Quorums\<close>

text \<open>
  \<open>total_ok V\<close>: the total voting power is non-negative and below \<open>2 ^ 62\<close>, so that doubling it
  does not overflow; then the two thresholds of the code are the intended ones.
\<close>

definition total_ok :: "ICommittee \<Rightarrow> bool" where
  "total_ok V \<longleftrightarrow> 0 \<le> TotalVotingPower V \<and> TotalVotingPower V < 2 ^ 62"

lemma two_thirds_ok: "total_ok V \<Longrightarrow> two_thirds V = 2 * TotalVotingPower V div 3"
  by (simp add: two_thirds_def total_ok_def GetTotalVotingPower_def wrap64_idI mult.commute)

lemma quorum_ok:
  assumes "total_ok V"
  shows "quorum_of V = 2 * TotalVotingPower V div 3 + 1" and "0 < quorum_of V"
proof -
  have "0 \<le> 2 * TotalVotingPower V div 3" and "2 * TotalVotingPower V div 3 \<le> TotalVotingPower V"
    using assms unfolding total_ok_def by linarith+
  with assms have "wrap64 (2 * TotalVotingPower V div 3 + 1) = 2 * TotalVotingPower V div 3 + 1"
    and "0 < 2 * TotalVotingPower V div 3 + 1"
    by (simp_all add: total_ok_def wrap64_idI)
  then show "quorum_of V = 2 * TotalVotingPower V div 3 + 1" and "0 < quorum_of V"
    by (simp_all add: quorum_of_def two_thirds_ok [OF assms])
qed

lemma quorum_le_iff: "total_ok V \<Longrightarrow> quorum_of V \<le> x \<longleftrightarrow> 2 * TotalVotingPower V < 3 * x"
  by (simp add: quorum_ok) presburger

lemma TwoThirdsMajority_Some:
  "TwoThirdsMajority (Some vs) = (d, True) \<longleftrightarrow> d = vs_maj23 vs \<and> d \<noteq> NilData"
  by (auto simp: TwoThirdsMajority_def)

text \<open>The vote set collected by a node: a fresh set after a sequence of additions.\<close>

definition collected :: "ICommittee \<Rightarrow> int \<Rightarrow> Vote option list \<Rightarrow> VoteSet \<Rightarrow> bool" where
  "collected V p ps vs \<longleftrightarrow>
     powers_within V p \<and> int (length ps) * p < 2 ^ 63 \<and>
     (\<exists>h r t b vs0. NewVoteSet h r t b = Inr vs0 \<and> run_steps (vs_step V) ps vs0 = Inr vs)"

lemma NewVoteSet_sum: "NewVoteSet h r t b = Inr vs \<Longrightarrow> vs_sum vs = 0"
  by (auto simp: NewVoteSet_def split: if_splits)

lemma collected_inv:
  assumes "collected V p ps vs"
  shows "vs_wf vs" and "0 < quorum_of V \<Longrightarrow> vs_counted V vs"
proof -
  obtain h r t b vs0 where new: "NewVoteSet h r t b = Inr vs0"
    and run: "run_steps (vs_step V) ps vs0 = Inr vs"
    using assms by (auto simp: collected_def)
  show "vs_wf vs"
    by (rule vs_machine.run_inv [OF _ vs_wf_new [OF new] run]) (simp add: list_all_iff)
  show "vs_counted V vs" if "0 < quorum_of V"
    using vs_run_keeps [OF run vs_wf_new [OF new] vs_sums_new [OF new], where I = "vs_counted V" and p = p]
      vs_counted_new [OF new that] vs_counted_add powers_within_nonneg NewVoteSet_sum [OF new] assms
    by (auto simp: collected_def)
qed

text \<open>Doubling a total of \<open>2 ^ 62\<close> or more wraps around, and both thresholds are not positive.\<close>

lemma thresholds_overflow:
  assumes "2 ^ 62 \<le> TotalVotingPower V" and "TotalVotingPower V < 2 ^ 63 - 1"
  shows "two_thirds V < 0" and "quorum_of V \<le> 0"
proof -
  let ?a = "TotalVotingPower V * 2 - 2 ^ 64"
  have "(TotalVotingPower V * 2 + 2 ^ 63) mod 2 ^ 64 = (?a + 2 ^ 63) mod (2 ^ 64 :: int)"
    by (simp add: mod_eq_dvd_iff)
  then have w: "wrap64 (TotalVotingPower V * 2) = ?a"
    using assms by (simp add: wrap64_def)
  have a: "- (2 ^ 63) \<le> ?a" "?a \<le> -4" using assms by simp_all
  have two: "two_thirds V = - (- ?a div 3)"
    using a by (simp add: two_thirds_def GetTotalVotingPower_def w go_div_def signed_divide_int_def)
  have d: "1 \<le> - ?a div 3" "- ?a div 3 \<le> 2 ^ 63"
    using a by linarith+
  then show "two_thirds V < 0" by (simp add: two)
  have "wrap64 (two_thirds V + 1) = two_thirds V + 1"
    using d by (intro wrap64_idI) (simp_all add: two)
  with d show "quorum_of V \<le> 0" by (simp add: quorum_of_def two)
qed

lemma collected_sums_no_majority:
  assumes "collected V p ps vs" and "quorum_of V \<le> 0"
  shows "0 \<le> vs_sum vs" and "vs_maj23 vs = NilData"
proof -
  obtain h r t b vs0 where new: "NewVoteSet h r t b = Inr vs0"
    and run: "run_steps (vs_step V) ps vs0 = Inr vs"
    using assms by (auto simp: collected_def)
  have pw: "powers_within V p" using assms by (simp add: collected_def)
  have keep: "vs_maj23 (vs_add V v s) = NilData" if "vs_sums V s" and "vs_maj23 s = NilData" for s v
  proof -
    have "0 \<le> pdv_sum (pdv_of s (v_Proposed v))"
      using that(1) tally_nonneg [OF powers_within_nonneg [OF pw]] by (simp add: vs_sums_def)
    with that(2) assms(2) show ?thesis by (simp add: vs_add_maj23 Let_def)
  qed
  have "vs_maj23 vs0 = NilData" using new by (auto simp: NewVoteSet_def split: if_splits)
  with keep have r: "vs_sums V vs \<and> vs_maj23 vs = NilData"
    using vs_run_keeps [OF run vs_wf_new [OF new] vs_sums_new [OF new], where I = "\<lambda>s. vs_maj23 s = NilData" and p = p]
      pw assms NewVoteSet_sum [OF new]
    by (auto simp: collected_def)
  then show "vs_maj23 vs = NilData" by simp
  show "0 \<le> vs_sum vs"
    using tally_le_vs_sum [OF collected_inv(1) [OF assms(1)] _ powers_within_nonneg [OF pw], of 0]
      tally_nonneg [OF powers_within_nonneg [OF pw], of "voters vs 0"] r by simp
qed

lemma collected_majority_iff:
  assumes "collected V p ps vs" and "total_ok V"
  shows "HasTwoThirdsMajority (Some vs) \<longleftrightarrow>
    (\<exists>d. d \<noteq> NilData \<and> 2 * TotalVotingPower V < 3 * tally V (voters vs d))"
  using collected_inv(2) [OF assms(1) quorum_ok(2) [OF assms(2)]]
  by (auto simp: HasTwoThirdsMajority_def vs_counted_def quorum_le_iff [OF assms(2)])

lemma collected_majority_power:
  assumes "collected V p ps vs" and "total_ok V" and "TwoThirdsMajority (Some vs) = (d, True)"
  shows "2 * TotalVotingPower V < 3 * tally V (voters vs d)"
  using collected_inv(2) [OF assms(1) quorum_ok(2) [OF assms(2)]] assms(3)
  by (auto simp: TwoThirdsMajority_Some vs_counted_def quorum_le_iff [OF assms(2)])

text \<open>
  The committee's total is the power of its validators; the voters of a vote set are
  validators, because a vote is only accepted with a verified signature.
\<close>

definition committee_total :: "ICommittee \<Rightarrow> PubKey list \<Rightarrow> bool" where
  "committee_total V vals \<longleftrightarrow>
     distinct vals \<and> (\<forall>k. GetValidator V k \<noteq> None \<longleftrightarrow> k \<in> set vals) \<and>
     TotalVotingPower V = tally V (set vals)"

lemma vs_step_verified:
  assumes "vs_step V p vs = Inr vs'" and "getVote vs' d k = Some v"
  shows "getVote vs d k = Some v \<or> VerifyVote V v"
  using vs_step_cases [of V p vs] assms
  by (auto simp: getVote_vs_add accepts_def split: if_splits)

lemma run_verified:
  assumes "run_steps (vs_step V) ps vs = Inr vs'" and "getVote vs' d k = Some v"
  shows "getVote vs d k = Some v \<or> VerifyVote V v"
  using assms
  by (induction ps arbitrary: vs) (auto elim!: and_then_InrE dest: vs_step_verified)

lemma collected_voters_validators:
  assumes "collected V p ps vs" and "committee_total V vals"
  shows "voters vs d \<subseteq> set vals"
proof
  fix k assume "k \<in> voters vs d"
  then obtain v where v: "getVote vs d k = Some v" by (auto simp: voters_def)
  obtain h r t b vs0 where new: "NewVoteSet h r t b = Inr vs0"
    and run: "run_steps (vs_step V) ps vs0 = Inr vs"
    using assms(1) by (auto simp: collected_def)
  have "getVote vs0 d k = None"
    using new by (auto simp: NewVoteSet_def getVote_def split: if_splits)
  with run_verified [OF run v] have "VerifyVote V v" by simp
  moreover have "v_Address v = k"
    using collected_inv(1) [OF assms(1)] v unfolding vs_wf_def by blast
  ultimately show "k \<in> set vals"
    using VerifyVote_validator [of V v] assms(2) by (auto simp: committee_total_def)
qed

lemma quorum_overlap:
  assumes "committee_total V vals" and "nonneg_powers V"
    and "S \<subseteq> set vals" and "T \<subseteq> set vals"
    and "2 * TotalVotingPower V < 3 * tally V S" and "2 * TotalVotingPower V < 3 * tally V T"
  shows "TotalVotingPower V < 3 * tally V (S \<inter> T)"
proof -
  have fin: "finite S" "finite T" using assms(3,4) by (auto intro: finite_subset)
  have "tally V (S \<union> T) \<le> tally V (set vals)"
    using assms by (intro tally_mono) auto
  moreover have "tally V (S \<union> T) + tally V (S \<inter> T) = tally V S + tally V T"
    by (rule tally_Un_Int) fact+
  ultimately show ?thesis using assms(1,5,6) by (simp add: committee_total_def)
qed

end
