(* ===== verification/Height_Vote_Set.thy ===== *)
theory Height_Vote_Set
  imports Vote_Set_Facts
begin

text \<open>
  The height vote set (\<^verbatim>\<open>src/height_vote_set.go\<close>): the prevote and precommit sets of every
  tracked round of one height. The map of rounds is an HOL map; the sets it points to are
  updated in place by the source, here by putting the new set back.
\<close>

section \<open>The model\<close>

record RoundVoteSet =
  rvs_Prevotes :: VoteSet
  rvs_Precommits :: VoteSet

record HeightVoteSet =
  hvs_height :: int
  hvs_base :: ProposedData
  hvs_round :: int
  hvs_roundVoteSets :: "int \<rightharpoonup> RoundVoteSet"

definition hvs_addRound :: "int \<Rightarrow> HeightVoteSet \<Rightarrow> HeightVoteSet outcome" where
  "hvs_addRound round hvs =
     (if hvs_roundVoteSets hvs round \<noteq> None then Inl (PanicSanity ''addRound() for an existing round'')
      else and_then (NewVoteSet (hvs_height hvs) round PrevoteType (hvs_base hvs)) (\<lambda>prevotes.
           and_then (NewVoteSet (hvs_height hvs) round PrecommitType (hvs_base hvs)) (\<lambda>precommits.
             Inr (hvs\<lparr>hvs_roundVoteSets := (hvs_roundVoteSets hvs)
                        (round \<mapsto> \<lparr>rvs_Prevotes = prevotes, rvs_Precommits = precommits\<rparr>)\<rparr>))))"

definition hvs_Reset :: "int \<Rightarrow> ProposedData \<Rightarrow> HeightVoteSet \<Rightarrow> HeightVoteSet outcome" where
  "hvs_Reset height b hvs =
     and_then
       (hvs_addRound 0 (hvs\<lparr>hvs_height := height, hvs_base := b, hvs_roundVoteSets := Map.empty\<rparr>))
       (\<lambda>hvs1. Inr (hvs1\<lparr>hvs_round := 0\<rparr>))"

definition NewHeightVoteSet :: "int \<Rightarrow> ProposedData \<Rightarrow> HeightVoteSet outcome" where
  "NewHeightVoteSet height b =
     hvs_Reset height b \<lparr>hvs_height = 0, hvs_base = NilData, hvs_round = 0, hvs_roundVoteSets = Map.empty\<rparr>"

text \<open>The loop of \<^verbatim>\<open>SetRound\<close>, from \<open>r\<close> to \<open>round\<close>.\<close>

function set_round_loop :: "int \<Rightarrow> int \<Rightarrow> HeightVoteSet \<Rightarrow> HeightVoteSet outcome" where
  "set_round_loop r round hvs =
     (if r \<le> round
      then (if hvs_roundVoteSets hvs r \<noteq> None then set_round_loop (r + 1) round hvs
            else and_then (hvs_addRound r hvs) (\<lambda>hvs1. set_round_loop (r + 1) round hvs1))
      else Inr hvs)"
  by pat_completeness auto
termination
  by (relation "measure (\<lambda>(r, round, hvs). nat (round - r + 1))") auto

declare set_round_loop.simps [simp del]

text \<open>With \<open>round\<close> the largest integer the loop's guard never fails, so the call does not return.\<close>

definition SetRound :: "int \<Rightarrow> HeightVoteSet \<Rightarrow> HeightVoteSet outcome" where
  "SetRound round hvs =
     (if hvs_round hvs \<noteq> 0 \<and> round < wrap64 (hvs_round hvs + 1)
      then Inl (PanicSanity ''SetRound() must increment hvs.round'')
      else if round = max_int64 then Inl Diverges
      else and_then (set_round_loop (wrap64 (hvs_round hvs + 1)) round hvs)
             (\<lambda>hvs1. Inr (hvs1\<lparr>hvs_round := round\<rparr>)))"

definition getVoteSet :: "int \<Rightarrow> VoteType \<Rightarrow> HeightVoteSet \<Rightarrow> VoteSet option outcome" where
  "getVoteSet round vtype hvs =
     (case hvs_roundVoteSets hvs round of
        None \<Rightarrow> Inr None
      | Some rvs \<Rightarrow>
          if vtype = PrevoteType then Inr (Some (rvs_Prevotes rvs))
          else if vtype = PrecommitType then Inr (Some (rvs_Precommits rvs))
          else Inl (PanicSanity ''Unexpected vote type''))"

definition Prevotes :: "int \<Rightarrow> HeightVoteSet \<Rightarrow> VoteSet option" where
  "Prevotes round hvs = projr (getVoteSet round PrevoteType hvs)"

definition Precommits :: "int \<Rightarrow> HeightVoteSet \<Rightarrow> VoteSet option" where
  "Precommits round hvs = projr (getVoteSet round PrecommitType hvs)"

text \<open>Writing back a vote set that was updated through its pointer.\<close>

definition hvs_put :: "int \<Rightarrow> VoteType \<Rightarrow> VoteSet \<Rightarrow> HeightVoteSet \<Rightarrow> HeightVoteSet" where
  "hvs_put round vtype vs hvs =
     (case hvs_roundVoteSets hvs round of
        None \<Rightarrow> hvs
      | Some rvs \<Rightarrow>
          hvs\<lparr>hvs_roundVoteSets := (hvs_roundVoteSets hvs)
                (round \<mapsto> (if vtype = PrevoteType then rvs\<lparr>rvs_Prevotes := vs\<rparr>
                            else rvs\<lparr>rvs_Precommits := vs\<rparr>))\<rparr>)"

definition hvs_AddVote :: "ICommittee \<Rightarrow> Vote \<Rightarrow> HeightVoteSet \<Rightarrow> (bool \<times> verror option \<times> HeightVoteSet) outcome" where
  "hvs_AddVote V vote hvs =
     (if \<not> IsVoteTypeValid (v_Type vote) then Inr (False, Some ErrInvalidVoteType, hvs)
      else
        and_then (getVoteSet (v_Round vote) (v_Type vote) hvs) (\<lambda>vs0.
        and_then
          (case vs0 of
             Some _ \<Rightarrow> Inr (vs0, hvs)
           | None \<Rightarrow>
               and_then (hvs_addRound (v_Round vote) hvs) (\<lambda>hvs1.
               and_then (getVoteSet (v_Round vote) (v_Type vote) hvs1) (\<lambda>vs1. Inr (vs1, hvs1))))
          (\<lambda>(vs1, hvs1).
        and_then (AddVote V (Some vote) vs1) (\<lambda>(added, err, vs').
          Inr (added, err, hvs_put (v_Round vote) (v_Type vote) vs' hvs1)))))"

text \<open>The loop of \<^verbatim>\<open>POLInfo\<close>, downwards from \<open>r\<close>.\<close>

function pol_loop :: "HeightVoteSet \<Rightarrow> int \<Rightarrow> int \<times> ProposedData" where
  "pol_loop hvs r =
     (if r \<ge> 0
      then (case TwoThirdsMajority (Prevotes r hvs) of
              (polData, ok) \<Rightarrow> if ok then (r, polData) else pol_loop hvs (r - 1))
      else (-1, NilData))"
  by pat_completeness auto
termination
  by (relation "measure (\<lambda>(hvs, r). nat (r + 1))") auto

declare pol_loop.simps [simp del]

definition POLInfo :: "HeightVoteSet \<Rightarrow> int \<times> ProposedData" where
  "POLInfo hvs = pol_loop hvs (hvs_round hvs)"


section \<open>Looking up vote sets\<close>

definition hvs_lookup :: "HeightVoteSet \<Rightarrow> int \<Rightarrow> VoteType \<Rightarrow> VoteSet option" where
  "hvs_lookup hvs r t = (case getVoteSet r t hvs of Inl _ \<Rightarrow> None | Inr p \<Rightarrow> p)"

lemma Prevotes_lookup: "Prevotes r hvs = hvs_lookup hvs r PrevoteType"
  by (simp add: Prevotes_def hvs_lookup_def getVoteSet_def split: option.split)

lemma Precommits_lookup: "Precommits r hvs = hvs_lookup hvs r PrecommitType"
  by (simp add: Precommits_def hvs_lookup_def getVoteSet_def split: option.split)

lemma hvs_lookup_eq:
  "hvs_lookup hvs r t =
     (case hvs_roundVoteSets hvs r of None \<Rightarrow> None
      | Some rvs \<Rightarrow> if t = PrevoteType then Some (rvs_Prevotes rvs)
                   else if t = PrecommitType then Some (rvs_Precommits rvs) else None)"
  by (simp add: hvs_lookup_def getVoteSet_def split: option.split)

definition hvs_has :: "HeightVoteSet \<Rightarrow> int \<Rightarrow> bool" where
  "hvs_has hvs r \<longleftrightarrow> hvs_roundVoteSets hvs r \<noteq> None"

text \<open>The vote set of round \<open>r\<close> and type \<open>t\<close> before any vote of it arrives.\<close>

definition fresh_set :: "HeightVoteSet \<Rightarrow> int \<Rightarrow> VoteType \<Rightarrow> VoteSet" where
  "fresh_set hvs r t = projr (NewVoteSet (hvs_height hvs) r t (hvs_base hvs))"

lemma NewVoteSet_fresh:
  "hvs_height hvs \<noteq> 0 \<Longrightarrow> NewVoteSet (hvs_height hvs) r t (hvs_base hvs) = Inr (fresh_set hvs r t)"
  by (simp add: fresh_set_def NewVoteSet_def)

lemma fresh_set_simps [simp]:
  assumes "hvs_height hvs \<noteq> 0"
  shows "vs_height (fresh_set hvs r t) = hvs_height hvs" "vs_round (fresh_set hvs r t) = r"
    "vs_type (fresh_set hvs r t) = t" "vs_base (fresh_set hvs r t) = hvs_base hvs"
    "vs_sum (fresh_set hvs r t) = 0" "vs_maj23 (fresh_set hvs r t) = NilData"
    "vs_votesByProposedData (fresh_set hvs r t) = []"
  using assms by (simp_all add: fresh_set_def NewVoteSet_def)

lemma hvs_addRound_eq:
  assumes "hvs_height hvs \<noteq> 0" and "\<not> hvs_has hvs r"
  shows "hvs_addRound r hvs = Inr (hvs\<lparr>hvs_roundVoteSets := (hvs_roundVoteSets hvs)
     (r \<mapsto> \<lparr>rvs_Prevotes = fresh_set hvs r PrevoteType, rvs_Precommits = fresh_set hvs r PrecommitType\<rparr>)\<rparr>)"
  using assms by (simp add: hvs_addRound_def hvs_has_def NewVoteSet_fresh)

text \<open>The set a vote goes to: the tracked one, or a fresh one for a round not tracked yet.\<close>

definition target_set :: "HeightVoteSet \<Rightarrow> int \<Rightarrow> VoteType \<Rightarrow> VoteSet" where
  "target_set hvs r t = (case hvs_lookup hvs r t of Some vs \<Rightarrow> vs | None \<Rightarrow> fresh_set hvs r t)"

lemma fresh_set_cong [simp]:
  "fresh_set (hvs\<lparr>hvs_roundVoteSets := m\<rparr>) r t = fresh_set hvs r t"
  "fresh_set (hvs\<lparr>hvs_round := x\<rparr>) r t = fresh_set hvs r t"
  by (simp_all add: fresh_set_def)


section \<open>The contract of a vote store\<close>

text \<open>
  What the consensus core relies on: adding a vote touches the set of its own round and type
  only, tracking further rounds touches none, and both keep the invariant. Consequences proved
  here once: a majority seen in any set survives both operations.
\<close>

locale vote_store =
  fixes inv :: "'h \<Rightarrow> bool"
    and lookup :: "'h \<Rightarrow> int \<Rightarrow> VoteType \<Rightarrow> VoteSet option"
    and add :: "ICommittee \<Rightarrow> Vote \<Rightarrow> 'h \<Rightarrow> (bool \<times> verror option \<times> 'h) outcome"
    and track :: "int \<Rightarrow> 'h \<Rightarrow> 'h outcome"
  assumes add_lookup_other: "\<And>V v h a e h' r t vs. inv h \<Longrightarrow> add V v h = Inr (a, e, h') \<Longrightarrow>
      (r, t) \<noteq> (v_Round v, v_Type v) \<Longrightarrow> lookup h r t = Some vs \<Longrightarrow> lookup h' r t = Some vs"
    and add_lookup_same: "\<And>V v h a e h' vs. inv h \<Longrightarrow> add V v h = Inr (a, e, h') \<Longrightarrow>
      lookup h (v_Round v) (v_Type v) = Some vs \<Longrightarrow>
      lookup h' (v_Round v) (v_Type v) = Some vs \<or> lookup h' (v_Round v) (v_Type v) = Some (vs_add V v vs)"
    and add_inv: "\<And>V v h a e h'. inv h \<Longrightarrow> add V v h = Inr (a, e, h') \<Longrightarrow> inv h'"
    and track_lookup: "\<And>h n h' r t vs. inv h \<Longrightarrow> track n h = Inr h' \<Longrightarrow>
      lookup h r t = Some vs \<Longrightarrow> lookup h' r t = Some vs"
    and track_inv: "\<And>h n h'. inv h \<Longrightarrow> track n h = Inr h' \<Longrightarrow> inv h'"
begin

lemma add_majority:
  assumes "inv h" and "add V v h = Inr (a, e, h')"
    and "TwoThirdsMajority (lookup h r t) = (d, True)"
  shows "TwoThirdsMajority (lookup h' r t) = (d, True)"
proof -
  obtain vs where vs: "lookup h r t = Some vs" and d: "d = vs_maj23 vs" "d \<noteq> NilData"
    using assms(3) by (cases "lookup h r t") (auto simp: TwoThirdsMajority_def split: if_splits)
  have "\<exists>vs'. lookup h' r t = Some vs' \<and> vs_maj23 vs' = vs_maj23 vs"
  proof (cases "(r, t) = (v_Round v, v_Type v)")
    case True
    with add_lookup_same [OF assms(1,2)] vs d show ?thesis by (auto simp: vs_add_maj23)
  next
    case False
    with add_lookup_other [OF assms(1,2) _ vs] show ?thesis by auto
  qed
  with d show ?thesis by (auto simp: TwoThirdsMajority_def)
qed

lemma track_majority:
  assumes "inv h" and "track n h = Inr h'" and "TwoThirdsMajority (lookup h r t) = (d, True)"
  shows "TwoThirdsMajority (lookup h' r t) = (d, True)"
proof -
  obtain vs where vs: "lookup h r t = Some vs"
    using assms(3) by (cases "lookup h r t") (auto simp: TwoThirdsMajority_def)
  with track_lookup [OF assms(1,2) vs] assms(3) show ?thesis by simp
qed

end

end
