(* ===== verification/Fixture.thy ===== *)
theory Fixture
  imports Vote_Set_Facts
begin

text \<open>
  A concrete committee for the examples that instantiate the theorems: four validators of
  voting power one whose signature scheme accepts everything, as in the repository's own tests.
\<close>

definition fx_keys :: "PubKey list" where
  "fx_keys = [''a'', ''b'', ''c'', ''d'']"

definition fx_val :: IPubValidator where
  "fx_val = \<lparr>VerifySig = (\<lambda>_ _. True), VotingPower = 1\<rparr>"

definition fx_priv :: IPrivValidator where
  "fx_priv = \<lparr>PrivPubKey = ''a'', PrivSign = (\<lambda>_. [1])\<rparr>"

definition fx_data :: ProposedData where "fx_data = 7"

definition fx_app :: "int \<Rightarrow> AppState" where
  "fx_app h = \<lparr>LastHeight = h, LastProposedData = 5, LastCommitTime = 0, AppHash = []\<rparr>"

definition fx_committee :: ICommittee where
  "fx_committee =
     \<lparr>GetValidator = (\<lambda>k. if k \<in> set fx_keys then Some fx_val else None),
      IsValidator = (\<lambda>k. k \<in> set fx_keys), TotalVotingPower = 4, ValidatorNum = 4,
      GetCurrentProposer = (\<lambda>r. ''b''), DecidesProposal = fx_data,
      ValidateProposal = (\<lambda>_. True), GetAppState = Some (fx_app 0),
      GetCommitHistory = (\<lambda>_. None)\<rparr>"

definition fx_vote :: "VoteType \<Rightarrow> int \<Rightarrow> int \<Rightarrow> ProposedData \<Rightarrow> PubKey \<Rightarrow> Vote" where
  "fx_vote t h r d k =
     \<lparr>v_Type = t, v_Height = h, v_Round = r, v_Timestamp = 0, v_Proposed = d, v_Prev = 5,
      v_Address = k, v_Signature = [1]\<rparr>"

lemma fx_vote_simps [simp]:
  "v_Type (fx_vote t h r d k) = t" "v_Height (fx_vote t h r d k) = h" "v_Round (fx_vote t h r d k) = r"
  "v_Proposed (fx_vote t h r d k) = d" "v_Prev (fx_vote t h r d k) = 5" "v_Address (fx_vote t h r d k) = k"
  "v_Signature (fx_vote t h r d k) = [1]"
  by (simp_all add: fx_vote_def)

lemma fx_power: "GetVotingPower fx_committee k = (if k \<in> set fx_keys then 1 else 0)"
  by (simp add: GetVotingPower_def fx_committee_def fx_val_def)

lemma fx_verify: "VerifyVote fx_committee v = (v_Address v \<in> set fx_keys)"
  by (simp add: VerifyVote_eq fx_committee_def fx_val_def)

lemma fx_total: "TotalVotingPower fx_committee = 4"
  by (simp add: fx_committee_def)

lemma fx_total_ok: "total_ok fx_committee"
  by (simp add: total_ok_def fx_total)

lemma fx_quorum: "quorum_of fx_committee = 3" "two_thirds fx_committee = 2"
  by (simp_all add: quorum_ok(1) [OF fx_total_ok] two_thirds_ok [OF fx_total_ok] fx_total)

lemma fx_powers_within: "powers_within fx_committee 1"
  by (simp add: powers_within_def fx_power)

lemma fx_committee_total: "committee_total fx_committee fx_keys"
  by (simp add: committee_total_def tally_def fx_power fx_total) (simp add: fx_committee_def fx_keys_def)

lemma fx_key_pair: "key_pair fx_committee fx_priv"
  by (simp add: key_pair_def fx_committee_def fx_priv_def fx_val_def fx_keys_def)

text \<open>Three of the four validators prevote for the same data in round 0 of height 1.\<close>

definition fx_set :: "VoteType \<Rightarrow> VoteSet" where
  "fx_set t = projr (NewVoteSet 1 0 t 5)"

definition fx_votes3 :: "VoteType \<Rightarrow> Vote option list" where
  "fx_votes3 t = map (\<lambda>k. Some (fx_vote t 1 0 fx_data k)) [''a'', ''b'', ''c'']"

definition fx_set3 :: "VoteType \<Rightarrow> VoteSet" where
  "fx_set3 t =
     \<lparr>vs_height = 1, vs_round = 0, vs_type = t, vs_base = 5, vs_sum = 3, vs_distinctVoter = 3,
      vs_minorQuorum = fx_data, vs_maj23 = fx_data,
      vs_votesByProposedData =
        [(fx_data, \<lparr>pdv_votes = map (\<lambda>k. (k, fx_vote t 1 0 fx_data k)) [''a'', ''b'', ''c''], pdv_sum = 3\<rparr>)],
      vs_conflictingVotes = Map.empty\<rparr>"

lemmas fx_eval = fx_verify fx_power fx_quorum fx_keys_def fx_data_def NilData_def
  vs_addVote_def getVote_def pdv_getVote_def addVerifiedVote_def pdv_addVote_def
  newProposedDataVotes_def is_int64_def

lemma fx_new: "NewVoteSet 1 0 t 5 = Inr (fx_set t)"
  by (simp add: fx_set_def NewVoteSet_def)

lemma fx_run3: "run_steps (vs_step fx_committee) (fx_votes3 t) (fx_set t) = Inr (fx_set3 t)"
  by (simp add: fx_votes3_def fx_set_def fx_set3_def NewVoteSet_def vs_step_def fx_eval)

lemma fx_collected3: "collected fx_committee 1 (fx_votes3 t) (fx_set3 t)"
  using fx_new [of t] fx_run3 [of t] fx_powers_within
  by (fastforce simp: collected_def fx_votes3_def)

lemma fx_majority3: "TwoThirdsMajority (Some (fx_set3 t)) = (fx_data, True)"
  by (simp add: TwoThirdsMajority_def fx_set3_def fx_data_def NilData_def)

end
