(* ===== verification/Height_Vote_Set_Facts.thy ===== *)
theory Height_Vote_Set_Facts
  imports Height_Vote_Set Fixture
begin

text \<open>
  Correctness of the height vote set: what adding a vote and tracking further rounds change,
  the well-formedness invariant, the interpretation of the vote store contract, and that
  \<^verbatim>\<open>POLInfo\<close> returns the last tracked round with a +2/3 majority of prevotes.
\<close>

section \<open>Well-formedness\<close>

definition hvs_shape :: "HeightVoteSet \<Rightarrow> bool" where
  "hvs_shape hvs \<longleftrightarrow>
     hvs_height hvs \<noteq> 0 \<and>
     (\<forall>r t vs. hvs_lookup hvs r t = Some vs \<longrightarrow>
        vs_wf vs \<and> vs_height vs = hvs_height hvs \<and> vs_round vs = r \<and> vs_type vs = t \<and>
        vs_base vs = hvs_base hvs)"

text \<open>Every round from 0 to the tracked round has its two vote sets.\<close>

definition hvs_tracks :: "HeightVoteSet \<Rightarrow> bool" where
  "hvs_tracks hvs \<longleftrightarrow>
     0 \<le> hvs_round hvs \<and> (\<forall>r. 0 \<le> r \<and> r \<le> hvs_round hvs \<longrightarrow> hvs_has hvs r) \<and>
     (\<forall>r. hvs_has hvs r \<longrightarrow> 0 \<le> r)"

definition hvs_wf :: "HeightVoteSet \<Rightarrow> bool" where
  "hvs_wf hvs \<longleftrightarrow> hvs_shape hvs \<and> hvs_tracks hvs"

lemma hvs_has_lookup:
  "t = PrevoteType \<or> t = PrecommitType \<Longrightarrow> hvs_has hvs r \<longleftrightarrow> hvs_lookup hvs r t \<noteq> None"
  by (auto simp: hvs_has_def hvs_lookup_eq split: option.split)

lemma hvs_lookup_type: "hvs_lookup hvs r t = Some vs \<Longrightarrow> t = PrevoteType \<or> t = PrecommitType"
  by (auto simp: hvs_lookup_eq split: option.splits if_splits)

lemma vs_wf_fresh: "hvs_height hvs \<noteq> 0 \<Longrightarrow> vs_wf (fresh_set hvs r t)"
  by (rule vs_wf_new [OF NewVoteSet_fresh])

lemma hvs_shapeD:
  assumes "hvs_shape hvs" and "hvs_lookup hvs r t = Some vs"
  shows "vs_wf vs" "vs_height vs = hvs_height hvs" "vs_round vs = r" "vs_type vs = t" "vs_base vs = hvs_base hvs"
  using assms unfolding hvs_shape_def by blast+

lemma hvs_shapeI:
  assumes "hvs_height hvs \<noteq> 0"
    and "\<And>r t vs. hvs_lookup hvs r t = Some vs \<Longrightarrow>
      vs_wf vs \<and> vs_height vs = hvs_height hvs \<and> vs_round vs = r \<and> vs_type vs = t \<and> vs_base vs = hvs_base hvs"
  shows "hvs_shape hvs"
  using assms unfolding hvs_shape_def by blast

lemma target_set_shape:
  assumes "hvs_shape hvs"
  shows "vs_wf (target_set hvs r t) \<and> vs_height (target_set hvs r t) = hvs_height hvs \<and>
    vs_round (target_set hvs r t) = r \<and> vs_type (target_set hvs r t) = t \<and> vs_base (target_set hvs r t) = hvs_base hvs"
proof (cases "hvs_lookup hvs r t")
  case None
  have "hvs_height hvs \<noteq> 0" using assms by (simp add: hvs_shape_def)
  with None show ?thesis by (simp add: target_set_def vs_wf_fresh)
next
  case (Some vs)
  with hvs_shapeD [OF assms Some] show ?thesis by (simp add: target_set_def)
qed


section \<open>Adding a vote\<close>

lemma hvs_put_fields [simp]:
  "hvs_height (hvs_put r t vs hvs) = hvs_height hvs" "hvs_base (hvs_put r t vs hvs) = hvs_base hvs"
  "hvs_round (hvs_put r t vs hvs) = hvs_round hvs" "hvs_has (hvs_put r t vs hvs) r' = hvs_has hvs r'"
  by (auto simp: hvs_put_def hvs_has_def split: option.split)

lemma hvs_lookup_put:
  assumes "hvs_has hvs r" and "t = PrevoteType \<or> t = PrecommitType"
  shows "hvs_lookup (hvs_put r t vs hvs) r' t' =
    (if r' = r \<and> t' = t then Some vs else hvs_lookup hvs r' t')"
  using assms by (auto simp: hvs_put_def hvs_lookup_eq hvs_has_def split: option.split)

text \<open>The height vote set with round \<open>r\<close> present.\<close>

definition hvs_with :: "int \<Rightarrow> HeightVoteSet \<Rightarrow> HeightVoteSet" where
  "hvs_with r hvs = (if hvs_has hvs r then hvs else projr (hvs_addRound r hvs))"

lemma hvs_with_simps:
  assumes "hvs_height hvs \<noteq> 0"
  shows "hvs_height (hvs_with r hvs) = hvs_height hvs" "hvs_base (hvs_with r hvs) = hvs_base hvs"
    "hvs_round (hvs_with r hvs) = hvs_round hvs" "hvs_has (hvs_with r hvs) r' \<longleftrightarrow> hvs_has hvs r' \<or> r' = r"
    "fresh_set (hvs_with r hvs) r' t = fresh_set hvs r' t"
  using assms by (auto simp: hvs_with_def hvs_addRound_eq) (auto simp: hvs_has_def split: if_splits)

lemma hvs_lookup_with:
  assumes "hvs_height hvs \<noteq> 0"
  shows "hvs_lookup (hvs_with r hvs) r' t =
    (if r' = r \<and> \<not> hvs_has hvs r \<and> (t = PrevoteType \<or> t = PrecommitType) then Some (fresh_set hvs r t)
     else hvs_lookup hvs r' t)"
  using assms by (auto simp: hvs_with_def hvs_addRound_eq hvs_lookup_eq hvs_has_def split: option.split)

lemma target_set_with:
  assumes "hvs_height hvs \<noteq> 0" and "t = PrevoteType \<or> t = PrecommitType"
  shows "hvs_lookup (hvs_with r hvs) r t = Some (target_set hvs r t)"
proof (cases "hvs_has hvs r")
  case True
  then obtain vs where "hvs_lookup hvs r t = Some vs"
    using hvs_has_lookup [OF assms(2)] by blast
  with True assms show ?thesis by (simp add: hvs_lookup_with target_set_def)
next
  case False
  then have "hvs_lookup hvs r t = None"
    using hvs_has_lookup [OF assms(2)] by blast
  with False assms show ?thesis by (simp add: hvs_lookup_with target_set_def)
qed

lemma getVoteSet_lookup:
  "t = PrevoteType \<or> t = PrecommitType \<Longrightarrow> getVoteSet r t hvs = Inr (hvs_lookup hvs r t)"
  by (auto simp: getVoteSet_def hvs_lookup_eq split: option.split)

lemma hvs_AddVote_eq:
  assumes "hvs_height hvs \<noteq> 0" and t: "v_Type v = PrevoteType \<or> v_Type v = PrecommitType"
  shows "hvs_AddVote V v hvs =
    and_then (vs_addVote V (Some v) (target_set hvs (v_Round v) (v_Type v))) (\<lambda>(added, err, vs').
      Inr (added, err, hvs_put (v_Round v) (v_Type v) vs' (hvs_with (v_Round v) hvs)))"
proof (cases "hvs_has hvs (v_Round v)")
  case True
  then obtain vs where vs: "hvs_lookup hvs (v_Round v) (v_Type v) = Some vs"
    using hvs_has_lookup [OF t] by blast
  with True t show ?thesis
    by (auto simp: hvs_AddVote_def IsVoteTypeValid_def getVoteSet_lookup AddVote_def target_set_def hvs_with_def)
next
  case False
  have none: "hvs_lookup hvs (v_Round v) (v_Type v) = None"
    using hvs_has_lookup [OF t] False by blast
  have add: "hvs_addRound (v_Round v) hvs = Inr (hvs_with (v_Round v) hvs)"
    using False assms(1) by (simp add: hvs_with_def hvs_addRound_eq)
  have "IsVoteTypeValid (v_Type v)" using t by (auto simp: IsVoteTypeValid_def)
  then show ?thesis
    by (simp add: hvs_AddVote_def none add getVoteSet_lookup [OF t] target_set_with [OF assms] AddVote_def)
qed

lemma hvs_AddVote_Inr:
  assumes "hvs_AddVote V v hvs = Inr (added, err, hvs')" and h: "hvs_height hvs \<noteq> 0"
  obtains (invalid) "hvs' = hvs" "added = False" "err = Some ErrInvalidVoteType" "\<not> IsVoteTypeValid (v_Type v)"
  | (valid) vs' where "v_Type v = PrevoteType \<or> v_Type v = PrecommitType"
      "vs_addVote V (Some v) (target_set hvs (v_Round v) (v_Type v)) = Inr (added, err, vs')"
      "hvs' = hvs_put (v_Round v) (v_Type v) vs' (hvs_with (v_Round v) hvs)"
proof (cases "v_Type v = PrevoteType \<or> v_Type v = PrecommitType")
  case True
  with assms(1) valid [OF True] show thesis
    by (auto simp: hvs_AddVote_eq [OF h True] elim!: and_then_InrE)
next
  case False
  show thesis
  proof (cases "IsVoteTypeValid (v_Type v)")
    case False
    with assms(1) invalid show thesis by (simp add: hvs_AddVote_def)
  next
    case True
    with False have t: "v_Type v = ProposalType" by (auto simp: IsVoteTypeValid_def)
    have "\<exists>p. hvs_AddVote V v hvs = Inl p"
    proof (cases "hvs_has hvs (v_Round v)")
      case True
      with t show ?thesis
        by (auto simp: hvs_AddVote_def IsVoteTypeValid_def getVoteSet_def hvs_has_def)
    next
      case False
      then have "hvs_roundVoteSets hvs (v_Round v) = None" by (simp add: hvs_has_def)
      with t False h show ?thesis
        by (simp add: hvs_AddVote_def IsVoteTypeValid_def getVoteSet_def hvs_addRound_eq)
    qed
    with assms(1) show thesis by simp
  qed
qed

lemma hvs_lookup_put_with:
  assumes "hvs_height hvs \<noteq> 0" and "t = PrevoteType \<or> t = PrecommitType"
  shows "hvs_lookup (hvs_put r t vs' (hvs_with r hvs)) r' t' =
    (if r' = r \<and> t' = t then Some vs' else hvs_lookup (hvs_with r hvs) r' t')"
  using assms by (simp add: hvs_lookup_put hvs_with_simps)

text \<open>The result of an addition: its own set changes as the vote set does, others stay.\<close>

lemma vs_addVote_result:
  assumes "vs_addVote V (Some v) vs = Inr (added, err, vs')"
  shows "vs' = (if added then vs_add V v vs else vs)" and "added \<longleftrightarrow> accepts V vs v" and "added \<longleftrightarrow> err = None"
  using assms by (auto simp: vs_addVote_Some split: if_splits)

lemma hvs_shape_with: "hvs_shape hvs \<Longrightarrow> hvs_shape (hvs_with r hvs)"
proof -
  assume s: "hvs_shape hvs"
  then have h: "hvs_height hvs \<noteq> 0" by (simp add: hvs_shape_def)
  show ?thesis
  proof (rule hvs_shapeI)
    fix r' t vs assume l: "hvs_lookup (hvs_with r hvs) r' t = Some vs"
    show "vs_wf vs \<and> vs_height vs = hvs_height (hvs_with r hvs) \<and> vs_round vs = r' \<and> vs_type vs = t \<and>
        vs_base vs = hvs_base (hvs_with r hvs)"
    proof (cases "r' = r \<and> \<not> hvs_has hvs r \<and> (t = PrevoteType \<or> t = PrecommitType)")
      case True
      with l have "vs = fresh_set hvs r t" by (simp add: hvs_lookup_with [OF h])
      with True h show ?thesis by (simp add: hvs_with_simps [OF h] vs_wf_fresh)
    next
      case False
      with l have "hvs_lookup hvs r' t = Some vs" by (auto simp: hvs_lookup_with [OF h] split: if_splits)
      with s show ?thesis unfolding hvs_with_simps [OF h] hvs_shape_def by blast
    qed
  qed (simp add: hvs_with_simps h)
qed

lemma hvs_shape_AddVote:
  assumes s: "hvs_shape hvs" and add: "hvs_AddVote V v hvs = Inr (added, err, hvs')"
  shows "hvs_shape hvs'"
proof -
  have h: "hvs_height hvs \<noteq> 0" using s by (simp add: hvs_shape_def)
  from add h show ?thesis
  proof (cases rule: hvs_AddVote_Inr)
    case invalid
    with s show ?thesis by simp
  next
    case (valid vs')
    let ?vs = "target_set hvs (v_Round v) (v_Type v)"
    have t: "vs_wf ?vs" "vs_height ?vs = hvs_height hvs" "vs_round ?vs = v_Round v"
      "vs_type ?vs = v_Type v" "vs_base ?vs = hvs_base hvs"
      using target_set_shape [OF s] by blast+
    have vs': "vs' = (if added then vs_add V v ?vs else ?vs)" and acc: "added \<longleftrightarrow> accepts V ?vs v"
      using vs_addVote_result [OF valid(2)] by blast+
    have "vs_wf vs' \<and> vs_height vs' = hvs_height hvs \<and> vs_round vs' = v_Round v \<and>
        vs_type vs' = v_Type v \<and> vs_base vs' = hvs_base hvs"
      using t acc by (simp add: vs' vs_wf_add)
    moreover have "hvs_shape (hvs_with (v_Round v) hvs)" by (rule hvs_shape_with [OF s])
    ultimately show ?thesis
      unfolding valid(3) hvs_shape_def hvs_lookup_put_with [OF h valid(1)]
      by (auto simp: hvs_with_simps [OF h] split: if_splits)
  qed
qed


section \<open>Tracking further rounds\<close>

text \<open>\<open>extends_to r n hvs hvs'\<close>: the rounds from \<open>r\<close> to \<open>n\<close> have been added where missing.\<close>

definition extends_to :: "int \<Rightarrow> int \<Rightarrow> HeightVoteSet \<Rightarrow> HeightVoteSet \<Rightarrow> bool" where
  "extends_to r n hvs hvs' \<longleftrightarrow>
     hvs_height hvs' = hvs_height hvs \<and> hvs_base hvs' = hvs_base hvs \<and>
     (\<forall>x. hvs_has hvs' x \<longleftrightarrow> hvs_has hvs x \<or> r \<le> x \<and> x \<le> n) \<and>
     (\<forall>x t. hvs_lookup hvs' x t =
        (if \<not> hvs_has hvs x \<and> r \<le> x \<and> x \<le> n \<and> (t = PrevoteType \<or> t = PrecommitType)
         then Some (fresh_set hvs x t) else hvs_lookup hvs x t))"

lemma extends_to_lookup:
  assumes "extends_to r n hvs hvs'" and "hvs_lookup hvs x t = Some vs"
  shows "hvs_lookup hvs' x t = Some vs"
proof -
  have "hvs_has hvs x" using assms(2) by (auto simp: hvs_has_def hvs_lookup_eq split: option.splits)
  with assms show ?thesis by (simp add: extends_to_def)
qed

lemma set_round_loop_step:
  assumes "hvs_height hvs \<noteq> 0" and "r \<le> n"
  shows "set_round_loop r n hvs = set_round_loop (r + 1) n (hvs_with r hvs)"
proof (cases "hvs_has hvs r")
  case True
  with assms show ?thesis by (subst set_round_loop.simps) (auto simp: hvs_with_def hvs_has_def)
next
  case False
  then have "hvs_roundVoteSets hvs r = None" by (simp add: hvs_has_def)
  with assms False show ?thesis
    by (subst set_round_loop.simps) (simp add: hvs_with_def hvs_addRound_eq)
qed

lemma set_round_loop_spec:
  "hvs_height hvs \<noteq> 0 \<Longrightarrow>
    \<exists>hvs'. set_round_loop r n hvs = Inr hvs' \<and> hvs_round hvs' = hvs_round hvs \<and> extends_to r n hvs hvs'"
proof (induction "nat (n - r + 1)" arbitrary: r hvs)
  case 0
  then have "n < r" by simp
  then show ?case by (subst set_round_loop.simps) (auto simp: extends_to_def)
next
  case (Suc k)
  then have le: "r \<le> n" and k: "k = nat (n - (r + 1) + 1)" by simp_all
  note with_simps = hvs_with_simps [OF Suc.prems] hvs_lookup_with [OF Suc.prems]
  obtain hvs' where "set_round_loop (r + 1) n (hvs_with r hvs) = Inr hvs'"
    and "hvs_round hvs' = hvs_round hvs" and ext: "extends_to (r + 1) n (hvs_with r hvs) hvs'"
    using Suc.hyps(1) [OF k, of "hvs_with r hvs"] Suc.prems by (auto simp: with_simps)
  moreover have "extends_to r n hvs hvs'"
    using ext le unfolding extends_to_def with_simps by auto
  ultimately show ?case
    by (simp add: set_round_loop_step [OF Suc.prems le])
qed

lemma SetRound_spec:
  assumes "hvs_height hvs \<noteq> 0" and "is_int64 (hvs_round hvs + 1)" and "n < max_int64"
    and "hvs_round hvs = 0 \<or> hvs_round hvs < n"
  shows "\<exists>hvs'. SetRound n hvs = Inr hvs' \<and> hvs_round hvs' = n \<and> extends_to (hvs_round hvs + 1) n hvs hvs'"
proof -
  obtain hvs' where "set_round_loop (hvs_round hvs + 1) n hvs = Inr hvs'"
    and "extends_to (hvs_round hvs + 1) n hvs hvs'"
    using set_round_loop_spec [OF assms(1)] by blast
  moreover from this have "extends_to (hvs_round hvs + 1) n hvs (hvs'\<lparr>hvs_round := n\<rparr>)"
    by (simp add: extends_to_def hvs_has_def hvs_lookup_eq)
  ultimately show ?thesis using assms by (auto simp: SetRound_def)
qed

lemma SetRound_Inr:
  assumes "SetRound n hvs = Inr hvs'" and "hvs_height hvs \<noteq> 0"
  shows "hvs_round hvs' = n" and "extends_to (wrap64 (hvs_round hvs + 1)) n hvs hvs'"
proof -
  obtain h1 where "set_round_loop (wrap64 (hvs_round hvs + 1)) n hvs = Inr h1"
    and "hvs' = h1\<lparr>hvs_round := n\<rparr>"
    using assms by (auto simp: SetRound_def elim!: and_then_InrE split: if_splits)
  moreover from this have "extends_to (wrap64 (hvs_round hvs + 1)) n hvs h1"
    using set_round_loop_spec [OF assms(2), of "wrap64 (hvs_round hvs + 1)" n] by auto
  ultimately show "hvs_round hvs' = n" and "extends_to (wrap64 (hvs_round hvs + 1)) n hvs hvs'"
    by (simp_all add: extends_to_def hvs_has_def hvs_lookup_eq)
qed

lemma hvs_shape_extends:
  assumes "hvs_shape hvs" and "extends_to r n hvs hvs'"
  shows "hvs_shape hvs'"
proof (rule hvs_shapeI)
  have h: "hvs_height hvs \<noteq> 0" using assms(1) by (simp add: hvs_shape_def)
  then show "hvs_height hvs' \<noteq> 0" using assms(2) by (simp add: extends_to_def)
  fix x t vs assume l: "hvs_lookup hvs' x t = Some vs"
  have e: "hvs_height hvs' = hvs_height hvs" "hvs_base hvs' = hvs_base hvs"
    using assms(2) by (simp_all add: extends_to_def)
  let ?new = "\<not> hvs_has hvs x \<and> r \<le> x \<and> x \<le> n \<and> (t = PrevoteType \<or> t = PrecommitType)"
  have lk: "hvs_lookup hvs' x t = (if ?new then Some (fresh_set hvs x t) else hvs_lookup hvs x t)"
    using assms(2) unfolding extends_to_def by blast
  show "vs_wf vs \<and> vs_height vs = hvs_height hvs' \<and> vs_round vs = x \<and> vs_type vs = t \<and> vs_base vs = hvs_base hvs'"
  proof (cases ?new)
    case True
    then have "vs = fresh_set hvs x t" using l unfolding lk if_P [OF True] by simp
    with h e show ?thesis by (simp add: vs_wf_fresh)
  next
    case False
    have "hvs_lookup hvs x t = Some vs" using l unfolding lk if_not_P [OF False] .
    from hvs_shapeD [OF assms(1) this] e show ?thesis by simp
  qed
qed

interpretation hvs_store: vote_store hvs_shape hvs_lookup hvs_AddVote SetRound
proof unfold_locales
  fix V v h a e h' assume inv: "hvs_shape h" and add: "hvs_AddVote V v h = Inr (a, e, h')"
  have h: "hvs_height h \<noteq> 0" using inv by (simp add: hvs_shape_def)
  show "hvs_shape h'" using inv add by (rule hvs_shape_AddVote)
  show "hvs_lookup h' r t = Some vs"
    if "(r, t) \<noteq> (v_Round v, v_Type v)" and l: "hvs_lookup h r t = Some vs" for r t vs
    using add h
  proof (cases rule: hvs_AddVote_Inr)
    case invalid
    with l show ?thesis by simp
  next
    case (valid vs')
    have "hvs_has h r" using l by (auto simp: hvs_has_def hvs_lookup_eq split: option.splits)
    with that valid show ?thesis by (auto simp: hvs_lookup_put_with [OF h] hvs_lookup_with [OF h])
  qed
  show "hvs_lookup h' (v_Round v) (v_Type v) = Some vs \<or>
      hvs_lookup h' (v_Round v) (v_Type v) = Some (vs_add V v vs)"
    if l: "hvs_lookup h (v_Round v) (v_Type v) = Some vs" for vs
    using add h
  proof (cases rule: hvs_AddVote_Inr)
    case invalid
    with l show ?thesis by simp
  next
    case (valid vs')
    with l vs_addVote_result [OF valid(2)] show ?thesis
      by (auto simp: hvs_lookup_put_with [OF h] target_set_def split: if_splits)
  qed
next
  fix h n h' assume "hvs_shape h" and "SetRound n h = Inr h'"
  moreover from this have ext: "extends_to (wrap64 (hvs_round h + 1)) n h h'"
    by (intro SetRound_Inr(2)) (simp_all add: hvs_shape_def)
  ultimately show "hvs_shape h'" using hvs_shape_extends by blast
  show "hvs_lookup h' r t = Some vs" if "hvs_lookup h r t = Some vs" for r t vs
    using ext that by (rule extends_to_lookup)
qed


section \<open>Fresh height vote sets\<close>

lemma NewHeightVoteSet_spec:
  assumes "height \<noteq> 0"
  obtains hvs where "NewHeightVoteSet height b = Inr hvs" and "hvs_height hvs = height"
    and "hvs_base hvs = b" and "hvs_round hvs = 0" and "hvs_wf hvs"
    and "\<And>r. hvs_has hvs r \<longleftrightarrow> r = 0"
    and "\<And>r t vs. hvs_lookup hvs r t = Some vs \<Longrightarrow> vs = fresh_set hvs r t"
proof -
  define h0 where "h0 = \<lparr>hvs_height = height, hvs_base = b, hvs_round = 0, hvs_roundVoteSets = Map.empty\<rparr>"
  have h: "hvs_height h0 \<noteq> 0" and n: "\<not> hvs_has h0 r" for r
    using assms by (simp_all add: h0_def hvs_has_def)
  let ?h = "hvs_with 0 h0"
  have eq: "NewHeightVoteSet height b = Inr (?h\<lparr>hvs_round := 0\<rparr>)"
    using assms by (simp add: NewHeightVoteSet_def hvs_Reset_def h0_def hvs_with_def hvs_addRound_eq hvs_has_def)
  have same: "?h\<lparr>hvs_round := 0\<rparr> = ?h"
    using hvs_with_simps(3) [OF h, of 0] by (simp add: h0_def)
  have look: "hvs_lookup ?h r t = Some vs \<Longrightarrow> r = 0 \<and> vs = fresh_set ?h r t" for r t vs
    using n by (auto simp: hvs_lookup_with [OF h] hvs_with_simps [OF h] split: if_splits)
       (auto simp: hvs_lookup_eq hvs_has_def split: option.splits)
  have "hvs_shape h0" using h by (intro hvs_shapeI) (auto simp: hvs_lookup_eq h0_def)
  then have "hvs_wf ?h"
    using n by (auto simp: hvs_wf_def hvs_shape_with hvs_tracks_def hvs_with_simps [OF h]) (simp_all add: h0_def)
  then show thesis
    using n look by (intro that [of ?h]) (auto simp: eq same hvs_with_simps [OF h], simp_all add: h0_def)
qed


section \<open>The last round with a polka\<close>

lemma pol_loop_spec:
  "pol_loop hvs r = (p, d) \<Longrightarrow>
    (p = -1 \<and> (\<forall>x. 0 \<le> x \<and> x \<le> r \<longrightarrow> \<not> HasTwoThirdsMajority (Prevotes x hvs))) \<or>
    (0 \<le> p \<and> p \<le> r \<and> TwoThirdsMajority (Prevotes p hvs) = (d, True) \<and>
      (\<forall>x. p < x \<and> x \<le> r \<longrightarrow> \<not> HasTwoThirdsMajority (Prevotes x hvs)))"
proof (induction hvs r rule: pol_loop.induct)
  case (1 hvs r)
  show ?case
  proof (cases "0 \<le> r")
    case False
    with 1 show ?thesis by (auto simp: pol_loop.simps [of hvs r])
  next
    case True
    obtain m ok where m: "TwoThirdsMajority (Prevotes r hvs) = (m, ok)" by fastforce
    have has: "HasTwoThirdsMajority (Prevotes r hvs) \<longleftrightarrow> ok"
      using m by (auto simp: vs_defs split: option.splits if_splits)
    show ?thesis
    proof (cases ok)
      case ok: True
      with 1 True m show ?thesis by (auto simp: pol_loop.simps [of hvs r])
    next
      case False
      then have "pol_loop hvs (r - 1) = (p, d)" using 1 True m by (simp add: pol_loop.simps [of hvs r])
      note IH = "1.IH" [OF True m [symmetric] False this]
      have "x \<le> r \<longleftrightarrow> x \<le> r - 1 \<or> x = r" for x by auto
      with IH has False show ?thesis by auto
    qed
  qed
qed

end
