(* ===== verification/Round_State.thy ===== *)
theory Round_State
  imports Height_Vote_Set_Facts
begin

text \<open>
  The state of the consensus state machine (\<^verbatim>\<open>src/state.go\<close>): the steps of a round, timeouts,
  the round state, and the position (height, round, step) with its lexicographic order; and the
  timeout configuration (\<^verbatim>\<open>src/config.go\<close>).
\<close>

section \<open>Steps\<close>

type_synonym RoundStepType = byte

definition RoundStepNewHeight :: RoundStepType where "RoundStepNewHeight = 0x01"

definition RoundStepNewRound :: RoundStepType where "RoundStepNewRound = 0x02"

definition RoundStepPropose :: RoundStepType where "RoundStepPropose = 0x03"

definition RoundStepPrevote :: RoundStepType where "RoundStepPrevote = 0x04"

definition RoundStepPrevoteFetch :: RoundStepType where "RoundStepPrevoteFetch = 0x05"

definition RoundStepPrevoteWait :: RoundStepType where "RoundStepPrevoteWait = 0x06"

definition RoundStepPrecommit :: RoundStepType where "RoundStepPrecommit = 0x07"

definition RoundStepPrecommitFetch :: RoundStepType where "RoundStepPrecommitFetch = 0x08"

definition RoundStepPrecommitWait :: RoundStepType where "RoundStepPrecommitWait = 0x09"

definition RoundStepCommit :: RoundStepType where "RoundStepCommit = 0x0a"

lemmas step_defs = RoundStepNewHeight_def RoundStepNewRound_def RoundStepPropose_def RoundStepPrevote_def
  RoundStepPrevoteFetch_def RoundStepPrevoteWait_def RoundStepPrecommit_def RoundStepPrecommitFetch_def
  RoundStepPrecommitWait_def RoundStepCommit_def

definition step_IsValid :: "RoundStepType \<Rightarrow> bool" where
  "step_IsValid rs \<longleftrightarrow> rs \<ge> 0x01 \<and> rs \<le> 0x0a"

definition step_String :: "RoundStepType \<Rightarrow> string" where
  "step_String rs =
     (if rs = RoundStepNewHeight then ''RoundStepNewHeight''
      else if rs = RoundStepNewRound then ''RoundStepNewRound''
      else if rs = RoundStepPropose then ''RoundStepPropose''
      else if rs = RoundStepPrevote then ''RoundStepPrevote''
      else if rs = RoundStepPrevoteFetch then ''RoundStepPrevoteFetch''
      else if rs = RoundStepPrevoteWait then ''RoundStepPrevoteWait''
      else if rs = RoundStepPrecommit then ''RoundStepPrecommit''
      else if rs = RoundStepPrecommitFetch then ''RoundStepPrecommitFetch''
      else if rs = RoundStepPrecommitWait then ''RoundStepPrecommitWait''
      else if rs = RoundStepCommit then ''RoundStepCommit''
      else ''RoundStepUnknown'')"


section \<open>Positions\<close>

datatype HRS = HRS (hrs_height: int) (hrs_round: int) (hrs_step: RoundStepType)

instantiation HRS :: linorder
begin

definition less_eq_HRS :: "HRS \<Rightarrow> HRS \<Rightarrow> bool" where
  "less_eq_HRS a b \<longleftrightarrow>
     hrs_height a < hrs_height b \<or>
     hrs_height a = hrs_height b \<and>
       (hrs_round a < hrs_round b \<or> hrs_round a = hrs_round b \<and> hrs_step a \<le> hrs_step b)"

definition less_HRS :: "HRS \<Rightarrow> HRS \<Rightarrow> bool" where
  "less_HRS a b \<longleftrightarrow>
     hrs_height a < hrs_height b \<or>
     hrs_height a = hrs_height b \<and>
       (hrs_round a < hrs_round b \<or> hrs_round a = hrs_round b \<and> hrs_step a < hrs_step b)"

instance
proof
  fix a b c :: HRS
  show "(a < b) = (a \<le> b \<and> \<not> b \<le> a)"
    by (auto simp: less_eq_HRS_def less_HRS_def)
  show "a \<le> a" by (simp add: less_eq_HRS_def)
  show "a \<le> b \<Longrightarrow> b \<le> c \<Longrightarrow> a \<le> c" by (auto simp: less_eq_HRS_def)
  show "a \<le> b \<Longrightarrow> b \<le> a \<Longrightarrow> a = b" by (cases a; cases b) (auto simp: less_eq_HRS_def)
  show "a \<le> b \<or> b \<le> a" by (auto simp: less_eq_HRS_def)
qed

end

lemma HRS_le: "HRS h r s \<le> HRS h' r' s' \<longleftrightarrow> h < h' \<or> h = h' \<and> (r < r' \<or> r = r' \<and> s \<le> s')"
  by (simp add: less_eq_HRS_def)

lemma HRS_less: "HRS h r s < HRS h' r' s' \<longleftrightarrow> h < h' \<or> h = h' \<and> (r < r' \<or> r = r' \<and> s < s')"
  by (simp add: less_HRS_def)


section \<open>Timeouts and the round state\<close>

record timeoutInfo =
  ti_Duration :: Duration
  ti_Height :: int
  ti_Round :: int
  ti_Step :: RoundStepType

definition ti_hrs :: "timeoutInfo \<Rightarrow> HRS" where
  "ti_hrs ti = HRS (ti_Height ti) (ti_Round ti) (ti_Step ti)"

record RoundState =
  Height :: int
  Round :: int
  Step :: RoundStepType
  StartTime :: Time
  CommitTime :: Time
  Proposal :: "Vote option"
  LockedRound :: int
  LockedProposal :: "Vote option"
  Votes :: "HeightVoteSet option"
  CommitRound :: int
  LastCommit :: "VoteSet option"
  lastCommittedData :: ProposedData

definition msgQueueSize :: nat where "msgQueueSize = 1000"


section \<open>Configuration\<close>

record Config =
  TimeoutPropose :: Duration
  TimeoutProposeDelta :: Duration
  TimeoutPrevote :: Duration
  TimeoutPrevoteDelta :: Duration
  TimeoutPrecommit :: Duration
  TimeoutPrecommitDelta :: Duration
  TimeoutCommit :: Duration
  SkipTimeoutCommit :: bool

definition Millisecond :: Duration where "Millisecond = 1000000"

definition FetchInterval :: Duration where "FetchInterval = 1000 * Millisecond"

definition watermark :: int where "watermark = 300"

definition DefaultConfig :: Config where
  "DefaultConfig =
     \<lparr>TimeoutPropose = 3000 * Millisecond, TimeoutProposeDelta = 500 * Millisecond,
      TimeoutPrevote = 1000 * Millisecond, TimeoutPrevoteDelta = 500 * Millisecond,
      TimeoutPrecommit = 1000 * Millisecond, TimeoutPrecommitDelta = 500 * Millisecond,
      TimeoutCommit = 1000 * Millisecond, SkipTimeoutCommit = False\<rparr>"

definition TestConfig :: Config where
  "TestConfig = DefaultConfig
     \<lparr>TimeoutPropose := 40 * Millisecond, TimeoutProposeDelta := 1 * Millisecond,
      TimeoutPrevote := 10 * Millisecond, TimeoutPrevoteDelta := 1 * Millisecond,
      TimeoutPrecommit := 10 * Millisecond, TimeoutPrecommitDelta := 1 * Millisecond,
      TimeoutCommit := 10 * Millisecond, SkipTimeoutCommit := True\<rparr>"

definition cfg_Propose :: "Config \<Rightarrow> int \<Rightarrow> Duration" where
  "cfg_Propose cfg round = wrap64 (TimeoutPropose cfg + wrap64 (TimeoutProposeDelta cfg * round))"

definition cfg_Prevote :: "Config \<Rightarrow> int \<Rightarrow> Duration" where
  "cfg_Prevote cfg round = wrap64 (TimeoutPrevote cfg + wrap64 (TimeoutPrevoteDelta cfg * round))"

definition cfg_Precommit :: "Config \<Rightarrow> int \<Rightarrow> Duration" where
  "cfg_Precommit cfg round = wrap64 (TimeoutPrecommit cfg + wrap64 (TimeoutPrecommitDelta cfg * round))"

definition cfg_Commit :: "Config \<Rightarrow> Time \<Rightarrow> Time" where
  "cfg_Commit cfg t = t + TimeoutCommit cfg"

definition cfg_ValidateBasic :: "Config \<Rightarrow> string option" where
  "cfg_ValidateBasic cfg =
     (if TimeoutPropose cfg < 0 then Some ''timeout_propose can't be negative''
      else if TimeoutProposeDelta cfg < 0 then Some ''timeout_propose_delta can't be negative''
      else if TimeoutPrevote cfg < 0 then Some ''timeout_prevote can't be negative''
      else if TimeoutPrevoteDelta cfg < 0 then Some ''timeout_prevote_delta can't be negative''
      else if TimeoutPrecommit cfg < 0 then Some ''timeout_precommit can't be negative''
      else if TimeoutPrecommitDelta cfg < 0 then Some ''timeout_precommit_delta can't be negative''
      else if TimeoutCommit cfg < 0 then Some ''timeout_commit can't be negative''
      else None)"

text \<open>The three timeouts have one shape, \<open>base + delta * round\<close>.\<close>

lemma linear_timeout_mono:
  fixes base delta r s :: int
  assumes "0 \<le> base" and "0 \<le> delta" and "0 \<le> r" and "r \<le> s" and "base + delta * s < 2 ^ 63"
  shows "0 \<le> wrap64 (base + wrap64 (delta * r))"
    and "wrap64 (base + wrap64 (delta * r)) \<le> wrap64 (base + wrap64 (delta * s))"
    and "wrap64 (base + wrap64 (delta * r)) = base + delta * r"
proof -
  have w: "wrap64 (base + wrap64 (delta * x)) = base + delta * x" and "0 \<le> base + delta * x"
    if "0 \<le> x" "x \<le> s" for x
  proof -
    have le: "delta * x \<le> delta * s" using assms that by (simp add: mult_left_mono)
    have ge: "0 \<le> delta * x" using assms that by simp
    then show "0 \<le> base + delta * x" using assms by simp
    have "wrap64 (delta * x) = delta * x" using le ge assms by (intro wrap64_idI) linarith+
    then show "wrap64 (base + wrap64 (delta * x)) = base + delta * x"
      using le ge assms by (simp only:) (intro wrap64_idI, linarith+)
  qed
  show "wrap64 (base + wrap64 (delta * r)) = base + delta * r"
    using w(1) assms by simp
  show "0 \<le> wrap64 (base + wrap64 (delta * r))"
    using w [of r] assms by simp
  show "wrap64 (base + wrap64 (delta * r)) \<le> wrap64 (base + wrap64 (delta * s))"
    using w [of r] w [of s] assms by (simp add: mult_left_mono)
qed

text \<open>With a configuration that passes its validation, the three waiting times are
  non-negative and never shrink from one round to a later one, as long as the later one's time
  does not overflow.\<close>

theorem timeouts_grow:
  assumes "cfg_ValidateBasic cfg = None" and "0 \<le> r" and "r \<le> s"
    and "TimeoutPropose cfg + TimeoutProposeDelta cfg * s < 2 ^ 63"
    and "TimeoutPrevote cfg + TimeoutPrevoteDelta cfg * s < 2 ^ 63"
    and "TimeoutPrecommit cfg + TimeoutPrecommitDelta cfg * s < 2 ^ 63"
  shows "0 \<le> cfg_Propose cfg r \<and> cfg_Propose cfg r \<le> cfg_Propose cfg s \<and>
    0 \<le> cfg_Prevote cfg r \<and> cfg_Prevote cfg r \<le> cfg_Prevote cfg s \<and>
    0 \<le> cfg_Precommit cfg r \<and> cfg_Precommit cfg r \<le> cfg_Precommit cfg s"
proof -
  have "0 \<le> TimeoutPropose cfg" "0 \<le> TimeoutProposeDelta cfg" "0 \<le> TimeoutPrevote cfg"
    "0 \<le> TimeoutPrevoteDelta cfg" "0 \<le> TimeoutPrecommit cfg" "0 \<le> TimeoutPrecommitDelta cfg"
    using assms(1) by (auto simp: cfg_ValidateBasic_def split: if_splits)
  then show ?thesis
    unfolding cfg_Propose_def cfg_Prevote_def cfg_Precommit_def
    using assms by (intro conjI linear_timeout_mono)
qed

theorem timeouts_grow_witness:
  "cfg_Propose DefaultConfig 0 \<le> cfg_Propose DefaultConfig 1000"
  using timeouts_grow [of DefaultConfig 0 1000]
  by (simp add: cfg_ValidateBasic_def DefaultConfig_def Millisecond_def)

end
