(* ===== verification/Ticker.thy ===== *)
theory Ticker
  imports Round_State
begin

text \<open>
  The timeout ticker (\<^verbatim>\<open>src/ticker.go\<close>): a goroutine that owns one timer, replaces it on ticks
  for later positions, and hands the timeout to the core when it expires. The two channels are
  queues of bounded length. Every expiry starts a goroutine of its own that sends the timeout to
  the core, so \<open>tk_senders\<close> holds the timeouts whose goroutine has not sent yet, and they may
  overtake each other. The interleaving of the ticker, the run-time timer, the senders and the
  core is the order of the events.
\<close>

section \<open>The model\<close>

record Ticker =
  tk_ti :: timeoutInfo
  tk_timer :: "Duration option"
  tk_C :: bool
  tk_tickChan :: "timeoutInfo list"
  tk_senders :: "timeoutInfo list"
  tk_tockChan :: "timeoutInfo list"
  tk_stopCh :: bool
  tk_returned :: bool

definition tickTockBufferSize :: nat where "tickTockBufferSize = 10"

text \<open>\<^verbatim>\<open>stopTimer\<close>: stop the timer and drain its channel.\<close>

definition stopTimer :: "Ticker \<Rightarrow> Ticker" where
  "stopTimer t = t\<lparr>tk_timer := None, tk_C := False\<rparr>"

definition NewTimeoutTicker :: Ticker where
  "NewTimeoutTicker =
     stopTimer \<lparr>tk_ti = \<lparr>ti_Duration = 0, ti_Height = 0, ti_Round = 0, ti_Step = 0\<rparr>,
                tk_timer = Some 0, tk_C = False, tk_tickChan = [], tk_senders = [], tk_tockChan = [],
                tk_stopCh = False, tk_returned = False\<rparr>"

definition ticker_Stop :: "Ticker \<Rightarrow> Ticker" where
  "ticker_Stop t = (stopTimer t)\<lparr>tk_stopCh := True\<rparr>"

text \<open>A send on a full channel blocks: the state stays as it is until there is room.\<close>

definition ticker_ScheduleTimeout :: "timeoutInfo \<Rightarrow> Ticker \<Rightarrow> Ticker" where
  "ticker_ScheduleTimeout ti t =
     (if length (tk_tickChan t) < tickTockBufferSize then t\<lparr>tk_tickChan := tk_tickChan t @ [ti]\<rparr> else t)"

text \<open>The guard of the routine: ticks for an old height, round or step are skipped.\<close>

definition ticker_ignores :: "timeoutInfo \<Rightarrow> timeoutInfo \<Rightarrow> bool" where
  "ticker_ignores ti newti =
     (if ti_Height newti < ti_Height ti then True
      else if ti_Height newti = ti_Height ti then
        (if ti_Round newti < ti_Round ti then True
         else if ti_Round newti = ti_Round ti then
           ti_Step ti > 0 \<and>
             (ti_Step newti < ti_Step ti \<or>
              ti_Step newti = ti_Step ti \<and> ti_Step newti \<noteq> RoundStepPrecommitFetch
                \<and> ti_Step newti \<noteq> RoundStepPrevoteFetch)
         else False)
      else False)"

text \<open>The three branches of the routine's select (which returns at some moment after the stop
  channel is closed), the expiry of the timer, the send of the \<open>i\<close>-th waiting goroutine, and the
  core taking a timeout.\<close>

datatype ticker_event =
  TkSchedule timeoutInfo | TkTick | TkExpire | TkFire | TkReturn | TkSend nat | TkTake | TkStop

fun timeoutRoutine_step :: "ticker_event \<Rightarrow> Ticker \<Rightarrow> Ticker outcome" where
  "timeoutRoutine_step (TkSchedule ti) t = Inr (ticker_ScheduleTimeout ti t)"
| "timeoutRoutine_step TkTick t =
     Inr (case tk_tickChan t of
        [] \<Rightarrow> t
      | newti # rest \<Rightarrow>
          if tk_returned t then t
          else (let t1 = t\<lparr>tk_tickChan := rest\<rparr>
                in if ticker_ignores (tk_ti t1) newti then t1
                   else (stopTimer t1)\<lparr>tk_ti := newti, tk_timer := Some (ti_Duration newti)\<rparr>))"
| "timeoutRoutine_step TkExpire t =
     Inr (if tk_timer t \<noteq> None then t\<lparr>tk_timer := None, tk_C := True\<rparr> else t)"
| "timeoutRoutine_step TkFire t =
     Inr (if tk_C t \<and> \<not> tk_returned t
          then t\<lparr>tk_C := False, tk_senders := tk_senders t @ [tk_ti t]\<rparr> else t)"
| "timeoutRoutine_step TkReturn t = Inr (if tk_stopCh t then t\<lparr>tk_returned := True\<rparr> else t)"
| "timeoutRoutine_step (TkSend i) t =
     Inr (if i < length (tk_senders t) \<and> length (tk_tockChan t) < tickTockBufferSize
          then t\<lparr>tk_senders := take i (tk_senders t) @ drop (Suc i) (tk_senders t),
                 tk_tockChan := tk_tockChan t @ [tk_senders t ! i]\<rparr>
          else t)"
| "timeoutRoutine_step TkTake t = Inr (t\<lparr>tk_tockChan := tl (tk_tockChan t)\<rparr>)"
| "timeoutRoutine_step TkStop t = Inr (ticker_Stop t)"


section \<open>Properties\<close>

lemma byte_pos_iff: "0 < (x :: byte) \<longleftrightarrow> x \<noteq> 0"
  by (simp add: word_neq_0_conv)

text \<open>The ticker skips a tick exactly when it is for an earlier position than the current
  timeout's, or for the same position unless that is one of the two fetch steps, which are
  scheduled again and again (a step of 0 is the initial, unset timeout).\<close>

theorem ticker_ignores_iff:
  "ticker_ignores ti newti \<longleftrightarrow>
     ti_hrs newti < ti_hrs ti \<or>
     ti_hrs newti = ti_hrs ti \<and> ti_Step ti \<noteq> 0 \<and>
       ti_Step newti \<noteq> RoundStepPrevoteFetch \<and> ti_Step newti \<noteq> RoundStepPrecommitFetch"
  by (auto simp: ticker_ignores_def ti_hrs_def less_HRS_def byte_pos_iff)

lemma ticker_accepts_le: "\<not> ticker_ignores ti newti \<Longrightarrow> ti_hrs ti \<le> ti_hrs newti"
  unfolding not_less [symmetric]
  by (auto simp: ticker_ignores_def ti_hrs_def less_HRS_def byte_pos_iff split: if_splits)

text \<open>The timeouts on their way to the core.\<close>

definition in_flight :: "Ticker \<Rightarrow> timeoutInfo set" where
  "in_flight t = set (tk_senders t) \<union> set (tk_tockChan t)"

lemma send_in_flight: "timeoutRoutine_step (TkSend i) t = Inr t' \<Longrightarrow> in_flight t' \<subseteq> in_flight t"
  by (auto simp: in_flight_def split: if_splits dest: in_set_takeD in_set_dropD)

lemma take_in_flight: "timeoutRoutine_step TkTake t = Inr t' \<Longrightarrow> in_flight t' \<subseteq> in_flight t"
  by (cases "tk_tockChan t") (auto simp: in_flight_def)

text \<open>
  The invariant: no timeout on its way to the core is beyond the ticker's current position, the
  timer is armed for the current timeout only, and the channels keep to their size.
\<close>

definition ticker_inv :: "Ticker \<Rightarrow> bool" where
  "ticker_inv t \<longleftrightarrow>
     ti_hrs ` in_flight t \<subseteq> {..ti_hrs (tk_ti t)} \<and>
     (\<forall>d. tk_timer t = Some d \<longrightarrow> d = ti_Duration (tk_ti t)) \<and>
     length (tk_tickChan t) \<le> tickTockBufferSize \<and> length (tk_tockChan t) \<le> tickTockBufferSize"

lemma ticker_inv_new: "ticker_inv NewTimeoutTicker"
  by (simp add: ticker_inv_def in_flight_def NewTimeoutTicker_def stopTimer_def)

lemma ticker_step_position:
  "timeoutRoutine_step e t = Inr t' \<Longrightarrow> ti_hrs (tk_ti t) \<le> ti_hrs (tk_ti t')"
  by (cases e) (auto simp: ticker_ScheduleTimeout_def ticker_Stop_def stopTimer_def Let_def
      ticker_accepts_le split: list.splits if_splits)

interpretation ticker: total_machine timeoutRoutine_step "\<lambda>_. True" ticker_inv
proof unfold_locales
  show "\<exists>s'. timeoutRoutine_step e s = Inr s'" for e s
    by (cases e) auto
next
  fix e s s' assume inv: "ticker_inv s" and step: "timeoutRoutine_step e s = Inr s'"
  have pos: "ti_hrs (tk_ti s) \<le> ti_hrs (tk_ti s')" using ticker_step_position [OF step] .
  have flight: "in_flight s' \<subseteq> in_flight s \<union> {tk_ti s}"
  proof (cases e)
    case (TkSend i)
    with step send_in_flight show ?thesis by blast
  next
    case TkTake
    with step take_in_flight show ?thesis by blast
  qed (use step in \<open>auto simp: in_flight_def ticker_Stop_def stopTimer_def ticker_ScheduleTimeout_def Let_def
        split: list.splits if_splits\<close>)
  have "ti_hrs ` in_flight s' \<subseteq> {..ti_hrs (tk_ti s')}"
    using inv flight pos by (fastforce simp: ticker_inv_def)
  moreover have "\<forall>d. tk_timer s' = Some d \<longrightarrow> d = ti_Duration (tk_ti s')"
    using inv step by (cases e) (auto simp: ticker_inv_def ticker_Stop_def stopTimer_def
        ticker_ScheduleTimeout_def Let_def split: list.splits if_splits)
  moreover have "length (tk_tickChan s') \<le> tickTockBufferSize \<and> length (tk_tockChan s') \<le> tickTockBufferSize"
    using inv step by (cases e) (auto simp: ticker_inv_def ticker_Stop_def stopTimer_def
        ticker_ScheduleTimeout_def Let_def split: list.splits if_splits)
  ultimately show "ticker_inv s'" by (simp add: ticker_inv_def)
qed

text \<open>Whatever the order of ticks, expiries, sends and stops, no timeout on its way to the
  core is beyond the ticker's current position, and neither channel exceeds its buffer.\<close>

theorem ticker_bounded:
  "\<exists>t. run_steps timeoutRoutine_step es NewTimeoutTicker = Inr t \<and>
     ti_hrs ` in_flight t \<subseteq> {..ti_hrs (tk_ti t)} \<and>
     length (tk_tickChan t) \<le> tickTockBufferSize \<and> length (tk_tockChan t) \<le> tickTockBufferSize"
  using ticker_inv_new ticker.run_total [of es NewTimeoutTicker] by (auto simp: ticker_inv_def list_all_iff)

text \<open>The timeouts that were ever scheduled, along a run.\<close>

fun scheduled :: "ticker_event list \<Rightarrow> timeoutInfo set" where
  "scheduled [] = {}"
| "scheduled (TkSchedule ti # es) = insert ti (scheduled es)"
| "scheduled (e # es) = scheduled es"

definition known :: "timeoutInfo set \<Rightarrow> Ticker \<Rightarrow> bool" where
  "known K t \<longleftrightarrow> set (tk_tickChan t) \<union> in_flight t \<subseteq> K \<and> (tk_timer t \<noteq> None \<or> tk_C t \<longrightarrow> tk_ti t \<in> K)"

lemma step_known:
  assumes "timeoutRoutine_step e t = Inr t'" and "known K t"
  shows "known (K \<union> scheduled [e]) t'"
proof (cases e)
  case (TkSend i)
  with assms send_in_flight [of i t t'] show ?thesis by (auto simp: known_def split: if_splits)
next
  case TkTake
  with assms take_in_flight [of t t'] show ?thesis by (auto simp: known_def)
qed (use assms in \<open>auto simp: known_def in_flight_def ticker_ScheduleTimeout_def ticker_Stop_def stopTimer_def Let_def
      split: list.splits if_splits\<close>)

lemma scheduled_Cons: "scheduled (e # es) = scheduled [e] \<union> scheduled es"
  by (cases e) auto

lemma run_known:
  "run_steps timeoutRoutine_step es t = Inr t' \<Longrightarrow> known K t \<Longrightarrow> known (K \<union> scheduled es) t'"
proof (induction es arbitrary: t K)
  case (Cons e es)
  from Cons.prems(1) obtain t1 where "timeoutRoutine_step e t = Inr t1"
    and "run_steps timeoutRoutine_step es t1 = Inr t'" by (auto elim: and_then_InrE)
  with step_known [of e t t1 K] Cons.IH [of t1 "K \<union> scheduled [e]"] Cons.prems(2) show ?case
    by (simp only: scheduled_Cons [of e es] Un_assoc)
qed simp

text \<open>The ticker invents nothing: every timeout it hands to the core was scheduled.\<close>

theorem ticker_delivers_scheduled:
  "\<exists>t. run_steps timeoutRoutine_step es NewTimeoutTicker = Inr t \<and> in_flight t \<subseteq> scheduled es"
proof -
  obtain t where "run_steps timeoutRoutine_step es NewTimeoutTicker = Inr t"
    using ticker_inv_new ticker.run_total [of es NewTimeoutTicker] by (auto simp: list_all_iff)
  moreover have "known {} NewTimeoutTicker"
    by (simp add: known_def in_flight_def NewTimeoutTicker_def stopTimer_def)
  ultimately show ?thesis
    using run_known [of es NewTimeoutTicker t "{}"] by (auto simp: known_def)
qed

end
