(* ===== verification/Core_Model.thy ===== *)
theory Core_Model
  imports Ticker
begin

text \<open>
  The consensus core (\<^verbatim>\<open>src/bftcore.go\<close>): its state, every handler, and the loop that feeds it
  messages and timeouts. Handlers that cannot panic are functions on the state; the others
  return an outcome. The application behind \<^verbatim>\<open>custom.ICommittee\<close> is part of the state as the
  record of its current answers; what it is told (broadcasts, sends, commits) is appended to
  \<open>outbox\<close>, what the ticker is told to \<open>ticks\<close>. The parameters of a run are in \<open>Env\<close>: the private
  key, the readings of the clock, the iteration orders of maps, the codec, and how the
  application answers after a commit. Logging is left out.
\<close>

section \<open>State\<close>

type_synonym Peer = nat

record msgInfo =
  mi_Msg :: ConsensusMessage
  mi_Peer :: "Peer option"

datatype app_call =
    BroadCast ConsensusMessage
  | Send ConsensusMessage "Peer option"
  | CommitCall Commit

record Core = RoundState +
  cfg :: Config
  app :: ICommittee
  hasRecvCommitRecords :: bool
  msgQueue :: "msgInfo list"
  started :: bool
  inStartOrStop :: bool
  inFetch :: bool
  msgCnt :: int
  byzantinePrevote :: "ProposedData option"
  ticks :: "timeoutInfo list"
  outbox :: "app_call list"
  reads :: nat

record Env =
  privVal :: IPrivValidator
  clock :: "nat \<Rightarrow> Time"
  map_order :: "nat \<Rightarrow> range_order"
  codec :: Codec
  AppCommit :: "nat \<Rightarrow> Commit \<Rightarrow> ICommittee \<Rightarrow> ICommittee"

definition NewCore :: "ICommittee \<Rightarrow> Core" where
  "NewCore vals =
     \<lparr>Height = 0, Round = 0, Step = 0, StartTime = 0, CommitTime = 0, Proposal = None,
      LockedRound = 0, LockedProposal = None, Votes = None, CommitRound = 0, LastCommit = None,
      lastCommittedData = NilData,
      cfg = DefaultConfig, app = vals, hasRecvCommitRecords = False, msgQueue = [], started = False,
      inStartOrStop = False, inFetch = False, msgCnt = 0, byzantinePrevote = None,
      ticks = [], outbox = [], reads = 0\<rparr>"

text \<open>Following a pointer of the state.\<close>

definition deref :: "'a option \<Rightarrow> 'a outcome" where
  "deref p = (case p of None \<Rightarrow> Inl NilPointer | Some x \<Rightarrow> Inr x)"

lemma deref_simps [simp]: "deref None = Inl NilPointer" "deref (Some x) = Inr x"
  by (simp_all add: deref_def)

lemma deref_Inr_iff [simp]: "deref p = Inr x \<longleftrightarrow> p = Some x"
  by (cases p) simp_all

text \<open>Every reading of the clock and every range over a map takes the next value of the run's
  parameters.\<close>

definition common_Now :: "Env \<Rightarrow> Core \<Rightarrow> Time" where
  "common_Now env c = clock env (reads c)"

definition next_read :: "Core \<Rightarrow> Core" where
  "next_read c = c\<lparr>reads := Suc (reads c)\<rparr>"

definition call_app :: "app_call \<Rightarrow> Core \<Rightarrow> Core" where
  "call_app call c = c\<lparr>outbox := outbox c @ [call]\<rparr>"


section \<open>Steps, timeouts and the message queue\<close>

definition GetRoundState :: "Core \<Rightarrow> RoundState" where
  "GetRoundState c = RoundState.truncate c"

definition updateRoundStep :: "int \<Rightarrow> RoundStepType \<Rightarrow> Core \<Rightarrow> Core" where
  "updateRoundStep round step c = c\<lparr>Round := round, Step := step, inFetch := False\<rparr>"

definition scheduleTimeout :: "Duration \<Rightarrow> int \<Rightarrow> int \<Rightarrow> RoundStepType \<Rightarrow> Core \<Rightarrow> Core" where
  "scheduleTimeout duration height round step c =
     c\<lparr>ticks := ticks c @ [\<lparr>ti_Duration = duration, ti_Height = height, ti_Round = round, ti_Step = step\<rparr>]\<rparr>"

text \<open>\<^verbatim>\<open>Time.Sub\<close> saturates at the ends of \<^verbatim>\<open>Duration\<close>.\<close>

definition time_Sub :: "Time \<Rightarrow> Time \<Rightarrow> Duration" where
  "time_Sub t u = max (- (2 ^ 63)) (min max_int64 (t - u))"

definition scheduleRound0 :: "Env \<Rightarrow> Core \<Rightarrow> Core" where
  "scheduleRound0 env c =
     (let sleepDuration = time_Sub (StartTime c) (common_Now env c);
          sleepDuration' = (if sleepDuration < 0 then 0 else sleepDuration)
      in scheduleTimeout sleepDuration' (Height c) 0 RoundStepNewHeight (next_read c))"

text \<open>A send that does not block: a full queue drops the message.\<close>

definition sendInternalMessage :: "msgInfo \<Rightarrow> Core \<Rightarrow> Core" where
  "sendInternalMessage mi c =
     (if length (msgQueue c) < msgQueueSize then c\<lparr>msgQueue := msgQueue c @ [mi]\<rparr> else c)"

definition isValidator :: "Env \<Rightarrow> Core \<Rightarrow> bool" where
  "isValidator env c = IsValidator (app c) (GetSelfPubKey (privVal env))"

definition signAddVote :: "Env \<Rightarrow> Vote \<Rightarrow> Core \<Rightarrow> Core" where
  "signAddVote env vote c =
     (if \<not> isValidator env c then c
      else (let vote' = SignVote (privVal env) vote
            in call_app (BroadCast (MVote vote'))
                 (sendInternalMessage \<lparr>mi_Msg = MVote vote', mi_Peer = None\<rparr> c)))"

text \<open>\<^verbatim>\<open>message.NewVote\<close> stamps the vote with the clock.\<close>

definition new_vote :: "Env \<Rightarrow> VoteType \<Rightarrow> int \<Rightarrow> int \<Rightarrow> ProposedData \<Rightarrow> Core \<Rightarrow> Vote" where
  "new_vote env t height round proposed c =
     NewVote t height round proposed (lastCommittedData c) (common_Now env c)"

definition setByzantinePrevote :: "ProposedData option \<Rightarrow> Core \<Rightarrow> Core" where
  "setByzantinePrevote data c = c\<lparr>byzantinePrevote := data\<rparr>"

definition isReadyToPrevote :: "Core \<Rightarrow> bool" where
  "isReadyToPrevote c \<longleftrightarrow> Proposal c \<noteq> None \<or> LockedRound c \<ge> 0"


section \<open>Proposing and prevoting\<close>

definition doPropose :: "Env \<Rightarrow> int \<Rightarrow> int \<Rightarrow> Core \<Rightarrow> Core" where
  "doPropose env height round c =
     (let data = DecidesProposal (app c);
          proposal = new_vote env ProposalType height round data c;
          c1 = next_read c;
          proposal1 =
            (case LockedProposal c1 of
               Some lp \<Rightarrow> if LockedRound c1 > -1 then proposal\<lparr>v_Proposed := v_Proposed lp\<rparr> else proposal
             | None \<Rightarrow> proposal);
          c2 = signAddVote env proposal1 c1
      in c2\<lparr>Proposal := Some (if isValidator env c1 then SignVote (privVal env) proposal1 else proposal1)\<rparr>)"

text \<open>The data \<^verbatim>\<open>doPrevote\<close> votes for: the test hook's, the locked one, the proposal if the
  application approves it, or nil.\<close>

definition prevote_data :: "Core \<Rightarrow> ProposedData" where
  "prevote_data c =
     (if byzantinePrevote c \<noteq> None \<and> the (byzantinePrevote c) \<noteq> NilData then the (byzantinePrevote c)
      else if LockedRound c \<ge> 0 \<and> LockedProposal c \<noteq> None then v_Proposed (the (LockedProposal c))
      else if Proposal c \<noteq> None \<and> ValidateProposal (app c) (v_Proposed (the (Proposal c)))
      then v_Proposed (the (Proposal c))
      else NilData)"

definition doPrevote :: "Env \<Rightarrow> int \<Rightarrow> int \<Rightarrow> Core \<Rightarrow> Core" where
  "doPrevote env height round c =
     signAddVote env (new_vote env PrevoteType (Height c) (Round c) (prevote_data c) c) (next_read c)"

definition enterPrevoteFetch :: "int \<Rightarrow> int \<Rightarrow> Core \<Rightarrow> Core" where
  "enterPrevoteFetch height round c =
     scheduleTimeout FetchInterval height round RoundStepPrevoteFetch
       (updateRoundStep round RoundStepPrevoteFetch c)"

definition enterPrevote :: "Env \<Rightarrow> int \<Rightarrow> int \<Rightarrow> Core \<Rightarrow> Core" where
  "enterPrevote env height round c =
     (if Height c \<noteq> height \<or> round < Round c \<or> (Round c = round \<and> RoundStepPrevote \<le> Step c) then c
      else enterPrevoteFetch height round
             (updateRoundStep round RoundStepPrevote (doPrevote env height round c)))"

text \<open>The deferred function of \<^verbatim>\<open>enterPropose\<close> runs last, on every return after the guard.\<close>

definition enterPropose :: "Env \<Rightarrow> int \<Rightarrow> int \<Rightarrow> Core \<Rightarrow> Core" where
  "enterPropose env height round c =
     (if Height c \<noteq> height \<or> round < Round c \<or> (Round c = round \<and> RoundStepPropose \<le> Step c) then c
      else
        (let c1 = scheduleTimeout (cfg_Propose (cfg c) round) height round RoundStepPropose c;
             self = GetSelfPubKey (privVal env);
             c2 = (if \<not> IsValidator (app c1) self then c1
                   else if GetCurrentProposer (app c1) (Round c1) = self then doPropose env height round c1
                   else c1);
             c3 = updateRoundStep round RoundStepPropose c2
         in if isReadyToPrevote c3 then enterPrevote env height (Round c3) c3 else c3))"

definition enterNewRound :: "Env \<Rightarrow> int \<Rightarrow> int \<Rightarrow> Core \<Rightarrow> Core outcome" where
  "enterNewRound env height round c =
     (if Height c \<noteq> height \<or> round < Round c \<or> (Round c = round \<and> Step c \<noteq> RoundStepNewHeight) then Inr c
      else
        (let c1 = updateRoundStep round RoundStepNewRound (next_read c);
             c2 = (if round = 0 then c1 else c1\<lparr>Proposal := None\<rparr>)
         in and_then (deref (Votes c2)) (\<lambda>hvs.
            and_then (SetRound (wrap64 (round + 1)) hvs) (\<lambda>hvs'.
              Inr (enterPropose env height round (c2\<lparr>Votes := Some hvs'\<rparr>))))))"


section \<open>Precommitting\<close>

definition enterPrevoteWait :: "Env \<Rightarrow> int \<Rightarrow> int \<Rightarrow> Core \<Rightarrow> Core outcome" where
  "enterPrevoteWait env height round c =
     (if Height c \<noteq> height \<or> round < Round c \<or> (Round c = round \<and> RoundStepPrevoteWait \<le> Step c) then Inr c
      else and_then (deref (Votes c)) (\<lambda>hvs.
        if \<not> HasTwoThirdsAny (app c) (Prevotes round hvs)
        then Inl (PanicSanity ''enterPrevoteWait, but Prevotes does not have any +2/3 votes'')
        else Inr (updateRoundStep round RoundStepPrevoteWait
               (scheduleTimeout (cfg_Prevote (cfg c) round) height round RoundStepPrevoteWait c))))"

definition enterPrecommitFetch :: "int \<Rightarrow> int \<Rightarrow> Core \<Rightarrow> Core" where
  "enterPrecommitFetch height round c =
     scheduleTimeout FetchInterval height round RoundStepPrecommitFetch
       (updateRoundStep round RoundStepPrecommitFetch c)"

text \<open>The deferred function of \<^verbatim>\<open>enterPrecommit\<close>.\<close>

definition done_enterPrecommit :: "int \<Rightarrow> Core \<Rightarrow> Core" where
  "done_enterPrecommit round c =
     (let c1 = updateRoundStep round RoundStepPrecommit c
      in enterPrecommitFetch (Height c1) (Round c1) c1)"

text \<open>What follows a polka for \<open>polkaData\<close>, which is not nil: relock, lock or unlock.\<close>

definition precommit_polka :: "Env \<Rightarrow> int \<Rightarrow> ProposedData \<Rightarrow> Vote \<Rightarrow> Core \<Rightarrow> Core outcome" where
  "precommit_polka env round polkaData precommit c =
     and_then (if LockedRound c \<ge> 0
               then and_then (deref (LockedProposal c)) (\<lambda>lp. Inr (v_Proposed lp = polkaData))
               else Inr False) (\<lambda>locked_on_it.
       if locked_on_it then
         Inr (signAddVote env (precommit\<lparr>v_Proposed := polkaData\<rparr>) (c\<lparr>LockedRound := round\<rparr>))
       else if Proposal c \<noteq> None \<and> v_Proposed (the (Proposal c)) = polkaData then
         Inr (signAddVote env (precommit\<lparr>v_Proposed := polkaData\<rparr>)
                (c\<lparr>LockedRound := round, LockedProposal := Proposal c\<rparr>))
       else Inr (signAddVote env precommit (c\<lparr>LockedRound := -1, LockedProposal := None\<rparr>)))"

definition enterPrecommit :: "Env \<Rightarrow> int \<Rightarrow> int \<Rightarrow> Core \<Rightarrow> Core outcome" where
  "enterPrecommit env height round c =
     (if Height c \<noteq> height \<or> round < Round c \<or> (Round c = round \<and> RoundStepPrecommit \<le> Step c) then Inr c
      else and_then (deref (Votes c)) (\<lambda>hvs.
        let (polkaData, ok) = TwoThirdsMajority (Prevotes round hvs);
            precommit = new_vote env PrecommitType height round NilData c;
            c1 = next_read c
        in if \<not> ok then Inr (done_enterPrecommit round (signAddVote env precommit c1))
           else if fst (POLInfo hvs) \<noteq> round then Inl (PanicSanity ''This POLRound is not the round'')
           else if polkaData = NilData then
             Inr (done_enterPrecommit round (signAddVote env precommit
               (if LockedProposal c1 = None then c1 else c1\<lparr>LockedRound := -1, LockedProposal := None\<rparr>)))
           else and_then (precommit_polka env round polkaData precommit c1)
                  (\<lambda>c2. Inr (done_enterPrecommit round c2))))"

definition enterPrecommitWait :: "Env \<Rightarrow> int \<Rightarrow> int \<Rightarrow> Core \<Rightarrow> Core outcome" where
  "enterPrecommitWait env height round c =
     (if Height c \<noteq> height \<or> round < Round c \<or> (Round c = round \<and> RoundStepPrecommitWait \<le> Step c) then Inr c
      else and_then (deref (Votes c)) (\<lambda>hvs.
        if \<not> HasTwoThirdsAny (app c) (Precommits round hvs)
        then Inl (PanicSanity ''enterPrecommitWait, but Precommits does not have any +2/3 votes'')
        else Inr (updateRoundStep round RoundStepPrecommitWait
               (scheduleTimeout (cfg_Precommit (cfg c) round) height round RoundStepPrecommitWait c))))"


section \<open>Committing\<close>

text \<open>The check of the committed round and the precommits kept as the last commit.\<close>

definition last_precommits :: "Core \<Rightarrow> VoteSet option outcome" where
  "last_precommits c =
     (case Votes c of
        None \<Rightarrow> Inr None
      | Some hvs \<Rightarrow>
          if CommitRound c > -1 then
            (if \<not> HasTwoThirdsMajority (Precommits (CommitRound c) hvs)
             then Inl (PanicSanity ''updateToState(state) called but last Precommit round didn't have +2/3'')
             else Inr (Precommits (CommitRound c) hvs))
          else Inr None)"

definition updateToAppState :: "Env \<Rightarrow> AppState option \<Rightarrow> Core \<Rightarrow> Core outcome" where
  "updateToAppState env appState c =
     (case appState of
        None \<Rightarrow> Inr c
      | Some st \<Rightarrow>
          if CommitRound c > -1 \<and> 0 < Height c \<and> Height c > LastHeight st
          then Inl (PanicSanity ''updateToState() expected state height'')
          else and_then (last_precommits c) (\<lambda>lastPrecommits.
            (let c1 = updateRoundStep 0 RoundStepNewHeight (c\<lparr>Height := wrap64 (LastHeight st + 1)\<rparr>);
                 c2 = (if CommitTime c1 = 0
                       then (next_read c1)\<lparr>StartTime := cfg_Commit (cfg c1) (common_Now env c1)\<rparr>
                       else c1\<lparr>StartTime := cfg_Commit (cfg c1) (CommitTime c1)\<rparr>);
                 c3 = c2\<lparr>Proposal := None, LockedRound := -1, LockedProposal := None, CommitRound := -1,
                         LastCommit := lastPrecommits, lastCommittedData := LastProposedData st\<rparr>
             in and_then (NewHeightVoteSet (Height c3) (lastCommittedData c3)) (\<lambda>hvs.
                  Inr (c3\<lparr>Votes := Some hvs\<rparr>)))))"

definition doCommit :: "Env \<Rightarrow> ProposedData \<Rightarrow> Core \<Rightarrow> Core outcome" where
  "doCommit env data c =
     and_then (deref (Votes c)) (\<lambda>hvs.
     and_then (MakeCommit (map_order env (reads c)) (Precommits (CommitRound c) hvs)) (\<lambda>records.
       if data \<noteq> c_ProposedData records then Inl (PanicSanity ''doCommit() inconsistent committed data'')
       else
         (let records' = SignCommit (codec env) (privVal env) (records\<lparr>c_CommitTime := CommitTime c\<rparr>);
              c1 = next_read c;
              c2 = (if \<not> hasRecvCommitRecords c1 then call_app (BroadCast (MCommit records')) c1 else c1);
              c3 = (call_app (CommitCall records') c2)
                     \<lparr>app := AppCommit env (reads c2) records' (app c2)\<rparr>
          in and_then (updateToAppState env (GetAppState (app c3)) c3) (\<lambda>c4.
               Inr (scheduleRound0 env (c4\<lparr>hasRecvCommitRecords := False\<rparr>))))))"

definition enterCommit :: "Env \<Rightarrow> int \<Rightarrow> int \<Rightarrow> Core \<Rightarrow> Core outcome" where
  "enterCommit env height commitRound c =
     (if Height c \<noteq> height \<or> RoundStepCommit \<le> Step c then Inr c
      else and_then (deref (Votes c)) (\<lambda>hvs.
        let (maj23, ok) = TwoThirdsMajority (Precommits commitRound hvs)
        in if \<not> ok then Inl (PanicSanity ''RunActionCommit() expects +2/3 precommits'')
           else
             (let c1 = c\<lparr>CommitRound := commitRound, CommitTime := common_Now env c\<rparr>;
                  c2 = updateRoundStep (Round c1) RoundStepCommit (next_read c1)
              in doCommit env maj23 c2)))"


section \<open>Fetching votes\<close>

definition fetchMissingVotes :: "Env \<Rightarrow> Core \<Rightarrow> Core outcome" where
  "fetchMissingVotes env c =
     (if Step c \<noteq> RoundStepPrevoteFetch \<and> Step c \<noteq> RoundStepPrecommitFetch then Inr c
      else and_then (deref (Votes c)) (\<lambda>hvs.
        let vs = (if Step c = RoundStepPrevoteFetch then Prevotes (Round c) hvs else Precommits (Round c) hvs);
            step = (if Step c = RoundStepPrevoteFetch then RoundStepPrevoteFetch else RoundStepPrecommitFetch)
        in and_then (MakeFetchVotesReq (map_order env (reads c)) (common_Now env c) vs) (\<lambda>fvr.
             let c1 = call_app (Send (MFetchVotesReq (SignReq (privVal env) fvr)) None) (next_read c)
             in Inr ((scheduleTimeout FetchInterval (Height c1) (Round c1) step c1)\<lparr>inFetch := True\<rparr>))))"

text \<open>The response to a request: precommits of a past height from the application's history, the
  votes of a round up to the current one, or none.\<close>

definition fetch_response :: "Env \<Rightarrow> FetchVotesReq \<Rightarrow> Core \<Rightarrow> FetchVotesRsp option outcome" where
  "fetch_response env msg c =
     (if q_Height msg < Height c then
        (case GetCommitHistory (app c) (q_Height msg) of
           None \<Rightarrow> Inr None
         | Some commit \<Rightarrow>
             Inr (Some \<lparr>r_Type = PrecommitType, r_Height = q_Height msg, r_Round = q_Round msg,
                        r_Responser = [], r_MissingVotes = c_Precommits commit, r_Time = 0, r_Signature = []\<rparr>))
      else if q_Height msg = Height c \<and> q_Round msg \<le> Round c then
        (if q_Type msg = PrevoteType \<or> q_Type msg = PrecommitType then
           and_then (deref (Votes c)) (\<lambda>hvs.
           and_then (MakeFetchVotesRsp (map_order env (reads c)) (common_Now env c) msg
             (if q_Type msg = PrevoteType then Prevotes (q_Round msg) hvs else Precommits (q_Round msg) hvs))
             (\<lambda>rsp. Inr (Some rsp)))
         else Inr None)
      else Inr None)"

definition handleFetch :: "Env \<Rightarrow> FetchVotesReq \<Rightarrow> Peer option \<Rightarrow> Core \<Rightarrow> Core outcome" where
  "handleFetch env msg p c =
     (if Req_ValidateBasic msg \<noteq> None then Inr c
      else and_then (fetch_response env msg c) (\<lambda>rsp.
        case rsp of
          None \<Rightarrow> Inr c
        | Some rsp \<Rightarrow>
            and_then (SignRsp (privVal env) rsp) (\<lambda>rsp'.
              Inr (call_app (Send (MFetchVotesRsp rsp') p) (next_read c)))))"


section \<open>Votes\<close>

definition defaultSetProposal :: "Env \<Rightarrow> Vote \<Rightarrow> Core \<Rightarrow> verror option \<times> Core" where
  "defaultSetProposal env proposal c =
     (if Proposal c \<noteq> None then (None, c)
      else if v_Height proposal \<noteq> Height c \<or> v_Round proposal \<noteq> Round c then (None, c)
      else if v_Prev proposal \<noteq> lastCommittedData c then (None, c)
      else if GetCurrentProposer (app c) (Round c) \<noteq> v_Address proposal then (Some ErrInvalidProposer, c)
      else if \<not> VerifyVote (app c) proposal then (Some ErrInvalidProposalSignature, c)
      else if ValidateProposal (app c) (v_Proposed proposal)
      then (let c1 = c\<lparr>Proposal := Some proposal\<rparr>
            in (None, enterPrevote env (Height c1) (Round c1) c1))
      else (None, c))"

text \<open>A precommit of the previous height that arrives while the next one waits to start.\<close>

definition add_straggler :: "Env \<Rightarrow> Vote \<Rightarrow> Core \<Rightarrow> (bool \<times> verror option \<times> Core) outcome" where
  "add_straggler env vote c =
     (if \<not> (Step c = RoundStepNewHeight \<and> v_Type vote = PrecommitType) \<or> LastCommit c = None
      then Inr (False, Some ErrVoteHeightMismatch, c)
      else and_then (AddVote (app c) (Some vote) (LastCommit c)) (\<lambda>(added, err, vs').
        let c1 = c\<lparr>LastCommit := Some vs'\<rparr>
        in if \<not> added then Inr (added, err, c1)
           else and_then (HasAll (app c1) (LastCommit c1)) (\<lambda>all.
             if SkipTimeoutCommit (cfg c1) \<and> all
             then and_then (enterNewRound env (Height c1) 0 c1) (\<lambda>c2. Inr (added, err, c2))
             else Inr (added, err, c1))))"

text \<open>The unlocking on a polka, and the reset of a proposal the polka is not for.\<close>

definition polka_unlock :: "Vote \<Rightarrow> VoteSet option \<Rightarrow> Core \<Rightarrow> Core" where
  "polka_unlock vote prevotes c =
     (let (polkaData, ok) = TwoThirdsMajority prevotes
      in if \<not> ok then c
         else
           (let c1 = (if LockedProposal c \<noteq> None \<and> LockedRound c < v_Round vote \<and>
                         v_Proposed (the (LockedProposal c)) \<noteq> polkaData
                      then c\<lparr>LockedRound := -1, LockedProposal := None\<rparr> else c)
            in if polkaData \<noteq> NilData \<and> v_Round vote = Round c1 \<and> Proposal c1 \<noteq> None \<and>
                  v_Proposed (the (Proposal c1)) \<noteq> polkaData
               then c1\<lparr>Proposal := None\<rparr> else c1))"

text \<open>The two cases of \<^verbatim>\<open>addVote\<close> after the vote has been added.\<close>

definition added_prevote :: "Env \<Rightarrow> int \<Rightarrow> Vote \<Rightarrow> HeightVoteSet \<Rightarrow> Core \<Rightarrow> Core outcome" where
  "added_prevote env height vote hvs c =
     (let prevotes = Prevotes (v_Round vote) hvs;
          c1 = polka_unlock vote prevotes c
      in if Round c1 < v_Round vote \<and> HasTwoThirdsAny (app c1) prevotes
         then enterNewRound env height (v_Round vote) c1
         else if Round c1 = v_Round vote \<and> RoundStepPrevote \<le> Step c1 then
           (if snd (TwoThirdsMajority prevotes) then enterPrecommit env height (v_Round vote) c1
            else if HasTwoThirdsAny (app c1) prevotes then enterPrevoteWait env height (v_Round vote) c1
            else Inr c1)
         else if RoundStepPrevote > Step c1 then
           (if Proposal c1 \<noteq> None then Inr (enterPrevote env height (Round c1) c1) else Inr c1)
         else Inr c1)"

definition added_precommit :: "Env \<Rightarrow> int \<Rightarrow> Vote \<Rightarrow> HeightVoteSet \<Rightarrow> Core \<Rightarrow> Core outcome" where
  "added_precommit env height vote hvs c =
     (let precommits = Precommits (v_Round vote) hvs
      in if HasTwoThirdsMajority precommits then
           and_then (enterNewRound env height (v_Round vote) c) (\<lambda>c1.
           and_then (enterPrecommit env height (v_Round vote) c1) (\<lambda>c2.
           and_then (enterCommit env height (v_Round vote) c2) (\<lambda>c3.
             if SkipTimeoutCommit (cfg c3) then
               and_then (HasAll (app c3) precommits) (\<lambda>all.
                 if all then enterNewRound env (Height c3) 0 c3 else Inr c3)
             else Inr c3)))
         else if Round c \<le> v_Round vote \<and> HasTwoThirdsAny (app c) precommits then
           and_then (enterNewRound env height (v_Round vote) c) (\<lambda>c1.
             enterPrecommitWait env height (v_Round vote) c1)
         else Inr c)"

definition addVote :: "Env \<Rightarrow> Vote option \<Rightarrow> Core \<Rightarrow> (bool \<times> verror option \<times> Core) outcome" where
  "addVote env vote_ptr c =
     and_then (deref vote_ptr) (\<lambda>vote.
       if wrap64 (v_Height vote + 1) = Height c then add_straggler env vote c
       else if v_Height vote \<noteq> Height c then Inr (False, Some ErrVoteHeightMismatch, c)
       else if v_Type vote = ProposalType then
         (let (err, c1) = defaultSetProposal env vote c in Inr (False, err, c1))
       else if wrap64 (Round c + watermark) < v_Round vote \<or> v_Round vote < 0
       then Inr (False, Some ErrVoteInvalidRound, c)
       else
         and_then (deref (Votes c)) (\<lambda>hvs.
         and_then (hvs_AddVote (app c) vote hvs) (\<lambda>(added, err, hvs').
           let c1 = c\<lparr>Votes := Some hvs'\<rparr>
           in if \<not> added then Inr (added, err, c1)
              else if v_Type vote = PrevoteType then
                and_then (added_prevote env (Height c) vote hvs' c1) (\<lambda>c2. Inr (added, err, c2))
              else if v_Type vote = PrecommitType then
                and_then (added_precommit env (Height c) vote hvs' c1) (\<lambda>c2. Inr (added, err, c2))
              else Inl (PanicMsg ''Unexpected vote type''))))"

text \<open>\<^verbatim>\<open>tryAddVote\<close> only logs the error.\<close>

definition tryAddVote :: "Env \<Rightarrow> Vote option \<Rightarrow> Core \<Rightarrow> Core outcome" where
  "tryAddVote env vote c = and_then (addVote env vote c) (\<lambda>(added, err, c'). Inr c')"


section \<open>Messages and timeouts\<close>

definition handleFetchRsp :: "Env \<Rightarrow> FetchVotesRsp \<Rightarrow> Core \<Rightarrow> Core outcome" where
  "handleFetchRsp env msg c =
     (if Height c = r_Height msg \<and> Round c \<le> r_Round msg then
        (if Step c \<noteq> RoundStepPrevoteFetch \<and> Step c \<noteq> RoundStepPrecommitFetch then Inr c
         else if Rsp_ValidateBasic msg \<noteq> None then Inr c
         else for_each (tryAddVote env) (r_MissingVotes msg) c)
      else Inr c)"

definition handleCommit :: "Env \<Rightarrow> Commit \<Rightarrow> Core \<Rightarrow> Core outcome" where
  "handleCommit env msg c =
     (if Commit_ValidateBasic msg \<noteq> None then Inr c
      else
        (let c1 = (if Commit_Height msg = Height c then c\<lparr>hasRecvCommitRecords := True\<rparr> else c)
         in if Commit_Height msg \<ge> Height c1 then for_each (tryAddVote env) (c_Precommits msg) c1
            else Inr c1))"

definition handleMsg :: "Env \<Rightarrow> msgInfo \<Rightarrow> Core \<Rightarrow> Core outcome" where
  "handleMsg env mi c =
     (case mi_Msg mi of
        MVote v \<Rightarrow> if \<not> isValidator env c then Inr c else tryAddVote env (Some v) c
      | MCommit m \<Rightarrow> handleCommit env m c
      | MFetchVotesReq q \<Rightarrow> handleFetch env q (mi_Peer mi) c
      | MFetchVotesRsp r \<Rightarrow> handleFetchRsp env r c)"

definition handleTimeout :: "Env \<Rightarrow> timeoutInfo \<Rightarrow> RoundState \<Rightarrow> Core \<Rightarrow> Core outcome" where
  "handleTimeout env ti rs c =
     (if ti_Height ti \<noteq> Height rs \<or> ti_Round ti < Round rs \<or> (ti_Round ti = Round rs \<and> ti_Step ti < Step rs)
      then Inr c
      else if ti_Step ti = RoundStepNewHeight then enterNewRound env (ti_Height ti) 0 c
      else if ti_Step ti = RoundStepNewRound then Inr (enterPropose env (ti_Height ti) 0 c)
      else if ti_Step ti = RoundStepPropose then Inr (enterPrevote env (ti_Height ti) (ti_Round ti) c)
      else if ti_Step ti = RoundStepPrevoteFetch then fetchMissingVotes env c
      else if ti_Step ti = RoundStepPrevoteWait then enterPrecommit env (ti_Height ti) (ti_Round ti) c
      else if ti_Step ti = RoundStepPrecommitFetch then fetchMissingVotes env c
      else if ti_Step ti = RoundStepPrecommitWait then
        and_then (enterPrecommit env (ti_Height ti) (ti_Round ti) c) (\<lambda>c1.
          enterNewRound env (ti_Height ti) (wrap64 (ti_Round ti + 1)) c1)
      else Inl (PanicMsg ''Invalid timeout step''))"


section \<open>The node\<close>

text \<open>The entry points return an error message or nil beside the new state.\<close>

definition RecvMsg :: "ConsensusMessage \<Rightarrow> Peer option \<Rightarrow> Core \<Rightarrow> string option \<times> Core" where
  "RecvMsg msg p c =
     (if started c then
        (case msg_ValidateBasic msg of
           Some err \<Rightarrow> (Some err, c)
         | None \<Rightarrow> (None, sendInternalMessage \<lparr>mi_Msg = msg, mi_Peer = p\<rparr> c))
      else (Some ''gobft is not running'', c))"

text \<open>\<^verbatim>\<open>Start\<close> makes a new ticker, so that no timeout scheduled before is delivered.\<close>

definition Start :: "Env \<Rightarrow> Core \<Rightarrow> (string option \<times> Core) outcome" where
  "Start env c =
     (if inStartOrStop c then Inr (Some ''gobft is in the process of start or stop'', c)
      else if started c then Inr (Some ''gobft already started'', c)
      else
        and_then (updateToAppState env (GetAppState (app c)) (c\<lparr>ticks := [], Votes := None\<rparr>)) (\<lambda>c1.
          let c2 = (next_read c1)\<lparr>StartTime := common_Now env c1 + 1000 * Millisecond\<rparr>;
              c3 = scheduleRound0 env c2
          in Inr (None, c3\<lparr>started := True\<rparr>)))"

definition Stop :: "Core \<Rightarrow> string option \<times> Core" where
  "Stop c =
     (if inStartOrStop c then (Some ''gobft is in the process of start or stop'', c)
      else if \<not> started c then (Some ''gobft already stopped'', c)
      else (None, c\<lparr>started := False\<rparr>))"

definition GetLastCommit :: "Env \<Rightarrow> Core \<Rightarrow> Commit outcome" where
  "GetLastCommit env c = MakeCommit (map_order env (reads c)) (LastCommit c)"

text \<open>
  The events of a node: a message arrives from a peer, the receive routine takes the next queued
  message or a timeout from the ticker, the application's answers change, the node is started
  or stopped. The routine runs between a start and a stop only.
\<close>

datatype core_event =
    EvRecv ConsensusMessage "Peer option"
  | EvMsg
  | EvTock timeoutInfo
  | EvApp ICommittee
  | EvStart
  | EvStop

text \<open>One turn of \<^verbatim>\<open>receiveRoutine\<close>, which copies the round state before it waits.\<close>

definition receiveRoutine_msg :: "Env \<Rightarrow> Core \<Rightarrow> Core outcome" where
  "receiveRoutine_msg env c =
     (case msgQueue c of
        [] \<Rightarrow> Inr c
      | mi # rest \<Rightarrow>
          and_then (handleMsg env mi (c\<lparr>msgQueue := rest\<rparr>)) (\<lambda>c1.
            Inr (c1\<lparr>msgCnt := wrap64 (msgCnt c1 + 1)\<rparr>)))"

definition receiveRoutine_tock :: "Env \<Rightarrow> timeoutInfo \<Rightarrow> Core \<Rightarrow> Core outcome" where
  "receiveRoutine_tock env ti c = handleTimeout env ti (GetRoundState c) c"

fun core_step :: "Env \<Rightarrow> core_event \<Rightarrow> Core \<Rightarrow> Core outcome" where
  "core_step env (EvRecv m p) c = Inr (snd (RecvMsg m p c))"
| "core_step env EvMsg c = (if started c then receiveRoutine_msg env c else Inr c)"
| "core_step env (EvTock ti) c =
     (if started c \<and> ti \<in> set (ticks c) then receiveRoutine_tock env ti c else Inr c)"
| "core_step env (EvApp V) c = Inr (c\<lparr>app := V\<rparr>)"
| "core_step env EvStart c = and_then (Start env c) (\<lambda>(err, c'). Inr c')"
| "core_step env EvStop c = Inr (snd (Stop c))"

end
