(* ===== verification/Commit_Props.thy ===== *)
theory Commit_Props
  imports Fixture
begin

text \<open>
  Commits: what their stateless validation accepts, and that the commit a vote set makes, once
  signed, is accepted and carries a quorum.
\<close>

section \<open>Validation\<close>

definition present :: "Vote option list \<Rightarrow> Vote list" where
  "present ps = concat (map (\<lambda>p. case p of None \<Rightarrow> [] | Some v \<Rightarrow> [v]) ps)"

lemma present_simps [simp]:
  "present [] = []" "present (None # ps) = present ps" "present (Some v # ps) = v # present ps"
  "present (map Some vs) = vs"
  by (simp_all add: present_def comp_def)

lemma set_present [simp]: "v \<in> set (present ps) \<longleftrightarrow> Some v \<in> set ps"
  by (induction ps) (auto split: option.splits simp: present_def)

definition fits_commit :: "Commit \<Rightarrow> int \<Rightarrow> int \<Rightarrow> Vote \<Rightarrow> bool" where
  "fits_commit c height round v \<longleftrightarrow>
     v_Type v = PrecommitType \<and> v_Height v = height \<and> v_Round v = round \<and> v_Prev v = c_Prev c \<and>
     v_Proposed v = c_ProposedData c"

lemma validate_precommits_iff:
  "validate_precommits c height round cache ps = None \<longleftrightarrow>
     list_all (fits_commit c height round) (present ps) \<and>
     distinct (map v_Address (present ps)) \<and> set cache \<inter> v_Address ` set (present ps) = {}"
proof (induction c height round cache ps rule: validate_precommits.induct)
  case (3 c height round cache p ps)
  show ?case
  proof (cases "fits_commit c height round p \<and> v_Address p \<notin> set cache")
    case True
    then have "validate_precommits c height round cache (Some p # ps) =
        validate_precommits c height round (v_Address p # cache) ps"
      by (simp add: fits_commit_def)
    with True 3 show ?thesis by (auto simp: fits_commit_def)
  next
    case False
    then have "validate_precommits c height round cache (Some p # ps) \<noteq> None"
      by (auto simp: fits_commit_def)
    with False show ?thesis by (auto simp: list_all_iff)
  qed
qed simp_all

lemma first_vote_present: "first_vote ps = (case present ps of [] \<Rightarrow> None | v # vs \<Rightarrow> Some v)"
  by (induction ps rule: first_vote.induct) auto

lemma Commit_ValidateBasic_iff:
  "Commit_ValidateBasic c = None \<longleftrightarrow>
     c_ProposedData c \<noteq> NilData \<and> c_Precommits c \<noteq> [] \<and> c_Address c \<noteq> [] \<and> c_Signature c \<noteq> [] \<and>
     validate_precommits c (Commit_Height c) (Commit_Round c) [] (c_Precommits c) = None"
  by (auto simp: Commit_ValidateBasic_def IsNil_def split: option.splits)

text \<open>A commit passes validation exactly when it is for non-nil data, is signed, and its non-nil
  precommits are precommits of one height and round for the commit's data and base, by different
  validators; a commit without precommits fails, a commit with nil precommits only passes.\<close>

theorem commit_validation_iff:
  "Commit_ValidateBasic c = None \<longleftrightarrow>
     c_ProposedData c \<noteq> NilData \<and> c_Precommits c \<noteq> [] \<and> c_Address c \<noteq> [] \<and> c_Signature c \<noteq> [] \<and>
     list_all (fits_commit c (Commit_Height c) (Commit_Round c)) (present (c_Precommits c)) \<and>
     distinct (map v_Address (present (c_Precommits c)))"
  unfolding Commit_ValidateBasic_iff validate_precommits_iff by auto


section \<open>Making a commit\<close>

lemma vs_wfD:
  assumes "vs_wf vs" and "getVote vs d k = Some v"
  shows "v_Address v = k" "v_Proposed v = d" "v_Prev v = vs_base vs" "v_Height v = vs_height vs"
    "v_Round v = vs_round vs" "v_Type v = vs_type vs"
  using assms unfolding vs_wf_def by blast+

lemma getAllVotes_spec:
  assumes "vs_wf vs" and "map_of (vs_votesByProposedData vs) d = Some b" and "is_order ord"
  shows "map v_Address (pdv_getAllVotes ord b) = ord (map fst (pdv_votes b))"
    and "set (pdv_getAllVotes ord b) = {v. \<exists>k. getVote vs d k = Some v}"
proof -
  have get: "getVote vs d k = map_of (pdv_votes b) k" for k
    using assms(2) by (simp add: getVote_def pdv_getVote_def)
  have key: "\<exists>v. map_of (pdv_votes b) k = Some v \<and> v_Address v = k"
    if mem: "k \<in> set (map fst (pdv_votes b))" for k
  proof -
    obtain v where v: "map_of (pdv_votes b) k = Some v"
      using mem by (cases "map_of (pdv_votes b) k") (auto simp: map_of_eq_None_iff)
    with vs_wfD(1) [OF assms(1), of d k v] show ?thesis by (simp add: get)
  qed
  have all: "pdv_getAllVotes ord b = map (\<lambda>k. the (map_of (pdv_votes b) k)) (ord (map fst (pdv_votes b)))"
    by (simp add: pdv_getAllVotes_def map_range_def comp_def)
  have "map v_Address (pdv_getAllVotes ord b) = map id (ord (map fst (pdv_votes b)))"
    unfolding all map_map by (rule map_cong) (use key assms(3) in force)+
  then show "map v_Address (pdv_getAllVotes ord b) = ord (map fst (pdv_votes b))" by simp
  have "k \<in> set (map fst (pdv_votes b)) \<longleftrightarrow> (\<exists>v. map_of (pdv_votes b) k = Some v)" for k
    using map_of_eq_None_iff [of "pdv_votes b" k] by auto
  then show "set (pdv_getAllVotes ord b) = {v. \<exists>k. getVote vs d k = Some v}"
    unfolding all get using assms(3) by (force simp: image_iff)
qed

lemma MakeCommit_Inr:
  assumes "MakeCommit ord (Some vs) = Inr k" and "vs_wf vs" and "is_range_order ord"
  obtains ps where "c_ProposedData k = vs_maj23 vs" "vs_maj23 vs \<noteq> NilData" "c_Prev k = vs_base vs"
    "c_Precommits k = map Some ps" "ps \<noteq> []" "distinct (map v_Address ps)"
    "\<And>v. v \<in> set ps \<longleftrightarrow> (\<exists>a. getVote vs (vs_maj23 vs) a = Some v)"
proof -
  let ?d = "vs_maj23 vs"
  obtain b p ps where d: "?d \<noteq> NilData" and b: "map_of (vs_votesByProposedData vs) ?d = Some b"
    and all: "pdv_getAllVotes (order_pk ord ?d) b = p # ps"
    and k: "k = \<lparr>c_ProposedData = ?d, c_Prev = v_Prev p, c_Precommits = map Some (p # ps), c_CommitTime = 0,
      c_Address = [], c_Signature = []\<rparr>"
    using assms(1) by (auto simp: MakeCommit_def split: if_splits option.splits list.splits)
  have ord: "is_order (order_pk ord ?d)" using assms(3) by (simp add: is_range_order_def)
  note spec = getAllVotes_spec [OF assms(2) b ord]
  have mem: "v \<in> set (p # ps) \<longleftrightarrow> (\<exists>a. getVote vs ?d a = Some v)" for v
    using spec(2) unfolding all by blast
  have "distinct (map v_Address (p # ps))"
    using spec(1) vs_wf_entry(2) [OF assms(2) b] ord unfolding all by simp
  moreover have "v_Prev p = vs_base vs" using mem [of p] vs_wfD(3) [OF assms(2)] by auto
  ultimately show thesis using d mem by (intro that [of "p # ps"]) (simp_all add: k)
qed

lemma MakeCommit_total:
  assumes "vs_wf vs" and "HasTwoThirdsMajority (Some vs)" and "is_range_order ord"
  shows "\<exists>k. MakeCommit ord (Some vs) = Inr k \<and> c_ProposedData k = vs_maj23 vs"
proof -
  have d: "vs_maj23 vs \<noteq> NilData" using assms(2) by (simp add: vs_defs)
  then have "vs_maj23 vs \<in> fst ` set (vs_votesByProposedData vs)" using assms(1) unfolding vs_wf_def by blast
  then obtain b where b: "map_of (vs_votesByProposedData vs) (vs_maj23 vs) = Some b"
    by (metis map_of_eq_None_iff not_None_eq)
  have "is_order (order_pk ord (vs_maj23 vs))" using assms(3) by (simp add: is_range_order_def)
  then have "pdv_getAllVotes (order_pk ord (vs_maj23 vs)) b \<noteq> []"
    using getAllVotes_spec(1) [OF assms(1) b] vs_wf_entry(1) [OF assms(1) b]
    by (metis is_order_length length_0_conv length_map)
  then show ?thesis using d b by (auto simp: MakeCommit_def neq_Nil_conv)
qed

text \<open>The address of every precommit of a commit, and the voting power behind it.\<close>

definition commit_power :: "ICommittee \<Rightarrow> Commit \<Rightarrow> int" where
  "commit_power V k = tally V (v_Address ` set (present (c_Precommits k)))"

lemma MakeCommit_voters:
  assumes "MakeCommit ord (Some vs) = Inr k" and "vs_wf vs" and "is_range_order ord"
  shows "v_Address ` set (present (c_Precommits k)) = voters vs (vs_maj23 vs)"
proof -
  obtain ps where ps: "c_Precommits k = map Some ps"
    and mem: "\<And>v. v \<in> set ps \<longleftrightarrow> (\<exists>a. getVote vs (vs_maj23 vs) a = Some v)"
    using MakeCommit_Inr [OF assms] by metis
  show ?thesis
    using mem vs_wfD(1) [OF assms(2)] unfolding ps voters_def by (force simp: image_iff)
qed

lemma MakeCommit_signed_valid:
  assumes "MakeCommit ord (Some vs) = Inr k0" and "vs_wf vs" and "is_range_order ord"
    and "vs_type vs = PrecommitType" and "PrivPubKey pv \<noteq> []" and "\<And>d. PrivSign pv d \<noteq> []"
    and "k = SignCommit cdc pv (k0\<lparr>c_CommitTime := t\<rparr>)"
  shows "Commit_ValidateBasic k = None" and "Commit_Height k = vs_height vs" and "Commit_Round k = vs_round vs"
    and "c_ProposedData k = vs_maj23 vs" and "c_Precommits k = c_Precommits k0"
proof -
  obtain ps where k0: "c_ProposedData k0 = vs_maj23 vs" "vs_maj23 vs \<noteq> NilData" "c_Prev k0 = vs_base vs"
    "c_Precommits k0 = map Some ps" "ps \<noteq> []" "distinct (map v_Address ps)"
    and mem: "\<And>v. v \<in> set ps \<longleftrightarrow> (\<exists>a. getVote vs (vs_maj23 vs) a = Some v)"
    using MakeCommit_Inr [OF assms(1-3)] by metis
  have fields: "c_ProposedData k = vs_maj23 vs" "c_Prev k = vs_base vs" "c_Precommits k = map Some ps"
    "c_Address k \<noteq> []" "c_Signature k \<noteq> []"
    using k0 assms(5,6) by (simp_all add: assms(7) SignCommit_eq)
  have fit: "v_Type v = PrecommitType \<and> v_Height v = vs_height vs \<and> v_Round v = vs_round vs \<and>
      v_Prev v = vs_base vs \<and> v_Proposed v = vs_maj23 vs" if "v \<in> set ps" for v
    using that mem vs_wfD [OF assms(2)] assms(4) by metis
  obtain p qs where ps: "ps = p # qs" using k0(5) by (cases ps) auto
  then have "FirstPrecommit k = Some p" by (simp add: FirstPrecommit_def fields)
  then show h: "Commit_Height k = vs_height vs" and r: "Commit_Round k = vs_round vs"
    using fit [of p] ps by (simp_all add: Commit_Height_def Commit_Round_def)
  show "c_ProposedData k = vs_maj23 vs" and "c_Precommits k = c_Precommits k0" using fields k0 by simp_all
  have "list_all (fits_commit k (Commit_Height k) (Commit_Round k)) ps"
    using fit by (simp add: list_all_iff fits_commit_def h r fields)
  then show "Commit_ValidateBasic k = None"
    using fields k0 unfolding Commit_ValidateBasic_iff validate_precommits_iff by simp
qed

text \<open>C14. When a vote set of precommits collected from any sequence of votes has a majority, a
  commit is made without a panic; signed, it passes validation, is for the majority's data at the
  set's height and round, and its precommits are by validators with more than two thirds of the
  voting power.\<close>

theorem made_commit_is_valid:
  assumes "collected V p votes vs" and "total_ok V" and "vs_type vs = PrecommitType"
    and "HasTwoThirdsMajority (Some vs)" and "is_range_order ord"
    and "PrivPubKey pv \<noteq> []" and "\<And>d. PrivSign pv d \<noteq> []"
  shows "\<exists>k0. MakeCommit ord (Some vs) = Inr k0 \<and>
    (let k = SignCommit cdc pv (k0\<lparr>c_CommitTime := t\<rparr>)
     in Commit_ValidateBasic k = None \<and> Commit_Height k = vs_height vs \<and> Commit_Round k = vs_round vs \<and>
        c_ProposedData k = vs_maj23 vs \<and> 2 * TotalVotingPower V < 3 * commit_power V k)"
proof -
  have wf: "vs_wf vs" by (rule collected_inv(1) [OF assms(1)])
  obtain k0 where k0: "MakeCommit ord (Some vs) = Inr k0"
    using MakeCommit_total [OF wf assms(4,5)] by blast
  note valid = MakeCommit_signed_valid [OF k0 wf assms(5) assms(3) assms(6,7) refl, of cdc t]
  have "TwoThirdsMajority (Some vs) = (vs_maj23 vs, True)" using assms(4) by (simp add: vs_defs)
  then have "2 * TotalVotingPower V < 3 * tally V (voters vs (vs_maj23 vs))"
    by (rule collected_majority_power [OF assms(1,2)])
  then show ?thesis
    using k0 valid MakeCommit_voters [OF k0 wf assms(5)] by (simp add: commit_power_def)
qed


definition fx_order :: range_order where
  "fx_order = \<lparr>order_pd = id, order_pk = (\<lambda>_. id)\<rparr>"

definition fx_codec :: Codec where
  "fx_codec = \<lparr>MustMarshalBinaryBare = (\<lambda>_. []), UnmarshalBinaryBare = (\<lambda>_. Inl ''no message'')\<rparr>"

lemma fx_range_order: "is_range_order fx_order"
  by (simp add: is_range_order_def is_order_def fx_order_def)

theorem made_commit_is_valid_witness:
  "\<exists>k0. MakeCommit fx_order (Some (fx_set3 PrecommitType)) = Inr k0 \<and>
    (let k = SignCommit fx_codec fx_priv (k0\<lparr>c_CommitTime := 9\<rparr>)
     in Commit_ValidateBasic k = None \<and> Commit_Height k = 1 \<and> Commit_Round k = 0 \<and>
        c_ProposedData k = fx_data \<and> 2 * 4 < 3 * commit_power fx_committee k)"
  using made_commit_is_valid [OF fx_collected3 [of PrecommitType] fx_total_ok _ _ fx_range_order, of fx_priv fx_codec 9]
  by (simp add: fx_set3_def fx_priv_def fx_total HasTwoThirdsMajority_def fx_data_def NilData_def)

end
