(* ===== verification/Protocol.thy ===== *)
theory Protocol
  imports Core_Model Commit_Props
begin

text \<open>
  The abstract protocol a node follows: a machine over the part of the state that matters for
  safety (position, proposal, lock, collected votes, votes sent, commits made) whose moves are
  the guarded steps of the algorithm. Its invariants are the safety rules of one node: votes are
  sent in the order of their positions, at most one for each; a non-nil precommit rests on a
  polka and keeps the node on its data until a later polka for other data.
\<close>

section \<open>Nodes and moves\<close>

record Node =
  n_key :: PubKey
  n_height :: int
  n_round :: int
  n_step :: RoundStepType
  n_proposal :: "ProposedData option"
  n_lock :: "(int \<times> ProposedData) option"
  n_votes :: "HeightVoteSet option"
  n_app :: ICommittee
  n_sent :: "Vote list"
  n_commits :: "Commit list"

definition n_pos :: "Node \<Rightarrow> HRS" where
  "n_pos n = HRS (n_height n) (n_round n) (n_step n)"

text \<open>\<open>polka n r d\<close>: the node has seen +2/3 prevotes for \<open>d\<close> in round \<open>r\<close> of its height.\<close>

definition polka :: "Node \<Rightarrow> int \<Rightarrow> ProposedData \<Rightarrow> bool" where
  "polka n r d \<longleftrightarrow> (\<exists>h. n_votes n = Some h \<and> TwoThirdsMajority (Prevotes r h) = (d, True))"

text \<open>\<open>sends t d n vs\<close>: at most one vote of type \<open>t\<close> for \<open>d\<close> at the node's height and round; a node
  outside the committee sends none.\<close>

definition sends :: "VoteType \<Rightarrow> ProposedData \<Rightarrow> Node \<Rightarrow> Vote list \<Rightarrow> bool" where
  "sends t d n vs \<longleftrightarrow>
     vs = [] \<or>
     (\<exists>v. vs = [v] \<and> v_Type v = t \<and> v_Height v = n_height n \<and> v_Round v = n_round n \<and> v_Proposed v = d \<and>
        v_Address v = n_key n)"

text \<open>The data a node may prevote: the locked one if there is a lock, else nil or the proposal its
  application approves.\<close>

definition prevote_rule :: "Node \<Rightarrow> ProposedData \<Rightarrow> bool" where
  "prevote_rule n d \<longleftrightarrow>
     (case n_lock n of Some (r, x) \<Rightarrow> d = x | None \<Rightarrow> d = NilData \<or> n_proposal n = Some d \<and> ValidateProposal (n_app n) d)"

text \<open>The moves of a node: \<open>A\<close> is the set of votes it may be given, \<open>F\<close> what the application may answer at
  a height.\<close>

inductive node_move :: "Vote set \<Rightarrow> (int \<Rightarrow> ICommittee \<Rightarrow> bool) \<Rightarrow> Node \<Rightarrow> Node \<Rightarrow> bool" for A F where
  new_round: "n_round n < r \<or> n_round n = r \<and> n_step n = RoundStepNewHeight \<Longrightarrow> n_votes n = Some h \<Longrightarrow>
    SetRound (wrap64 (r + 1)) h = Inr h' \<Longrightarrow>
    node_move A F n (n\<lparr>n_round := r, n_step := RoundStepNewRound,
      n_proposal := (if r = 0 then n_proposal n else None), n_votes := Some h'\<rparr>)"
| propose: "n_step n < RoundStepPropose \<Longrightarrow> sends ProposalType d n vs \<Longrightarrow>
    (\<And>r x. n_lock n = Some (r, x) \<Longrightarrow> d = x) \<Longrightarrow>
    node_move A F n (n\<lparr>n_step := RoundStepPropose, n_proposal := Some d, n_sent := n_sent n @ vs\<rparr>)"
| no_propose: "n_step n < RoundStepPropose \<Longrightarrow> node_move A F n (n\<lparr>n_step := RoundStepPropose\<rparr>)"
| set_proposal: "n_proposal n = None \<Longrightarrow> node_move A F n (n\<lparr>n_proposal := Some d\<rparr>)"
| drop_proposal: "n_proposal n = Some p \<Longrightarrow> polka n (n_round n) d \<Longrightarrow> p \<noteq> d \<Longrightarrow>
    node_move A F n (n\<lparr>n_proposal := None\<rparr>)"
| prevote: "n_step n < RoundStepPrevote \<Longrightarrow> sends PrevoteType d n vs \<Longrightarrow> prevote_rule n d \<Longrightarrow>
    node_move A F n (n\<lparr>n_step := RoundStepPrevoteFetch, n_sent := n_sent n @ vs\<rparr>)"
| prevote_wait: "n_step n < RoundStepPrevoteWait \<Longrightarrow> node_move A F n (n\<lparr>n_step := RoundStepPrevoteWait\<rparr>)"
| precommit_nil: "n_step n < RoundStepPrecommit \<Longrightarrow> sends PrecommitType NilData n vs \<Longrightarrow>
    (\<And>d. \<not> polka n (n_round n) d) \<Longrightarrow>
    node_move A F n (n\<lparr>n_step := RoundStepPrecommitFetch, n_sent := n_sent n @ vs\<rparr>)"
| precommit_lock: "n_step n < RoundStepPrecommit \<Longrightarrow> sends PrecommitType d n vs \<Longrightarrow>
    polka n (n_round n) d \<Longrightarrow> (\<exists>r. n_lock n = Some (r, d)) \<or> n_proposal n = Some d \<Longrightarrow>
    node_move A F n (n\<lparr>n_step := RoundStepPrecommitFetch, n_lock := Some (n_round n, d), n_sent := n_sent n @ vs\<rparr>)"
| precommit_unlock: "n_step n < RoundStepPrecommit \<Longrightarrow> sends PrecommitType NilData n vs \<Longrightarrow>
    polka n (n_round n) d \<Longrightarrow> (\<And>r. n_lock n \<noteq> Some (r, d)) \<Longrightarrow> n_proposal n \<noteq> Some d \<Longrightarrow>
    node_move A F n (n\<lparr>n_step := RoundStepPrecommitFetch, n_lock := None, n_sent := n_sent n @ vs\<rparr>)"
| precommit_wait: "n_step n < RoundStepPrecommitWait \<Longrightarrow> node_move A F n (n\<lparr>n_step := RoundStepPrecommitWait\<rparr>)"
| add_vote: "n_votes n = Some h \<Longrightarrow> v \<in> A \<Longrightarrow> hvs_AddVote (n_app n) v h = Inr (a, e, h') \<Longrightarrow>
    node_move A F n (n\<lparr>n_votes := Some h'\<rparr>)"
| new_app: "F (n_height n) V \<Longrightarrow> node_move A F n (n\<lparr>n_app := V\<rparr>)"
| unlock: "n_lock n = Some (lr, x) \<Longrightarrow> lr < r \<Longrightarrow> polka n r d \<Longrightarrow> d \<noteq> x \<Longrightarrow>
    node_move A F n (n\<lparr>n_lock := None\<rparr>)"
| commit: "n_step n < RoundStepCommit \<Longrightarrow> n_votes n = Some h \<Longrightarrow> is_range_order ord \<Longrightarrow>
    MakeCommit ord (Precommits r h) = Inr k0 \<Longrightarrow> PrivPubKey pv \<noteq> [] \<Longrightarrow> (\<And>d. PrivSign pv d \<noteq> []) \<Longrightarrow>
    k = SignCommit cdc pv (k0\<lparr>c_CommitTime := t\<rparr>) \<Longrightarrow>
    n_height n < height \<Longrightarrow> (F (n_height n) (n_app n) \<Longrightarrow> F height V) \<Longrightarrow> NewHeightVoteSet height b = Inr h' \<Longrightarrow>
    node_move A F n (n\<lparr>n_height := height, n_round := 0, n_step := RoundStepNewHeight, n_proposal := None,
      n_lock := None, n_votes := Some h', n_app := V, n_commits := n_commits n @ [k]\<rparr>)"

abbreviation node_moves :: "Vote set \<Rightarrow> (int \<Rightarrow> ICommittee \<Rightarrow> bool) \<Rightarrow> Node \<Rightarrow> Node \<Rightarrow> bool" where
  "node_moves A F \<equiv> (node_move A F)\<^sup>*\<^sup>*"


section \<open>Positions\<close>

lemma step_order [simp]:
  "RoundStepNewHeight < RoundStepNewRound" "RoundStepNewRound < RoundStepPropose"
  "RoundStepPropose < RoundStepPrevote" "RoundStepPrevote < RoundStepPrevoteFetch"
  "RoundStepPrevoteFetch < RoundStepPrevoteWait" "RoundStepPrevoteWait < RoundStepPrecommit"
  "RoundStepPrecommit < RoundStepPrecommitFetch" "RoundStepPrecommitFetch < RoundStepPrecommitWait"
  "RoundStepPrecommitWait < RoundStepCommit"
  by (simp_all add: step_defs)

lemma precommit_not_new_height [simp]: "\<not> RoundStepPrecommit \<le> RoundStepNewHeight"
  by (simp add: step_defs word_le_nat_alt)

lemma step_weaken:
  "s < RoundStepPrevote \<Longrightarrow> s \<le> RoundStepPrevoteFetch"
  "s < RoundStepPrecommit \<Longrightarrow> s \<le> RoundStepPrecommitFetch"
  by (simp_all add: step_defs word_less_nat_alt word_le_nat_alt)

text \<open>Every move that is not about votes or proposals moves the position forward.\<close>

lemma node_move_pos: "node_move A F n n' \<Longrightarrow> n_pos n \<le> n_pos n'"
  by (induction rule: node_move.induct)
     (auto simp: n_pos_def HRS_le step_weaken less_imp_le)

lemma node_moves_pos: "node_moves A F n n' \<Longrightarrow> n_pos n \<le> n_pos n'"
  by (induction rule: rtranclp_induct) (auto dest: node_move_pos)

text \<open>The position a vote is sent at.\<close>

definition vote_step :: "VoteType \<Rightarrow> RoundStepType" where
  "vote_step t = (if t = ProposalType then RoundStepPropose else if t = PrevoteType then RoundStepPrevote
                  else RoundStepPrecommit)"

definition vote_pos :: "Vote \<Rightarrow> HRS" where
  "vote_pos v = HRS (v_Height v) (v_Round v) (vote_step (v_Type v))"

lemma vote_step_simps [simp]:
  "vote_step ProposalType = RoundStepPropose" "vote_step PrevoteType = RoundStepPrevote"
  "vote_step PrecommitType = RoundStepPrecommit"
  by (simp_all add: vote_step_def)

lemma sends_pos:
  assumes "sends t d n vs" and "v \<in> set vs"
  shows "vs = [v]" and "vote_pos v = HRS (n_height n) (n_round n) (vote_step t)" and "v_Type v = t"
    and "v_Proposed v = d" and "v_Height v = n_height n" and "v_Round v = n_round n"
  using assms by (auto simp: sends_def vote_pos_def)

text \<open>Votes are sent in strictly increasing positions, none beyond the node's.\<close>

definition ordered_sent :: "Node \<Rightarrow> bool" where
  "ordered_sent n \<longleftrightarrow>
     sorted_wrt (<) (map vote_pos (n_sent n)) \<and> (\<forall>v \<in> set (n_sent n). vote_pos v \<le> n_pos n)"

lemma ordered_sent_append:
  assumes "ordered_sent n" and "sends t d n vs" and "n_step n < vote_step t" and "vote_step t \<le> n_step n'"
    and "n_height n' = n_height n" and "n_round n' = n_round n" and "n_sent n' = n_sent n @ vs"
  shows "ordered_sent n'"
proof -
  let ?p = "HRS (n_height n) (n_round n) (vote_step t)"
  have "n_pos n < ?p" and le: "?p \<le> n_pos n'" and "n_pos n \<le> n_pos n'"
    using assms(3-6) by (auto simp: n_pos_def HRS_less HRS_le)
  then have old: "vote_pos v < ?p \<and> vote_pos v \<le> n_pos n'" if "v \<in> set (n_sent n)" for v
    using assms(1) that by (auto simp: ordered_sent_def intro: le_less_trans order_trans)
  show ?thesis
    using assms(1,2,7) old le by (auto simp: ordered_sent_def sorted_wrt_append sends_def vote_pos_def)
qed

lemma ordered_sent_same:
  "ordered_sent n \<Longrightarrow> n_sent n' = n_sent n \<Longrightarrow> n_pos n \<le> n_pos n' \<Longrightarrow> ordered_sent n'"
  by (auto simp: ordered_sent_def intro: order_trans)

lemma node_move_ordered:
  assumes "node_move A F n n'" and "ordered_sent n"
  shows "ordered_sent n'"
  using assms(1)
proof (cases rule: node_move.cases)
  case (propose d vs)
  then show ?thesis by (intro ordered_sent_append [OF assms(2) propose(3)]) simp_all
next
  case (prevote d vs)
  then show ?thesis by (intro ordered_sent_append [OF assms(2) prevote(3)]) (simp_all add: less_imp_le)
next
  case (precommit_nil vs)
  then show ?thesis by (intro ordered_sent_append [OF assms(2) precommit_nil(3)]) (simp_all add: less_imp_le)
next
  case (precommit_lock d vs)
  then show ?thesis by (intro ordered_sent_append [OF assms(2) precommit_lock(3)]) (simp_all add: less_imp_le)
next
  case (precommit_unlock vs d)
  then show ?thesis by (intro ordered_sent_append [OF assms(2) precommit_unlock(3)]) (simp_all add: less_imp_le)
qed (use assms(2) node_move_pos [OF assms(1)] in \<open>auto elim!: ordered_sent_same\<close>)


section \<open>Polkas stay\<close>

definition votes_ok :: "Node \<Rightarrow> bool" where
  "votes_ok n \<longleftrightarrow> (\<forall>h. n_votes n = Some h \<longrightarrow> hvs_shape h \<and> hvs_height h = n_height n)"

lemma NewHeightVoteSet_shape:
  assumes "NewHeightVoteSet height b = Inr h"
  shows "hvs_shape h" and "hvs_height h = height"
proof -
  have "height \<noteq> 0"
  proof
    assume "height = 0"
    with assms show False
      by (simp add: NewHeightVoteSet_def hvs_Reset_def hvs_addRound_def NewVoteSet_def)
  qed
  from NewHeightVoteSet_spec [OF this, of b] assms show "hvs_shape h" and "hvs_height h = height"
    by (auto simp: hvs_wf_def)
qed

lemma hvs_AddVote_height:
  assumes "hvs_AddVote V v h = Inr (a, e, h')" and "hvs_shape h"
  shows "hvs_height h' = hvs_height h"
proof -
  have h: "hvs_height h \<noteq> 0" using assms(2) by (simp add: hvs_shape_def)
  with assms(1) show ?thesis by (cases rule: hvs_AddVote_Inr) (simp_all add: hvs_with_simps(1) [OF h])
qed

lemma SetRound_height: "SetRound r h = Inr h' \<Longrightarrow> hvs_shape h \<Longrightarrow> hvs_height h' = hvs_height h"
  using SetRound_Inr(2) [of r h h'] by (simp add: hvs_shape_def extends_to_def)

lemma node_move_votes_ok: "node_move A F n n' \<Longrightarrow> votes_ok n \<Longrightarrow> votes_ok n'"
  by (induction rule: node_move.induct)
     (auto simp: votes_ok_def NewHeightVoteSet_shape hvs_AddVote_height SetRound_height
       intro: hvs_store.add_inv hvs_store.track_inv)

lemma polka_move:
  assumes "node_move A F n n'" and "votes_ok n" and "n_height n' = n_height n" and "polka n r d"
  shows "polka n' r d"
  using assms(1)
proof (cases rule: node_move.cases)
  case (new_round r' h h')
  with assms(2,4) hvs_store.track_majority [of h] show ?thesis
    by (auto simp: votes_ok_def polka_def Prevotes_lookup)
next
  case (add_vote h v a e h')
  with assms(2,4) hvs_store.add_majority [of h] show ?thesis
    by (auto simp: votes_ok_def polka_def Prevotes_lookup)
qed (use assms(3,4) in \<open>auto simp: polka_def\<close>)

lemma node_move_height: "node_move A F n n' \<Longrightarrow> n_height n \<le> n_height n'"
  using node_move_pos [of A F n n'] by (auto simp: n_pos_def HRS_le)


section \<open>Locks\<close>

definition overridden :: "Node \<Rightarrow> int \<Rightarrow> ProposedData \<Rightarrow> bool" where
  "overridden n r d \<longleftrightarrow> (\<exists>r' d'. r < r' \<and> d' \<noteq> d \<and> polka n r' d')"

text \<open>\<open>kept n r d\<close>: the node is still locked on \<open>d\<close> since round \<open>r\<close> or later, or a polka for other
  data of a later round has released it.\<close>

definition kept :: "Node \<Rightarrow> int \<Rightarrow> ProposedData \<Rightarrow> bool" where
  "kept n r d \<longleftrightarrow> (\<exists>lr. r \<le> lr \<and> n_lock n = Some (lr, d)) \<or> overridden n r d"

definition lock_ok :: "Node \<Rightarrow> bool" where
  "lock_ok n \<longleftrightarrow> (\<forall>lr d. n_lock n = Some (lr, d) \<longrightarrow>
     lr \<le> n_round n \<and> (lr = n_round n \<longrightarrow> RoundStepPrecommit \<le> n_step n) \<and> polka n lr d)"

definition precommits_ok :: "Node \<Rightarrow> bool" where
  "precommits_ok n \<longleftrightarrow>
     (\<forall>v \<in> set (n_sent n). v_Height v = n_height n \<longrightarrow> v_Type v = PrecommitType \<longrightarrow> v_Proposed v \<noteq> NilData \<longrightarrow>
        polka n (v_Round v) (v_Proposed v) \<and> kept n (v_Round v) (v_Proposed v))"

definition prevotes_ok :: "Node \<Rightarrow> bool" where
  "prevotes_ok n \<longleftrightarrow>
     (\<forall>pc \<in> set (n_sent n). \<forall>pv \<in> set (n_sent n).
        v_Height pc = n_height n \<longrightarrow> v_Height pv = n_height n \<longrightarrow>
        v_Type pc = PrecommitType \<longrightarrow> v_Type pv = PrevoteType \<longrightarrow> v_Proposed pc \<noteq> NilData \<longrightarrow>
        v_Round pc < v_Round pv \<longrightarrow> v_Proposed pv \<noteq> v_Proposed pc \<longrightarrow>
        overridden n (v_Round pc) (v_Proposed pc))"

text \<open>One valid commit per height, in increasing order, all below the node's height.\<close>

definition commits_ok :: "Node \<Rightarrow> bool" where
  "commits_ok n \<longleftrightarrow>
     sorted_wrt (<) (map Commit_Height (n_commits n)) \<and>
     (\<forall>k \<in> set (n_commits n). Commit_Height k < n_height n \<and> Commit_ValidateBasic k = None)"

definition node_inv :: "Node \<Rightarrow> bool" where
  "node_inv n \<longleftrightarrow>
     votes_ok n \<and> ordered_sent n \<and> lock_ok n \<and> precommits_ok n \<and> prevotes_ok n \<and> commits_ok n"

definition sent_rule :: "VoteType \<Rightarrow> ProposedData \<Rightarrow> Node \<Rightarrow> Node \<Rightarrow> bool" where
  "sent_rule t d n n' \<longleftrightarrow>
     n_height n' = n_height n \<and> n_round n' = n_round n \<and> (t = PrevoteType \<longrightarrow> prevote_rule n d) \<and>
     (t = PrecommitType \<longrightarrow> d \<noteq> NilData \<longrightarrow> polka n (n_round n) d \<and> n_lock n' = Some (n_round n, d))"

lemma move_sends:
  assumes "node_move A F n n'"
  shows "n_sent n' = n_sent n \<or> (\<exists>t d vs. n_sent n' = n_sent n @ vs \<and> sends t d n vs \<and> sent_rule t d n n')"
  using assms
proof (cases rule: node_move.cases)
  case (propose d vs)
  then have "sent_rule ProposalType d n n'" by (simp add: sent_rule_def)
  with propose show ?thesis by auto
next
  case (prevote d vs)
  then have "sent_rule PrevoteType d n n'" by (simp add: sent_rule_def)
  with prevote show ?thesis by auto
next
  case (precommit_nil vs)
  then have "sent_rule PrecommitType NilData n n'" by (simp add: sent_rule_def)
  with precommit_nil show ?thesis by auto
next
  case (precommit_lock d vs)
  then have "sent_rule PrecommitType d n n'" by (simp add: sent_rule_def)
  with precommit_lock(1,3) show ?thesis by auto
next
  case (precommit_unlock vs d)
  then have "sent_rule PrecommitType NilData n n'" by (simp add: sent_rule_def)
  with precommit_unlock(1,3) show ?thesis by auto
qed simp_all

lemma sent_cases:
  assumes "node_move A F n n'" and "v \<in> set (n_sent n')"
  obtains (old) "v \<in> set (n_sent n)"
  | (new) "v_Height v = n_height n" "v_Round v = n_round n" "sent_rule (v_Type v) (v_Proposed v) n n'"
  using move_sends [OF assms(1)] assms(2) by (auto simp: sends_def)

lemma overridden_move:
  "node_move A F n n' \<Longrightarrow> votes_ok n \<Longrightarrow> n_height n' = n_height n \<Longrightarrow> overridden n r d \<Longrightarrow> overridden n' r d"
  unfolding overridden_def using polka_move by blast

lemma kept_move:
  assumes "node_move A F n n'" and "votes_ok n" and "lock_ok n" and "n_height n' = n_height n" and "kept n r d"
  shows "kept n' r d"
proof (cases "overridden n r d")
  case True
  with overridden_move [OF assms(1,2,4)] show ?thesis by (simp add: kept_def)
next
  case False
  then obtain lr where lr: "r \<le> lr" "n_lock n = Some (lr, d)" using assms(5) by (auto simp: kept_def)
  have earlier: "lr < n_round n" if "n_step n < RoundStepPrecommit"
    using assms(3) lr(2) that by (fastforce simp: lock_ok_def)
  have over: "overridden n r d" if "polka n r' d'" "lr < r'" "d' \<noteq> d" for r' d'
    using that lr(1) unfolding overridden_def by (meson le_less_trans)
  from assms(1) show ?thesis
  proof (cases rule: node_move.cases)
    case (precommit_lock d' vs)
    with lr earlier over False show ?thesis by (cases "d' = d") (auto simp: kept_def)
  next
    case (precommit_unlock vs d')
    with lr earlier over False show ?thesis by (cases "d' = d") auto
  next
    case (unlock lr' x r' d')
    with lr over False show ?thesis by auto
  next
    case commit
    with assms(4) show ?thesis by simp
  qed (use lr in \<open>auto simp: kept_def\<close>)
qed

lemma lock_ok_move:
  assumes "node_move A F n n'" and "votes_ok n" and "lock_ok n"
  shows "lock_ok n'"
proof (cases "n_height n' = n_height n")
  case True
  note p = polka_move [OF assms(1,2) True]
  from assms(1) show ?thesis
  proof (cases rule: node_move.cases)
    case (new_round r h h')
    have "lr \<le> r \<and> lr \<noteq> r" if "n_lock n = Some (lr, d)" for lr d
      using assms(3) that new_round(2) by (auto simp: lock_ok_def)
    with new_round assms(3) p show ?thesis by (simp add: lock_ok_def)
  next
    case (precommit_lock d vs)
    with p show ?thesis by (auto simp: lock_ok_def less_imp_le)
  qed (use assms(3) p True in \<open>auto simp: lock_ok_def step_weaken dest: less_imp_le\<close>)
next
  case False
  with assms(1) show ?thesis by (cases rule: node_move.cases) (auto simp: lock_ok_def)
qed


lemma ordered_sentD:
  assumes "ordered_sent n" and "v \<in> set (n_sent n)"
  shows "v_Height v \<le> n_height n" and "v_Height v = n_height n \<Longrightarrow> v_Round v \<le> n_round n"
  using assms by (auto simp: ordered_sent_def vote_pos_def n_pos_def HRS_le)

text \<open>Where the height changes no vote of the new height has been sent.\<close>

lemma new_height_sent:
  assumes "node_move A F n n'" and "ordered_sent n" and "n_height n' \<noteq> n_height n" and "v \<in> set (n_sent n')"
  shows "v_Height v \<noteq> n_height n'"
proof -
  have "n_height n < n_height n'" using node_move_height [OF assms(1)] assms(3) by simp
  with assms show ?thesis
    by (cases rule: sent_cases [OF assms(1,4)]) (auto simp: sent_rule_def dest: ordered_sentD(1))
qed

lemma precommits_ok_move:
  assumes "node_move A F n n'" and "node_inv n"
  shows "precommits_ok n'"
  unfolding precommits_ok_def
proof (intro ballI impI)
  fix v assume v: "v \<in> set (n_sent n')" "v_Height v = n_height n'" "v_Type v = PrecommitType" "v_Proposed v \<noteq> NilData"
  have inv: "votes_ok n" "ordered_sent n" "lock_ok n" "precommits_ok n" using assms(2) by (simp_all add: node_inv_def)
  have h: "n_height n' = n_height n" using new_height_sent [OF assms(1) inv(2) _ v(1)] v(2) by blast
  note p = polka_move [OF assms(1) inv(1) h]
  from assms(1) v(1) show "polka n' (v_Round v) (v_Proposed v) \<and> kept n' (v_Round v) (v_Proposed v)"
  proof (cases rule: sent_cases)
    case old
    with inv(4) v h have "polka n (v_Round v) (v_Proposed v)" "kept n (v_Round v) (v_Proposed v)"
      by (simp_all add: precommits_ok_def)
    with p kept_move [OF assms(1) inv(1,3) h] show ?thesis by blast
  next
    case new
    with v p show ?thesis by (auto simp: sent_rule_def kept_def)
  qed
qed

lemma prevotes_ok_move:
  assumes "node_move A F n n'" and "node_inv n"
  shows "prevotes_ok n'"
  unfolding prevotes_ok_def
proof (intro ballI impI)
  fix pc pv assume pc: "pc \<in> set (n_sent n')" and pv: "pv \<in> set (n_sent n')"
    and hs: "v_Height pc = n_height n'" "v_Height pv = n_height n'"
    and ts: "v_Type pc = PrecommitType" "v_Type pv = PrevoteType"
    and ds: "v_Proposed pc \<noteq> NilData" "v_Proposed pv \<noteq> v_Proposed pc" and r: "v_Round pc < v_Round pv"
  have inv: "votes_ok n" "ordered_sent n" "precommits_ok n" "prevotes_ok n"
    using assms(2) by (simp_all add: node_inv_def)
  have h: "n_height n' = n_height n" using new_height_sent [OF assms(1) inv(2) _ pc] hs(1) by blast
  note o = overridden_move [OF assms(1) inv(1) h]
  have old: "pc \<in> set (n_sent n)"
    using assms(1) pc
  proof (cases rule: sent_cases)
    case new
    have "v_Round pv \<le> n_round n"
      using assms(1) pv by (cases rule: sent_cases) (use ordered_sentD(2) [OF inv(2), of pv] hs h in simp_all)
    with new r show ?thesis by simp
  qed
  from assms(1) pv show "overridden n' (v_Round pc) (v_Proposed pc)"
  proof (cases rule: sent_cases)
    case old': old
    have "overridden n (v_Round pc) (v_Proposed pc)"
      using inv(4) old old' hs ts ds r h unfolding prevotes_ok_def by metis
    with o show ?thesis by blast
  next
    case new
    then have "prevote_rule n (v_Proposed pv)" using ts by (simp add: sent_rule_def)
    moreover have "kept n (v_Round pc) (v_Proposed pc)" using inv(3) old hs ts ds h by (simp add: precommits_ok_def)
    ultimately have "overridden n (v_Round pc) (v_Proposed pc)" using ds by (auto simp: prevote_rule_def kept_def)
    with o show ?thesis by blast
  qed
qed

lemma commits_ok_move:
  assumes "node_move A F n n'" and "votes_ok n" and "commits_ok n"
  shows "commits_ok n'"
  using assms(1)
proof (cases rule: node_move.cases)
  case (commit h ord r k0 pv k cdc t height V b h')
  from commit(5) obtain vs where vs: "Precommits r h = Some vs"
    by (cases "Precommits r h") (auto simp: MakeCommit_def)
  have "hvs_shape h" "hvs_height h = n_height n" using assms(2) commit(3) by (simp_all add: votes_ok_def)
  then have "vs_wf vs" "vs_type vs = PrecommitType" "vs_height vs = n_height n"
    using vs hvs_shapeD [of h r PrecommitType vs] by (simp_all add: Precommits_lookup)
  with MakeCommit_signed_valid [of ord vs k0 pv k cdc t] commit vs
  have "Commit_ValidateBasic k = None" "Commit_Height k = n_height n" by simp_all
  with commit(1,9) assms(3) show ?thesis by (auto simp: commits_ok_def sorted_wrt_append)
qed (use assms(3) in \<open>auto simp: commits_ok_def\<close>)

lemma node_inv_move:
  assumes "node_move A F n n'" and "node_inv n"
  shows "node_inv n'"
proof -
  have inv: "votes_ok n" "ordered_sent n" "lock_ok n" "commits_ok n" using assms(2) by (simp_all add: node_inv_def)
  from node_move_votes_ok [OF assms(1) inv(1)] node_move_ordered [OF assms(1) inv(2)]
    lock_ok_move [OF assms(1) inv(1,3)] commits_ok_move [OF assms(1) inv(1,4)]
    precommits_ok_move [OF assms] prevotes_ok_move [OF assms]
  show ?thesis by (simp add: node_inv_def)
qed

lemma node_inv_moves: "node_moves A F n n' \<Longrightarrow> node_inv n \<Longrightarrow> node_inv n'"
  by (induction rule: rtranclp_induct) (auto dest: node_inv_move)

end
