(* ===== verification/Core_Refines.thy ===== *)
theory Core_Refines
  imports Protocol
begin

text \<open>
  The core implements the abstract protocol: every handler, and so every step of a running node,
  is simulated by a sequence of moves of the node that the core's state represents.
\<close>

section \<open>The node a core represents\<close>

definition votes_in :: "app_call list \<Rightarrow> Vote list" where
  "votes_in calls = concat (map (\<lambda>a. case a of BroadCast (MVote v) \<Rightarrow> [v] | _ \<Rightarrow> []) calls)"

definition commits_in :: "app_call list \<Rightarrow> Commit list" where
  "commits_in calls = concat (map (\<lambda>a. case a of CommitCall k \<Rightarrow> [k] | _ \<Rightarrow> []) calls)"

lemma votes_in_simps [simp]:
  "votes_in [] = []" "votes_in (xs @ ys) = votes_in xs @ votes_in ys"
  "votes_in [BroadCast (MVote v)] = [v]" "votes_in [BroadCast (MCommit k)] = []"
  "votes_in [Send m p] = []" "votes_in [CommitCall k] = []"
  by (simp_all add: votes_in_def)

lemma commits_in_simps [simp]:
  "commits_in [] = []" "commits_in (xs @ ys) = commits_in xs @ commits_in ys"
  "commits_in [BroadCast m] = []" "commits_in [Send m p] = []" "commits_in [CommitCall k] = [k]"
  by (simp_all add: commits_in_def)

definition lock_of :: "int \<Rightarrow> Vote option \<Rightarrow> (int \<times> ProposedData) option" where
  "lock_of lr lp =
     (case lp of None \<Rightarrow> None | Some v \<Rightarrow> if lr \<ge> 0 then Some (lr, v_Proposed v) else None)"

lemma lock_of_None [simp]: "lock_of lr None = None"
  by (simp add: lock_of_def)

definition node_of :: "Env \<Rightarrow> Core \<Rightarrow> Node" where
  "node_of env c =
     \<lparr>n_key = PrivPubKey (privVal env), n_height = Height c, n_round = Round c, n_step = Step c,
      n_proposal = map_option v_Proposed (Proposal c), n_lock = lock_of (LockedRound c) (LockedProposal c), n_votes = Votes c,
      n_app = app c,
      n_sent = votes_in (outbox c), n_commits = commits_in (outbox c)\<rparr>"

definition c_pos :: "Core \<Rightarrow> HRS" where
  "c_pos c = HRS (Height c) (Round c) (Step c)"

text \<open>The steps timeouts are scheduled for.\<close>

definition timeout_steps :: "RoundStepType set" where
  "timeout_steps = {RoundStepNewHeight, RoundStepPropose, RoundStepPrevoteFetch, RoundStepPrevoteWait,
     RoundStepPrecommitFetch, RoundStepPrecommitWait}"

text \<open>
  What the simulation needs of the state: no scheduled timeout is ahead of the position, the
  test hook is not set, and heights and rounds are in range.
\<close>

definition safe :: "Core \<Rightarrow> bool" where
  "safe c \<longleftrightarrow>
     0 < Height c \<and> 0 \<le> Round c \<and> byzantinePrevote c = None \<and>
     (\<forall>ti \<in> set (ticks c). ti_hrs ti \<le> c_pos c \<and> ti_Step ti \<in> timeout_steps)"

text \<open>What it needs of the parameters: map iterations visit every key once, the node has a name
  and its signatures are not empty, and the application has a state after every commit.\<close>

definition env_ok :: "Env \<Rightarrow> bool" where
  "env_ok env \<longleftrightarrow>
     (\<forall>n. is_range_order (map_order env n)) \<and> PrivPubKey (privVal env) \<noteq> [] \<and>
     (\<forall>d. PrivSign (privVal env) d \<noteq> []) \<and>
     (\<forall>n k V. \<exists>st. GetAppState (AppCommit env n k V) = Some st \<and> LastHeight st < max_int64)"

text \<open>\<open>env_fits F env\<close>: an application that answers as \<open>F\<close> allows does so at the next height after a commit.\<close>

definition env_fits :: "(int \<Rightarrow> ICommittee \<Rightarrow> bool) \<Rightarrow> Env \<Rightarrow> bool" where
  "env_fits F env \<longleftrightarrow>
     (\<forall>n k h V st. F h V \<longrightarrow> GetAppState (AppCommit env n k V) = Some st \<longrightarrow> F (LastHeight st + 1) (AppCommit env n k V))"

lemma env_fits_True [simp]: "env_fits (\<lambda>_ _. True) env"
  by (simp add: env_fits_def)

text \<open>\<open>grows c c'\<close>: what a core has broadcast stays broadcast, and what it puts into its own queue it has
  broadcast.\<close>

definition own_votes :: "Core \<Rightarrow> msgInfo set" where
  "own_votes c = {mi. \<exists>v \<in> set (votes_in (outbox c)). mi_Msg mi = MVote v}"

definition grows :: "Core \<Rightarrow> Core \<Rightarrow> bool" where
  "grows c c' \<longleftrightarrow>
     set (votes_in (outbox c)) \<subseteq> set (votes_in (outbox c')) \<and> set (msgQueue c') \<subseteq> set (msgQueue c) \<union> own_votes c'"

lemma grows_refl [simp]: "grows c c"
  by (simp add: grows_def)

lemma grows_trans: "grows a b \<Longrightarrow> grows b c \<Longrightarrow> grows a c"
  unfolding grows_def own_votes_def by blast

lemma grows_update [simp]:
  "grows c (c'\<lparr>Round := r\<rparr>) = grows c c'" "grows c (c'\<lparr>Step := st\<rparr>) = grows c c'"
  "grows c (c'\<lparr>inFetch := b\<rparr>) = grows c c'" "grows c (c'\<lparr>ticks := ts\<rparr>) = grows c c'"
  "grows c (c'\<lparr>Proposal := p\<rparr>) = grows c c'" "grows c (c'\<lparr>reads := n\<rparr>) = grows c c'"
  "grows c (c'\<lparr>Votes := vs\<rparr>) = grows c c'"
  by (simp_all add: grows_def own_votes_def)

lemma grows_same:
  assumes "grows c c1" and "msgQueue c' = msgQueue c1" and "votes_in (outbox c') = votes_in (outbox c1)"
  shows "grows c c'"
  using assms by (simp add: grows_def own_votes_def)

lemma grows_frame:
  assumes "set (msgQueue c') \<subseteq> set (msgQueue c)" and "votes_in (outbox c') = votes_in (outbox c)"
  shows "grows c c'"
  using assms by (auto simp: grows_def)

definition sim :: "Env \<Rightarrow> Vote set \<Rightarrow> (int \<Rightarrow> ICommittee \<Rightarrow> bool) \<Rightarrow> Core \<Rightarrow> Core \<Rightarrow> bool" where
  "sim env A F c c' \<longleftrightarrow> grows c c' \<and> (safe c \<longrightarrow> safe c' \<and> node_moves A F (node_of env c) (node_of env c'))"

abbreviation sim_any :: "Env \<Rightarrow> Core \<Rightarrow> Core \<Rightarrow> bool" where
  "sim_any env \<equiv> sim env UNIV (\<lambda>_ _. True)"

abbreviation any_moves :: "Node \<Rightarrow> Node \<Rightarrow> bool" where
  "any_moves \<equiv> node_moves UNIV (\<lambda>_ _. True)"

lemma sim_refl [simp, intro]: "sim env A F c c"
  by (simp add: sim_def grows_def)

lemma sim_trans [trans]: "sim env A F a b \<Longrightarrow> sim env A F b c \<Longrightarrow> sim env A F a c"
  using grows_trans by (auto simp: sim_def)

lemma simI:
  assumes "grows c c'" and "safe c \<Longrightarrow> safe c'" and "safe c \<Longrightarrow> node_of env c' = node_of env c \<or> node_move A F (node_of env c) (node_of env c')"
  shows "sim env A F c c'"
  using assms by (auto simp: sim_def)

lemma safe_later:
  assumes "safe c" and "c_pos c \<le> c_pos c'" and "ticks c' = ticks c @ new" and "0 < Height c'" and "0 \<le> Round c'"
    and "byzantinePrevote c' = byzantinePrevote c"
    and "\<forall>ti \<in> set new. ti_hrs ti \<le> c_pos c' \<and> ti_Step ti \<in> timeout_steps"
  shows "safe c'"
  using assms by (auto simp: safe_def intro: order_trans)

text \<open>A move within the round that schedules timeouts for the step it reaches.\<close>

lemma sim_stage:
  assumes "Height c' = Height c" and "Round c' = Round c" and "Step c \<le> Step c'"
    and "byzantinePrevote c' = byzantinePrevote c"
    and "\<exists>new. ticks c' = ticks c @ new \<and>
      list_all (\<lambda>ti. ti_Height ti = Height c \<and> ti_Round ti = Round c \<and> ti_Step ti \<le> Step c' \<and>
        ti_Step ti \<in> timeout_steps) new"
    and "grows c c'" and "safe c \<Longrightarrow> node_move A F (node_of env c) (node_of env c')"
  shows "sim env A F c c'"
proof (rule simI)
  from assms(5) obtain new where ticks: "ticks c' = ticks c @ new"
    and new: "list_all (\<lambda>ti. ti_Height ti = Height c \<and> ti_Round ti = Round c \<and> ti_Step ti \<le> Step c' \<and>
        ti_Step ti \<in> timeout_steps) new" by blast
  show "safe c'" if s: "safe c"
  proof (rule safe_later [OF s _ ticks])
    show "c_pos c \<le> c_pos c'" using assms(1-3) by (simp add: c_pos_def HRS_le)
    show "\<forall>ti \<in> set new. ti_hrs ti \<le> c_pos c' \<and> ti_Step ti \<in> timeout_steps"
      using assms(1,2) new by (simp add: c_pos_def ti_hrs_def HRS_le list_all_iff)
  qed (use s assms(1,2,4) in \<open>simp_all add: safe_def\<close>)
qed (use assms(6,7) in simp_all)

text \<open>Changes the node does not see.\<close>

lemma sim_silent:
  assumes "node_of env c' = node_of env c" and "ticks c' = ticks c" and "byzantinePrevote c' = byzantinePrevote c"
    and "set (msgQueue c') \<subseteq> set (msgQueue c)"
  shows "sim env A F c c'"
proof (rule simI)
  show "grows c c'" using assms(1,4) by (intro grows_frame) (simp_all add: node_of_def)
  have "Height c' = Height c" "Round c' = Round c" "Step c' = Step c"
    using assms(1) by (simp_all add: node_of_def)
  then show "safe c \<Longrightarrow> safe c'" using assms(2,3) by (simp add: safe_def c_pos_def)
qed (use assms in simp)


section \<open>Frames\<close>

lemmas update_defs = updateRoundStep_def scheduleTimeout_def call_app_def next_read_def

lemma signAddVote_frame [simp]:
  "Height (signAddVote env v c) = Height c" "Round (signAddVote env v c) = Round c"
  "Step (signAddVote env v c) = Step c" "Proposal (signAddVote env v c) = Proposal c"
  "LockedRound (signAddVote env v c) = LockedRound c" "LockedProposal (signAddVote env v c) = LockedProposal c"
  "Votes (signAddVote env v c) = Votes c" "ticks (signAddVote env v c) = ticks c"
  "byzantinePrevote (signAddVote env v c) = byzantinePrevote c" "app (signAddVote env v c) = app c"
  "cfg (signAddVote env v c) = cfg c" "CommitRound (signAddVote env v c) = CommitRound c"
  "started (signAddVote env v c) = started c" "lastCommittedData (signAddVote env v c) = lastCommittedData c"
  "LastCommit (signAddVote env v c) = LastCommit c" "reads (signAddVote env v c) = reads c"
  by (simp_all add: signAddVote_def sendInternalMessage_def call_app_def Let_def)

text \<open>The vote a member of the committee sends.\<close>

definition voted :: "Env \<Rightarrow> Vote \<Rightarrow> ICommittee \<Rightarrow> Vote list" where
  "voted env v V = (if IsValidator V (GetSelfPubKey (privVal env)) then [SignVote (privVal env) v] else [])"

lemma signAddVote_sent [simp]:
  "votes_in (outbox (signAddVote env v c)) = votes_in (outbox c) @ voted env v (app c)"
  "commits_in (outbox (signAddVote env v c)) = commits_in (outbox c)"
  by (simp_all add: signAddVote_def sendInternalMessage_def call_app_def voted_def isValidator_def Let_def)

lemma sends_voted:
  assumes "v_Type v = t" and "v_Height v = n_height n" and "v_Round v = n_round n" and "v_Proposed v = d"
    and "n_key n = PrivPubKey (privVal env)"
  shows "sends t d n (voted env v V)"
  using assms by (simp add: sends_def voted_def)

lemma new_vote_simps [simp]:
  "v_Type (new_vote env t h r d c) = t" "v_Height (new_vote env t h r d c) = h"
  "v_Round (new_vote env t h r d c) = r" "v_Proposed (new_vote env t h r d c) = d"
  "v_Prev (new_vote env t h r d c) = lastCommittedData c"
  by (simp_all add: new_vote_def NewVote_def)


lemma grows_vote [simp]:
  assumes "msgQueue c1 = msgQueue c" and "outbox c1 = outbox c"
  shows "grows c (signAddVote env v c1)"
  using assms by (auto simp: grows_def own_votes_def signAddVote_def sendInternalMessage_def call_app_def Let_def)


section \<open>Proposing and prevoting\<close>

lemma prevote_data_rule:
  assumes "byzantinePrevote c = None"
  shows "prevote_rule (node_of env c) (prevote_data c)"
  using assms
  by (auto simp: prevote_rule_def prevote_data_def node_of_def lock_of_def split: option.splits)

lemma enterPrevote_enters:
  assumes "Step c < RoundStepPrevote"
  shows "sim env A F c (enterPrevoteFetch (Height c) (Round c)
    (updateRoundStep (Round c) RoundStepPrevote (doPrevote env (Height c) (Round c) c)))" (is "sim env A F c ?c'")
proof (rule sim_stage)
  let ?vs = "voted env (new_vote env PrevoteType (Height c) (Round c) (prevote_data c) c) (app c)"
  show "node_move A F (node_of env c) (node_of env ?c')" if "safe c"
  proof -
    have "sends PrevoteType (prevote_data c) (node_of env c) ?vs"
      by (rule sends_voted) (simp_all add: node_of_def)
    moreover have "prevote_rule (node_of env c) (prevote_data c)"
      using that by (intro prevote_data_rule) (simp add: safe_def)
    moreover have "n_step (node_of env c) < RoundStepPrevote" using assms by (simp add: node_of_def)
    ultimately have "node_move A F (node_of env c) ((node_of env c)\<lparr>n_step := RoundStepPrevoteFetch, n_sent := n_sent (node_of env c) @ ?vs\<rparr>)"
      by (intro node_move.prevote)
    then show ?thesis
      by (simp add: node_of_def enterPrevoteFetch_def update_defs doPrevote_def)
  qed
qed (use assms in \<open>simp_all add: enterPrevoteFetch_def update_defs doPrevote_def timeout_steps_def step_weaken\<close>)

lemma enterPrevote_sim:
  assumes "r \<le> Round c"
  shows "sim env A F c (enterPrevote env h r c)"
proof (cases "Height c \<noteq> h \<or> r < Round c \<or> (Round c = r \<and> RoundStepPrevote \<le> Step c)")
  case False
  then have "r = Round c" "h = Height c" "Step c < RoundStepPrevote" using assms by auto
  with enterPrevote_enters [of c env A F] show ?thesis by (simp add: enterPrevote_def)
qed (auto simp: enterPrevote_def)

lemma enterPrevote_pos:
  "Height (enterPrevote env h r c) = Height c" "Round c = r \<Longrightarrow> Round (enterPrevote env h r c) = r"
  by (simp_all add: enterPrevote_def enterPrevoteFetch_def update_defs doPrevote_def)

lemma doPropose_frame [simp]:
  "Height (doPropose env h r c) = Height c" "Round (doPropose env h r c) = Round c"
  "Step (doPropose env h r c) = Step c" "LockedRound (doPropose env h r c) = LockedRound c"
  "LockedProposal (doPropose env h r c) = LockedProposal c" "Votes (doPropose env h r c) = Votes c"
  "ticks (doPropose env h r c) = ticks c" "byzantinePrevote (doPropose env h r c) = byzantinePrevote c"
  "app (doPropose env h r c) = app c" "cfg (doPropose env h r c) = cfg c"
  by (simp_all add: doPropose_def next_read_def Let_def)

lemma grows_doPropose [simp]:
  "msgQueue c1 = msgQueue c \<Longrightarrow> outbox c1 = outbox c \<Longrightarrow> grows c (doPropose env h r c1)"
  by (simp add: doPropose_def Let_def next_read_def)

text \<open>The data of the proposal: the locked one if there is a lock.\<close>

definition proposal_data :: "Core \<Rightarrow> ProposedData" where
  "proposal_data c =
     (case LockedProposal c of
        Some lp \<Rightarrow> if LockedRound c > -1 then v_Proposed lp else DecidesProposal (app c)
      | None \<Rightarrow> DecidesProposal (app c))"

lemma doPropose_spec:
  obtains v w where "v_Type v = ProposalType" "v_Height v = h" "v_Round v = r" "v_Proposed v = proposal_data c"
    "v_Proposed w = proposal_data c" "Proposal (doPropose env h r c) = Some w"
    "votes_in (outbox (doPropose env h r c)) = votes_in (outbox c) @ voted env v (app c)"
    "commits_in (outbox (doPropose env h r c)) = commits_in (outbox c)"
proof -
  define v where "v = (new_vote env ProposalType h r (DecidesProposal (app c)) c)\<lparr>v_Proposed := proposal_data c\<rparr>"
  have eq: "doPropose env h r c = (signAddVote env v (next_read c))\<lparr>Proposal :=
      Some (if isValidator env (next_read c) then SignVote (privVal env) v else v)\<rparr>"
    by (cases "LockedProposal c")
       (simp_all add: doPropose_def v_def proposal_data_def next_read_def Let_def new_vote_def NewVote_def)
  show thesis
    by (rule that [of v "if isValidator env (next_read c) then SignVote (privVal env) v else v"])
       (simp_all add: eq, simp_all add: v_def next_read_def)
qed

lemma proposal_data_lock: "lock_of (LockedRound c) (LockedProposal c) = Some (r, x) \<Longrightarrow> proposal_data c = x"
  by (auto simp: proposal_data_def lock_of_def split: option.splits if_splits)

lemma propose_enters:
  assumes "Step c < RoundStepPropose"
  shows "sim env A F c (updateRoundStep (Round c) RoundStepPropose (doPropose env (Height c) (Round c)
      (scheduleTimeout dur (Height c) (Round c) RoundStepPropose c)))" (is "sim env A F c (updateRoundStep _ _ (doPropose _ _ _ ?c1))")
proof (rule sim_stage)
  obtain v w where v: "v_Type v = ProposalType" "v_Height v = Height c" "v_Round v = Round c" "v_Proposed v = proposal_data ?c1"
    "v_Proposed w = proposal_data ?c1" "Proposal (doPropose env (Height c) (Round c) ?c1) = Some w"
    "votes_in (outbox (doPropose env (Height c) (Round c) ?c1)) = votes_in (outbox ?c1) @ voted env v (app ?c1)"
    "commits_in (outbox (doPropose env (Height c) (Round c) ?c1)) = commits_in (outbox ?c1)"
    by (rule doPropose_spec)
  have c1: "proposal_data ?c1 = proposal_data c"
    by (simp add: proposal_data_def scheduleTimeout_def split: option.split)
  have "sends ProposalType (proposal_data c) (node_of env c) (voted env v (app c))"
    using v c1 by (intro sends_voted) (simp_all add: node_of_def)
  moreover have "n_step (node_of env c) < RoundStepPropose" using assms by (simp add: node_of_def)
  moreover have "n_lock (node_of env c) = Some (r, x) \<Longrightarrow> proposal_data c = x" for r x
    by (simp add: node_of_def proposal_data_lock)
  ultimately have "node_move A F (node_of env c) ((node_of env c)\<lparr>n_step := RoundStepPropose,
      n_proposal := Some (proposal_data c), n_sent := n_sent (node_of env c) @ voted env v (app c)\<rparr>)"
    by (intro node_move.propose)
  then show "node_move A F (node_of env c) (node_of env (updateRoundStep (Round c) RoundStepPropose (doPropose env (Height c) (Round c) ?c1)))"
    using v(5-8) [unfolded c1] by (simp add: node_of_def updateRoundStep_def scheduleTimeout_def)
qed (use assms in \<open>simp_all add: update_defs timeout_steps_def less_imp_le\<close>)

lemma no_propose_enters:
  assumes "Step c < RoundStepPropose"
  shows "sim env A F c (updateRoundStep (Round c) RoundStepPropose (scheduleTimeout dur (Height c) (Round c) RoundStepPropose c))"
proof (rule sim_stage)
  have "node_move A F (node_of env c) ((node_of env c)\<lparr>n_step := RoundStepPropose\<rparr>)"
    using assms by (intro node_move.no_propose) (simp add: node_of_def)
  then show "node_move A F (node_of env c) (node_of env (updateRoundStep (Round c) RoundStepPropose
      (scheduleTimeout dur (Height c) (Round c) RoundStepPropose c)))"
    by (simp add: node_of_def update_defs)
qed (use assms in \<open>simp_all add: update_defs timeout_steps_def less_imp_le\<close>)

lemma enterPropose_sim:
  assumes "r \<le> Round c"
  shows "sim env A F c (enterPropose env h r c)"
proof (cases "Height c \<noteq> h \<or> r < Round c \<or> (Round c = r \<and> RoundStepPropose \<le> Step c)")
  case False
  then have eq: "r = Round c" "h = Height c" "Step c < RoundStepPropose" using assms by auto
  let ?c1 = "scheduleTimeout (cfg_Propose (cfg c) (Round c)) (Height c) (Round c) RoundStepPropose c"
  define c3 where "c3 = updateRoundStep (Round c) RoundStepPropose
    (if \<not> IsValidator (app ?c1) (GetSelfPubKey (privVal env)) then ?c1
     else if GetCurrentProposer (app ?c1) (Round ?c1) = GetSelfPubKey (privVal env)
     then doPropose env (Height c) (Round c) ?c1 else ?c1)"
  have "\<not> RoundStepPropose \<le> Step c" using eq(3) by simp
  then have ep: "enterPropose env h r c = (if isReadyToPrevote c3 then enterPrevote env (Height c) (Round c3) c3 else c3)"
    unfolding enterPropose_def eq Let_def c3_def by (simp only: simp_thms less_irrefl if_False)
  have "sim env A F c c3"
    using propose_enters [OF eq(3)] no_propose_enters [OF eq(3)] by (simp add: c3_def)
  also have "sim env A F c3 (enterPropose env h r c)"
    unfolding ep by (simp add: enterPrevote_sim)
  finally show ?thesis .
qed (auto simp: enterPropose_def)


lemma enterPropose_pos:
  "Height (enterPropose env h r c) = Height c" "Round c = r \<Longrightarrow> Round (enterPropose env h r c) = r"
  by (simp_all add: enterPropose_def Let_def enterPrevote_pos update_defs)

lemma new_round_sim:
  assumes "Round c < r \<or> Round c = r \<and> Step c = RoundStepNewHeight" and "Votes c = Some hvs"
    and "SetRound (wrap64 (r + 1)) hvs = Inr hvs'"
    and c': "c' = c\<lparr>Round := r, Step := RoundStepNewRound, inFetch := False, reads := Suc (reads c),
      Proposal := (if r = 0 then Proposal c else None), Votes := Some hvs'\<rparr>"
  shows "sim env A F c c'"
proof (rule simI)
  show "grows c c'" by (simp add: c')
  show "safe c'" if s: "safe c"
  proof (rule safe_later [OF s, where new = "[]"])
    show "c_pos c \<le> c_pos c'" using assms(1) by (auto simp: c_pos_def HRS_le c' less_imp_le)
  qed (use s assms(1) in \<open>auto simp: safe_def c'\<close>)
  have "node_move A F (node_of env c) ((node_of env c)\<lparr>n_round := r, n_step := RoundStepNewRound,
      n_proposal := (if r = 0 then n_proposal (node_of env c) else None), n_votes := Some hvs'\<rparr>)"
    using assms(1-3) by (intro node_move.new_round) (simp_all add: node_of_def)
  moreover have "node_of env c' = (node_of env c)\<lparr>n_round := r, n_step := RoundStepNewRound,
      n_proposal := (if r = 0 then n_proposal (node_of env c) else None), n_votes := Some hvs'\<rparr>"
    by (simp add: node_of_def c')
  ultimately show "node_of env c' = node_of env c \<or> node_move A F (node_of env c) (node_of env c')" by simp
qed

text \<open>What \<^verbatim>\<open>enterNewRound\<close> does when its guard lets it pass.\<close>

lemma enterNewRound_Inr:
  assumes "enterNewRound env h r c = Inr c'"
  obtains (skip) "c' = c" "Height c \<noteq> h \<or> r < Round c \<or> (Round c = r \<and> Step c \<noteq> RoundStepNewHeight)"
  | (enter) hvs hvs' c1 where "h = Height c" "Round c < r \<or> Round c = r \<and> Step c = RoundStepNewHeight"
      "Votes c = Some hvs" "SetRound (wrap64 (r + 1)) hvs = Inr hvs'"
      "c1 = c\<lparr>Round := r, Step := RoundStepNewRound, inFetch := False, reads := Suc (reads c),
        Proposal := (if r = 0 then Proposal c else None), Votes := Some hvs'\<rparr>"
      "c' = enterPropose env h r c1"
proof (cases "Height c \<noteq> h \<or> r < Round c \<or> (Round c = r \<and> Step c \<noteq> RoundStepNewHeight)")
  case True
  with assms skip show thesis by (simp add: enterNewRound_def)
next
  case False
  let ?c2 = "c\<lparr>Round := r, Step := RoundStepNewRound, inFetch := False, reads := Suc (reads c),
        Proposal := (if r = 0 then Proposal c else None)\<rparr>"
  have "(if r = 0 then updateRoundStep r RoundStepNewRound (next_read c)
      else (updateRoundStep r RoundStepNewRound (next_read c))\<lparr>Proposal := None\<rparr>) = ?c2"
    by (simp add: update_defs)
  with assms False obtain hvs hvs' where "Votes c = Some hvs" "SetRound (wrap64 (r + 1)) hvs = Inr hvs'"
    "c' = enterPropose env h r (?c2\<lparr>Votes := Some hvs'\<rparr>)"
    by (auto simp: enterNewRound_def Let_def elim!: and_then_InrE)
  with False enter show thesis by (auto simp: not_less le_less)
qed

lemma enterNewRound_sim:
  assumes "enterNewRound env h r c = Inr c'"
  shows "sim env A F c c'"
  using assms
proof (cases rule: enterNewRound_Inr)
  case (enter hvs hvs' c1)
  have "sim env A F c c1" using enter(2-5) by (rule new_round_sim)
  also have "sim env A F c1 c'" unfolding enter(6) by (rule enterPropose_sim) (simp add: enter(5))
  finally show ?thesis .
qed simp

lemma enterNewRound_pos:
  assumes "enterNewRound env h r c = Inr c'" and "Height c = h"
  shows "Height c' = h" and "r \<le> Round c'"
  using assms(1)
proof (atomize (full), cases rule: enterNewRound_Inr)
  case (enter hvs hvs' c1)
  have "Round c1 = r" "Height c1 = h" using enter(1,5) by simp_all
  then show "Height c' = h \<and> r \<le> Round c'" unfolding enter(6) by (simp add: enterPropose_pos)
qed (use assms(2) in auto)


section \<open>Precommitting\<close>

lemma enterPrevoteWait_sim:
  assumes "enterPrevoteWait env h r c = Inr c'" and "r \<le> Round c"
  shows "sim env A F c c'"
proof (cases "Height c \<noteq> h \<or> r < Round c \<or> (Round c = r \<and> RoundStepPrevoteWait \<le> Step c)")
  case False
  then have eq: "r = Round c" "h = Height c" and step: "Step c < RoundStepPrevoteWait" using assms(2) by auto
  have c': "c' = updateRoundStep r RoundStepPrevoteWait
      (scheduleTimeout (cfg_Prevote (cfg c) r) h r RoundStepPrevoteWait c)"
    using assms(1) False by (auto simp: enterPrevoteWait_def elim!: and_then_InrE split: if_splits)
  have "node_move A F (node_of env c) ((node_of env c)\<lparr>n_step := RoundStepPrevoteWait\<rparr>)"
    using step by (intro node_move.prevote_wait) (simp add: node_of_def)
  then show ?thesis
    using step by (intro sim_stage) (simp_all add: c' eq node_of_def update_defs timeout_steps_def less_imp_le)
qed (use assms in \<open>auto simp: enterPrevoteWait_def\<close>)

lemma enterPrecommitWait_sim:
  assumes "enterPrecommitWait env h r c = Inr c'" and "r \<le> Round c"
  shows "sim env A F c c'"
proof (cases "Height c \<noteq> h \<or> r < Round c \<or> (Round c = r \<and> RoundStepPrecommitWait \<le> Step c)")
  case False
  then have eq: "r = Round c" "h = Height c" and step: "Step c < RoundStepPrecommitWait" using assms(2) by auto
  have c': "c' = updateRoundStep r RoundStepPrecommitWait
      (scheduleTimeout (cfg_Precommit (cfg c) r) h r RoundStepPrecommitWait c)"
    using assms(1) False by (auto simp: enterPrecommitWait_def elim!: and_then_InrE split: if_splits)
  have "node_move A F (node_of env c) ((node_of env c)\<lparr>n_step := RoundStepPrecommitWait\<rparr>)"
    using step by (intro node_move.precommit_wait) (simp add: node_of_def)
  then show ?thesis
    using step by (intro sim_stage) (simp_all add: c' eq node_of_def update_defs timeout_steps_def less_imp_le)
qed (use assms in \<open>auto simp: enterPrecommitWait_def\<close>)


lemma done_enterPrecommit_sim:
  assumes "Height c2 = Height c" "Round c2 = Round c" "Step c2 = Step c" "byzantinePrevote c2 = byzantinePrevote c"
    and "ticks c2 = ticks c" and "grows c c2" and "Step c < RoundStepPrecommit"
    and "safe c \<Longrightarrow> node_move A F (node_of env c) ((node_of env c2)\<lparr>n_step := RoundStepPrecommitFetch\<rparr>)"
  shows "sim env A F c (done_enterPrecommit (Round c) c2)"
  using assms
  by (intro sim_stage) (simp_all add: done_enterPrecommit_def enterPrecommitFetch_def Let_def update_defs
      timeout_steps_def step_weaken node_of_def)

lemma TwoThirdsMajority_cases:
  obtains (none) "TwoThirdsMajority p = (NilData, False)"
  | (some) d where "TwoThirdsMajority p = (d, True)" "d \<noteq> NilData"
proof (cases "HasTwoThirdsMajority p")
  case True
  then obtain vs where "p = Some vs" "vs_maj23 vs \<noteq> NilData" by (auto simp: vs_defs split: option.splits)
  with some show thesis by (simp add: vs_defs)
next
  case False
  with none show thesis by (auto simp: vs_defs split: option.splits)
qed

lemma TwoThirdsMajority_neq_Nil: "TwoThirdsMajority p = (d, True) \<Longrightarrow> d \<noteq> NilData"
  by (cases p rule: TwoThirdsMajority_cases) auto

lemma polka_node_of: "Votes c = Some hvs \<Longrightarrow> polka (node_of env c) r d \<longleftrightarrow> TwoThirdsMajority (Prevotes r hvs) = (d, True)"
  by (simp add: polka_def node_of_def)

lemma precommit_sends:
  "Height c = h \<Longrightarrow> Round c = r \<Longrightarrow> v_Type v = PrecommitType \<Longrightarrow> v_Height v = h \<Longrightarrow> v_Round v = r \<Longrightarrow>
    v_Proposed v = d \<Longrightarrow> sends PrecommitType d (node_of env c) (voted env v V)"
  by (rule sends_voted) (simp_all add: node_of_def)

text \<open>The outcomes of a polka for \<open>d\<close> in the current round.\<close>

lemma precommit_polka_Inr:
  assumes "precommit_polka env r d v c = Inr c2"
  obtains
    (locked) lp where "LockedRound c \<ge> 0" "LockedProposal c = Some lp" "v_Proposed lp = d"
      "c2 = signAddVote env (v\<lparr>v_Proposed := d\<rparr>) (c\<lparr>LockedRound := r\<rparr>)"
  | (lock) p where "Proposal c = Some p" "v_Proposed p = d"
      "c2 = signAddVote env (v\<lparr>v_Proposed := d\<rparr>) (c\<lparr>LockedRound := r, LockedProposal := Some p\<rparr>)"
  | (unlock) "\<And>x. lock_of (LockedRound c) (LockedProposal c) \<noteq> Some (x, d)"
      "\<And>p. Proposal c = Some p \<Longrightarrow> v_Proposed p \<noteq> d"
      "c2 = signAddVote env v (c\<lparr>LockedRound := -1, LockedProposal := None\<rparr>)"
proof -
  define m where "m = (if LockedRound c \<ge> 0
    then and_then (deref (LockedProposal c)) (\<lambda>lp. Inr (v_Proposed lp = d)) else Inr False)"
  note res = assms [unfolded precommit_polka_def, folded m_def]
  obtain on_it where m: "m = Inr on_it" using res by (cases m) simp_all
  note c2 = res [unfolded m and_then_simps] and on_it = m [unfolded m_def]
  show thesis
  proof (cases on_it)
    case True
    with on_it obtain lp where "LockedRound c \<ge> 0" "LockedProposal c = Some lp" "v_Proposed lp = d"
      by (auto elim!: and_then_InrE split: if_splits)
    with True c2 show thesis by (intro locked) simp_all
  next
    case False
    then have no_lock: "lock_of (LockedRound c) (LockedProposal c) \<noteq> Some (x, d)" for x
      using on_it by (auto simp: lock_of_def elim!: and_then_InrE split: if_splits option.splits)
    show thesis
    proof (cases "Proposal c \<noteq> None \<and> v_Proposed (the (Proposal c)) = d")
      case True
      then obtain p where "Proposal c = Some p" "v_Proposed p = d" by auto
      with False c2 show thesis by (intro lock) auto
    next
      case no: False
      with False c2 show thesis by (intro unlock no_lock) auto
    qed
  qed
qed

lemma precommit_polka_sim:
  assumes polka: "polka (node_of env c) (Round c) d" and step: "Step c < RoundStepPrecommit"
    and v: "v_Type v = PrecommitType" "v_Height v = Height c" "v_Round v = Round c" "v_Proposed v = NilData"
    and res: "precommit_polka env (Round c) d v (next_read c) = Inr c2"
  shows "sim env A F c (done_enterPrecommit (Round c) c2)"
proof -
  have polka': "polka (node_of env c) (n_round (node_of env c)) d" using polka by (simp add: node_of_def)
  have step': "n_step (node_of env c) < RoundStepPrecommit" using step by (simp add: node_of_def)
  let ?vd = "v\<lparr>v_Proposed := d\<rparr>"
  from res show ?thesis
  proof (cases rule: precommit_polka_Inr)
    case (locked lp)
    have "node_move A F (node_of env c) ((node_of env c)\<lparr>n_step := RoundStepPrecommitFetch, n_lock := Some (n_round (node_of env c), d),
        n_sent := n_sent (node_of env c) @ voted env ?vd (app c)\<rparr>)"
      using locked v by (intro node_move.precommit_lock step' polka' precommit_sends)
        (simp_all add: node_of_def lock_of_def next_read_def)
    then show ?thesis
      using step locked by (intro done_enterPrecommit_sim) (simp_all add: node_of_def next_read_def safe_def lock_of_def)
  next
    case (lock p)
    have "node_move A F (node_of env c) ((node_of env c)\<lparr>n_step := RoundStepPrecommitFetch, n_lock := Some (n_round (node_of env c), d),
        n_sent := n_sent (node_of env c) @ voted env ?vd (app c)\<rparr>)"
      using lock v by (intro node_move.precommit_lock step' polka' precommit_sends)
        (simp_all add: node_of_def next_read_def)
    then show ?thesis
      using step lock by (intro done_enterPrecommit_sim) (simp_all add: node_of_def next_read_def safe_def lock_of_def)
  next
    case unlock
    have "node_move A F (node_of env c) ((node_of env c)\<lparr>n_step := RoundStepPrecommitFetch, n_lock := None,
        n_sent := n_sent (node_of env c) @ voted env v (app c)\<rparr>)"
      using unlock v by (intro node_move.precommit_unlock [OF step' _ polka'] precommit_sends)
        (auto simp: node_of_def next_read_def)
    then show ?thesis
      using step unlock by (intro done_enterPrecommit_sim) (simp_all add: node_of_def next_read_def)
  qed
qed

lemma enterPrecommit_sim:
  assumes "enterPrecommit env h r c = Inr c'" and "r \<le> Round c"
  shows "sim env A F c c'"
proof (cases "Height c \<noteq> h \<or> r < Round c \<or> (Round c = r \<and> RoundStepPrecommit \<le> Step c)")
  case False
  then have eq: "r = Round c" "h = Height c" and step: "Step c < RoundStepPrecommit" using assms(2) by auto
  let ?v = "new_vote env PrecommitType h r NilData c"
  have ng: "\<not> RoundStepPrecommit \<le> Step c" using step by simp
  from assms(1) False obtain hvs where hvs: "Votes c = Some hvs"
    by (auto simp: enterPrecommit_def elim!: and_then_InrE)
  show ?thesis
  proof (cases "Prevotes r hvs" rule: TwoThirdsMajority_cases)
    case none
    with assms(1) ng hvs have c': "c' = done_enterPrecommit (Round c) (signAddVote env ?v (next_read c))"
      by (simp add: enterPrecommit_def eq Let_def)
    have "\<not> polka (node_of env c) (n_round (node_of env c)) d" for d
      using none by (simp add: polka_node_of [OF hvs]) (simp add: node_of_def eq)
    then have "node_move A F (node_of env c) ((node_of env c)\<lparr>n_step := RoundStepPrecommitFetch,
        n_sent := n_sent (node_of env c) @ voted env ?v (app c)\<rparr>)"
      using step by (intro node_move.precommit_nil precommit_sends) (simp_all add: node_of_def eq)
    then show ?thesis
      unfolding c' using step by (intro done_enterPrecommit_sim) (simp_all add: node_of_def next_read_def)
  next
    case (some d)
    with assms(1) ng hvs obtain c2 where "precommit_polka env (Round c) d ?v (next_read c) = Inr c2"
      and c': "c' = done_enterPrecommit (Round c) c2"
      by (auto simp: enterPrecommit_def eq Let_def elim!: and_then_InrE split: if_splits)
    moreover have "polka (node_of env c) (Round c) d" using some(1) by (simp add: polka_node_of [OF hvs] eq)
    ultimately show ?thesis unfolding c' using step by (intro precommit_polka_sim) (simp_all add: eq)
  qed
qed (use assms in \<open>auto simp: enterPrecommit_def\<close>)



section \<open>Committing\<close>

lemma updateToAppState_Inr:
  assumes "updateToAppState env (Some st) c = Inr c'"
  obtains hvs lp rd t where "\<not> (CommitRound c > -1 \<and> 0 < Height c \<and> Height c > LastHeight st)"
    "last_precommits c = Inr lp"
    "NewHeightVoteSet (wrap64 (LastHeight st + 1)) (LastProposedData st) = Inr hvs"
    "c' = c\<lparr>Height := wrap64 (LastHeight st + 1), Round := 0, Step := RoundStepNewHeight, inFetch := False,
      reads := rd, StartTime := t, Proposal := None, LockedRound := -1, LockedProposal := None,
      CommitRound := -1, LastCommit := lp, lastCommittedData := LastProposedData st, Votes := Some hvs\<rparr>"
proof -
  have ok: "\<not> (CommitRound c > -1 \<and> 0 < Height c \<and> Height c > LastHeight st)"
    using assms by (auto simp: updateToAppState_def)
  obtain lp where lp: "last_precommits c = Inr lp"
    using assms ok by (cases "last_precommits c") (simp_all add: updateToAppState_def)
  obtain hvs where hvs: "NewHeightVoteSet (wrap64 (LastHeight st + 1)) (LastProposedData st) = Inr hvs"
    using assms ok lp by (cases "NewHeightVoteSet (wrap64 (LastHeight st + 1)) (LastProposedData st)")
      (auto simp: updateToAppState_def update_defs Let_def split: if_splits)
  show thesis
  proof (cases "CommitTime c = 0")
    case True
    show thesis
      by (rule that [OF ok lp hvs, where rd = "Suc (reads c)" and t = "cfg_Commit (cfg c) (clock env (reads c))"])
         (use assms ok lp hvs True in \<open>simp add: updateToAppState_def update_defs Let_def common_Now_def\<close>)
  next
    case False
    show thesis
      by (rule that [OF ok lp hvs, where rd = "reads c" and t = "cfg_Commit (cfg c) (CommitTime c)"])
         (use assms ok lp hvs False in \<open>simp add: updateToAppState_def update_defs Let_def\<close>)
  qed
qed

text \<open>The commit a core makes in round \<open>r\<close> and the state it goes on from.\<close>

lemma enterCommit_Inr:
  assumes "enterCommit env h r c = Inr c'" and "env_ok env"
  obtains (skip) "c' = c" "Height c \<noteq> h \<or> RoundStepCommit \<le> Step c"
  | (commit) hvs d k0 k st c3 c4 t out where "h = Height c" "Step c < RoundStepCommit" "Votes c = Some hvs"
      "TwoThirdsMajority (Precommits r hvs) = (d, True)"
      "MakeCommit (map_order env (Suc (reads c))) (Precommits r hvs) = Inr k0" "c_ProposedData k0 = d"
      "k = SignCommit (codec env) (privVal env) (k0\<lparr>c_CommitTime := t\<rparr>)"
      "GetAppState (AppCommit env (reads c + 2) k (app c)) = Some st" "LastHeight st < max_int64"
      "c3 = c\<lparr>CommitRound := r, CommitTime := t, Step := RoundStepCommit, inFetch := False, reads := reads c + 2,
        outbox := outbox c @ out @ [CommitCall k], app := AppCommit env (reads c + 2) k (app c)\<rparr>"
      "out = [] \<or> out = [BroadCast (MCommit k)]"
      "updateToAppState env (Some st) c3 = Inr c4"
      "c' = scheduleRound0 env (c4\<lparr>hasRecvCommitRecords := False\<rparr>)"
proof (cases "Height c \<noteq> h \<or> RoundStepCommit \<le> Step c")
  case True
  with assms skip show thesis by (simp add: enterCommit_def)
next
  case False
  let ?t = "common_Now env c"
  let ?c2 = "c\<lparr>CommitRound := r, CommitTime := ?t, reads := Suc (reads c), Step := RoundStepCommit, inFetch := False\<rparr>"
  obtain hvs where hvs: "Votes c = Some hvs" using assms False by (cases "Votes c") (auto simp: enterCommit_def)
  obtain d where d: "TwoThirdsMajority (Precommits r hvs) = (d, True)"
    using assms False hvs by (cases "Precommits r hvs" rule: TwoThirdsMajority_cases) (auto simp: enterCommit_def)
  have do: "doCommit env d ?c2 = Inr c'"
    using assms False hvs d by (simp add: enterCommit_def Let_def update_defs)
  obtain k0 where k0: "MakeCommit (map_order env (Suc (reads c))) (Precommits r hvs) = Inr k0"
    using do hvs by (cases "MakeCommit (map_order env (Suc (reads c))) (Precommits r hvs)") (simp_all add: doCommit_def)
  have dk: "c_ProposedData k0 = d" using do hvs k0 by (simp add: doCommit_def split: if_splits)
  let ?k = "SignCommit (codec env) (privVal env) (k0\<lparr>c_CommitTime := ?t\<rparr>)"
  let ?out = "if hasRecvCommitRecords c then [] else [BroadCast (MCommit ?k)]"
  let ?V = "AppCommit env (reads c + 2) ?k (app c)"
  obtain st where st: "GetAppState ?V = Some st" "LastHeight st < max_int64"
    using assms(2) unfolding env_ok_def by blast
  let ?c3 = "c\<lparr>CommitRound := r, CommitTime := ?t, Step := RoundStepCommit, inFetch := False, reads := reads c + 2,
        outbox := outbox c @ ?out @ [CommitCall ?k], app := ?V\<rparr>"
  have "and_then (updateToAppState env (Some st) ?c3) (\<lambda>c4. Inr (scheduleRound0 env (c4\<lparr>hasRecvCommitRecords := False\<rparr>)))
      = Inr c'"
    using do hvs k0 dk st(1) by (auto simp: doCommit_def Let_def update_defs cong: if_cong split: if_splits)
  then obtain c4 where "updateToAppState env (Some st) ?c3 = Inr c4"
    "c' = scheduleRound0 env (c4\<lparr>hasRecvCommitRecords := False\<rparr>)"
    by (auto elim!: and_then_InrE)
  with False hvs d k0 dk st show thesis
    by (intro commit [OF _ _ hvs d k0 dk refl st refl]) auto
qed

lemma enterCommit_sim:
  assumes "enterCommit env h r c = Inr c'" and "env_ok env" and "0 \<le> r" and "env_fits F env"
  shows "sim env A F c c'"
  using assms(1,2)
proof (cases rule: enterCommit_Inr)
  case (commit hvs d k0 k st c3 c4 t out)
  from commit(12) obtain hvs' lp rd st' where
    ng: "\<not> (CommitRound c3 > -1 \<and> 0 < Height c3 \<and> Height c3 > LastHeight st)"
    and new: "NewHeightVoteSet (wrap64 (LastHeight st + 1)) (LastProposedData st) = Inr hvs'"
    and c4: "c4 = c3\<lparr>Height := wrap64 (LastHeight st + 1), Round := 0, Step := RoundStepNewHeight, inFetch := False,
      reads := rd, StartTime := st', Proposal := None, LockedRound := -1, LockedProposal := None,
      CommitRound := -1, LastCommit := lp, lastCommittedData := LastProposedData st, Votes := Some hvs'\<rparr>"
    by (rule updateToAppState_Inr)
  have c': "node_of env c' = node_of env c4" "byzantinePrevote c' = byzantinePrevote c4"
    "\<exists>dur. ticks c' = ticks c4 @ [\<lparr>ti_Duration = dur, ti_Height = Height c4, ti_Round = 0, ti_Step = RoundStepNewHeight\<rparr>]"
    by (simp_all add: commit(13) scheduleRound0_def update_defs Let_def node_of_def)
  have up: "Height c < Height c4 \<and> Height c4 = LastHeight st + 1" if "safe c"
  proof -
    have "Height c \<le> LastHeight st" "0 < Height c"
      using ng assms(3) that by (auto simp: commit(10) safe_def)
    with commit(9) show ?thesis by (simp add: c4 wrap64_idI)
  qed
  show ?thesis
  proof (rule simI)
    have "votes_in (outbox c') = votes_in (outbox c)" "msgQueue c' = msgQueue c"
      using commit(11) c'(1) by (auto simp: commit(13) scheduleRound0_def update_defs Let_def c4 commit(10))
    then show "grows c c'" by (intro grows_frame) simp_all
    have pos': "Height c' = Height c4" "Round c' = 0" "Step c' = RoundStepNewHeight" "byzantinePrevote c' = byzantinePrevote c"
      using c'(1,2) by (simp_all add: node_of_def c4 commit(10))
    obtain dur where ticks: "ticks c' = ticks c @ [\<lparr>ti_Duration = dur, ti_Height = Height c4, ti_Round = 0, ti_Step = RoundStepNewHeight\<rparr>]"
      using c'(3) by (auto simp: c4 commit(10))
    show "safe c'" if s: "safe c"
      using up [OF s] s
      by (intro safe_later [OF s _ ticks]) (auto simp: pos' c_pos_def HRS_le safe_def ti_hrs_def timeout_steps_def)
    have fits: "F (Height c) (app c) \<Longrightarrow> F (LastHeight st + 1) (app c4)"
      using assms(4) commit(8) unfolding env_fits_def by (simp add: c4 commit(10))
    have "node_move A F (node_of env c) ((node_of env c)\<lparr>n_height := Height c4, n_round := 0, n_step := RoundStepNewHeight,
        n_proposal := None, n_lock := None, n_votes := Some hvs', n_app := app c4, n_commits := n_commits (node_of env c) @ [k]\<rparr>)"
      if s: "safe c"
      using up [OF s] commit(2,3,5,7) assms(2) new fits
      by (intro node_move.commit [where h = hvs and r = r and ord = "map_order env (Suc (reads c))" and pv = "privVal env"])
         (simp_all add: node_of_def env_ok_def c4)
    moreover have "node_of env c4 = (node_of env c)\<lparr>n_height := Height c4, n_round := 0, n_step := RoundStepNewHeight,
        n_proposal := None, n_lock := None, n_votes := Some hvs', n_app := app c4, n_commits := n_commits (node_of env c) @ [k]\<rparr>"
      using commit(11) by (auto simp: node_of_def c4 commit(10))
    ultimately show "node_of env c' = node_of env c \<or> node_move A F (node_of env c) (node_of env c')" if "safe c"
      using that c'(1) by simp
  qed
qed simp



section \<open>Votes\<close>

lemma polka_unlock_frame [simp]:
  "Height (polka_unlock v p c) = Height c" "Round (polka_unlock v p c) = Round c" "Step (polka_unlock v p c) = Step c"
  "Votes (polka_unlock v p c) = Votes c" "ticks (polka_unlock v p c) = ticks c" "app (polka_unlock v p c) = app c"
  "cfg (polka_unlock v p c) = cfg c" "byzantinePrevote (polka_unlock v p c) = byzantinePrevote c"
  by (auto simp: polka_unlock_def Let_def split: prod.split)

lemma sim_within:
  assumes "Height c' = Height c" "Round c' = Round c" "Step c' = Step c" "ticks c' = ticks c"
    "byzantinePrevote c' = byzantinePrevote c" "msgQueue c' = msgQueue c" "outbox c' = outbox c"
    and "node_of env c' = node_of env c \<or> node_move A F (node_of env c) (node_of env c')"
  shows "sim env A F c c'"
  using assms by (intro simI grows_frame) (simp_all add: safe_def c_pos_def)

lemma polka_unlock_sim:
  assumes "Votes c = Some hvs"
  shows "sim env A F c (polka_unlock v (Prevotes (v_Round v) hvs) c)"
proof (cases "Prevotes (v_Round v) hvs" rule: TwoThirdsMajority_cases)
  case none
  then show ?thesis by (simp add: polka_unlock_def)
next
  case (some d)
  define c1 where "c1 = (if LockedProposal c \<noteq> None \<and> LockedRound c < v_Round v \<and>
      v_Proposed (the (LockedProposal c)) \<noteq> d then c\<lparr>LockedRound := -1, LockedProposal := None\<rparr> else c)"
  have polka: "polka (node_of env c) (v_Round v) d" using some by (simp add: polka_node_of [OF assms])
  have c1: "Height c1 = Height c" "Round c1 = Round c" "Step c1 = Step c" "ticks c1 = ticks c"
    "byzantinePrevote c1 = byzantinePrevote c" "msgQueue c1 = msgQueue c" "outbox c1 = outbox c"
    "Votes c1 = Votes c" "Proposal c1 = Proposal c"
    by (simp_all add: c1_def)
  have "node_of env c1 = node_of env c \<or> node_move A F (node_of env c) (node_of env c1)"
  proof (cases "lock_of (LockedRound c) (LockedProposal c)")
    case None
    then show ?thesis by (simp add: c1_def node_of_def)
  next
    case (Some l)
    then obtain lp where lp: "LockedProposal c = Some lp" "l = (LockedRound c, v_Proposed lp)"
      by (auto simp: lock_of_def split: option.splits if_splits)
    show ?thesis
    proof (cases "LockedRound c < v_Round v \<and> v_Proposed lp \<noteq> d")
      case True
      have "node_move A F (node_of env c) ((node_of env c)\<lparr>n_lock := None\<rparr>)"
        using True Some lp by (intro node_move.unlock [OF _ _ polka]) (auto simp: node_of_def)
      then show ?thesis using True lp by (simp add: c1_def node_of_def)
    qed (use lp in \<open>auto simp: c1_def\<close>)
  qed
  then have "sim env A F c c1" by (rule sim_within [OF c1(1-7)])
  also have "sim env A F c1 (polka_unlock v (Prevotes (v_Round v) hvs) c)"
  proof (cases "v_Round v = Round c \<and> (\<exists>p. Proposal c = Some p \<and> v_Proposed p \<noteq> d)")
    case True
    then obtain p where p: "v_Round v = Round c" "Proposal c = Some p" "v_Proposed p \<noteq> d" by blast
    have eq: "polka_unlock v (Prevotes (v_Round v) hvs) c = c1\<lparr>Proposal := None\<rparr>"
      using some p by (auto simp: polka_unlock_def c1_def)
    have "node_move A F (node_of env c1) ((node_of env c1)\<lparr>n_proposal := None\<rparr>)"
      using p polka c1 by (intro node_move.drop_proposal [where d = d]) (auto simp: node_of_def polka_def)
    then show ?thesis unfolding eq by (intro sim_within) (simp_all add: node_of_def)
  next
    case False
    then have "polka_unlock v (Prevotes (v_Round v) hvs) c = c1"
      using some by (auto simp: polka_unlock_def c1_def)
    then show ?thesis by simp
  qed
  finally show ?thesis .
qed

lemma defaultSetProposal_sim:
  assumes "defaultSetProposal env v c = (e, c')"
  shows "sim env A F c c'"
proof (cases "Proposal c = None \<and> c' = enterPrevote env (Height c) (Round c) (c\<lparr>Proposal := Some v\<rparr>)")
  case True
  have "node_move A F (node_of env c) ((node_of env c)\<lparr>n_proposal := Some (v_Proposed v)\<rparr>)"
    using True by (intro node_move.set_proposal) (simp add: node_of_def)
  then have "sim env A F c (c\<lparr>Proposal := Some v\<rparr>)" by (intro sim_within) (simp_all add: node_of_def)
  also have "sim env A F \<dots> c'" using True by (simp add: enterPrevote_sim)
  finally show ?thesis .
next
  case False
  then have "c' = c" using assms by (auto simp: defaultSetProposal_def Let_def split: if_splits)
  then show ?thesis by simp
qed

lemma add_straggler_Inr:
  assumes "add_straggler env v c = Inr (a, e, c')"
  shows "c' = c \<or> (\<exists>vs. c' = c\<lparr>LastCommit := vs\<rparr> \<or> enterNewRound env (Height c) 0 (c\<lparr>LastCommit := vs\<rparr>) = Inr c')"
proof (cases "\<not> (Step c = RoundStepNewHeight \<and> v_Type v = PrecommitType) \<or> LastCommit c = None")
  case True
  with assms show ?thesis by (auto simp: add_straggler_def)
next
  case False
  then obtain a1 e1 vs where "AddVote (app c) (Some v) (LastCommit c) = Inr (a1, e1, vs)"
    using assms by (cases "AddVote (app c) (Some v) (LastCommit c)") (auto simp: add_straggler_def)
  with assms False have "c' = c\<lparr>LastCommit := Some vs\<rparr> \<or>
      enterNewRound env (Height c) 0 (c\<lparr>LastCommit := Some vs\<rparr>) = Inr c'"
    by (auto simp: add_straggler_def Let_def elim!: and_then_InrE split: if_splits)
  then show ?thesis by blast
qed

lemma add_straggler_sim:
  assumes "add_straggler env v c = Inr (a, e, c')"
  shows "sim env A F c c'"
proof -
  have silent: "sim env A F c (c\<lparr>LastCommit := vs\<rparr>)" for vs by (rule sim_silent) (simp_all add: node_of_def)
  from add_straggler_Inr [OF assms] show ?thesis
    using silent sim_trans [OF silent] enterNewRound_sim by blast
qed

lemma added_prevote_sim:
  assumes "added_prevote env (Height c) v hvs c = Inr c'" and "Votes c = Some hvs"
  shows "sim env A F c c'"
proof -
  let ?c1 = "polka_unlock v (Prevotes (v_Round v) hvs) c"
  have "sim env A F c ?c1" using assms(2) by (rule polka_unlock_sim)
  also have "sim env A F ?c1 c'"
    using assms(1) unfolding added_prevote_def Let_def
    by (auto split: if_splits intro: enterNewRound_sim enterPrecommit_sim enterPrevoteWait_sim enterPrevote_sim)
  finally show ?thesis .
qed

lemma added_precommit_sim:
  assumes "added_precommit env (Height c) v hvs c = Inr c'" and "env_ok env" and "0 \<le> v_Round v" and "env_fits F env"
  shows "sim env A F c c'"
proof (cases "HasTwoThirdsMajority (Precommits (v_Round v) hvs)")
  case True
  from assms(1) True obtain c1 c2 c3 where
    c1: "enterNewRound env (Height c) (v_Round v) c = Inr c1" and
    c2: "enterPrecommit env (Height c) (v_Round v) c1 = Inr c2" and
    c3: "enterCommit env (Height c) (v_Round v) c2 = Inr c3" and
    c': "c' = c3 \<or> enterNewRound env (Height c3) 0 c3 = Inr c'"
    unfolding added_precommit_def Let_def by (auto elim!: and_then_InrE split: if_splits)
  have "sim env A F c c1" using c1 by (rule enterNewRound_sim)
  also have "sim env A F c1 c2" using c2 enterNewRound_pos(2) [OF c1 refl] by (rule enterPrecommit_sim)
  also have "sim env A F c2 c3" using c3 assms(2-4) by (rule enterCommit_sim)
  also have "sim env A F c3 c'" using c' by (auto intro: enterNewRound_sim)
  finally show ?thesis .
next
  case False
  with assms(1) consider "c' = c" | c1 where "enterNewRound env (Height c) (v_Round v) c = Inr c1"
      "enterPrecommitWait env (Height c) (v_Round v) c1 = Inr c'"
    unfolding added_precommit_def Let_def by (auto elim!: and_then_InrE split: if_splits)
  then show ?thesis
  proof cases
    case (2 c1)
    then show ?thesis
      using enterNewRound_sim enterPrecommitWait_sim enterNewRound_pos(2) [OF 2(1) refl] sim_trans by blast
  qed simp
qed

text \<open>The ways \<^verbatim>\<open>addVote\<close> returns.\<close>

lemma addVote_Inr:
  assumes "addVote env p c = Inr (a, e, c')"
  obtains v where "p = Some v" "add_straggler env v c = Inr (a, e, c')"
  | "c' = c" "\<not> a"
  | v e' where "p = Some v" "v_Type v = ProposalType" "defaultSetProposal env v c = (e', c')"
  | v hvs hvs' where "p = Some v" "v_Height v = Height c" "Votes c = Some hvs"
      "hvs_AddVote (app c) v hvs = Inr (a, e, hvs')" "0 \<le> v_Round v" "v_Round v \<le> wrap64 (Round c + watermark)"
      "\<not> a" "c' = c\<lparr>Votes := Some hvs'\<rparr>"
  | v hvs hvs' where "p = Some v" "v_Height v = Height c" "Votes c = Some hvs"
      "hvs_AddVote (app c) v hvs = Inr (a, e, hvs')" "0 \<le> v_Round v" "v_Round v \<le> wrap64 (Round c + watermark)"
      "v_Type v = PrevoteType" "added_prevote env (Height c) v hvs' (c\<lparr>Votes := Some hvs'\<rparr>) = Inr c'"
  | v hvs hvs' where "p = Some v" "v_Height v = Height c" "Votes c = Some hvs"
      "hvs_AddVote (app c) v hvs = Inr (a, e, hvs')" "0 \<le> v_Round v" "v_Round v \<le> wrap64 (Round c + watermark)"
      "v_Type v = PrecommitType" "added_precommit env (Height c) v hvs' (c\<lparr>Votes := Some hvs'\<rparr>) = Inr c'"
proof -
  obtain v where p: "p = Some v" using assms by (cases p) (simp_all add: addVote_def)
  note res = assms [unfolded addVote_def p deref_simps and_then_simps]
  show thesis
  proof (cases "wrap64 (v_Height v + 1) = Height c")
    case True
    with res that(1) p show thesis by simp
  next
    case s: False
    show thesis
    proof (cases "v_Height v \<noteq> Height c \<or> v_Type v = ProposalType")
      case True
      with res s that(2,3) p show thesis by (auto simp: Let_def split: if_splits prod.splits)
    next
      case h: False
      show thesis
      proof (cases "wrap64 (Round c + watermark) < v_Round v \<or> v_Round v < 0")
        case True
        with res s h that(2) show thesis by simp
      next
        case r: False
        then have r': "0 \<le> v_Round v" "v_Round v \<le> wrap64 (Round c + watermark)" by auto
        obtain hvs where hvs: "Votes c = Some hvs" using res s h r by (cases "Votes c") auto
        obtain a' e1 hvs' where add: "hvs_AddVote (app c) v hvs = Inr (a', e1, hvs')"
          using res s h r hvs by (cases "hvs_AddVote (app c) v hvs") auto
        show thesis
        proof (cases a')
          case False
          with res s h r hvs add that(4) [OF p _ hvs _ r'] show thesis by simp
        next
          case True
          show thesis
          proof (cases "v_Type v = PrevoteType")
            case prevote: True
            with True res s h r hvs add that(5) [OF p _ hvs _ r'] show thesis
              by (auto simp: Let_def elim!: and_then_InrE)
          next
            case False
            with True res s h r hvs add that(6) [OF p _ hvs _ r'] show thesis
              by (auto simp: Let_def elim!: and_then_InrE split: if_splits)
          qed
        qed
      qed
    qed
  qed
qed

lemma addVote_sim:
  assumes "addVote env p c = Inr (a, e, c')" and "env_ok env" and "env_fits F env" and "set_option p \<subseteq> A"
  shows "sim env A F c c'"
proof -
  have add: "sim env A F c (c\<lparr>Votes := Some hvs'\<rparr>)"
    if "Votes c = Some hvs" "hvs_AddVote (app c) v hvs = Inr (a, e, hvs')" "p = Some v" for v hvs hvs'
  proof -
    have "node_move A F (node_of env c) ((node_of env c)\<lparr>n_votes := Some hvs'\<rparr>)"
      by (rule node_move.add_vote [of _ hvs v _ a e]) (use that assms(4) in \<open>simp_all add: node_of_def\<close>)
    then show ?thesis by (intro sim_within) (simp_all add: node_of_def)
  qed
  from assms(1) show ?thesis
  proof (cases rule: addVote_Inr)
    case 1
    then show ?thesis using add_straggler_sim by blast
  next
    case 3
    then show ?thesis using defaultSetProposal_sim by blast
  next
    case (4 v hvs hvs')
    then show ?thesis using add by simp
  next
    case (5 v hvs hvs')
    have "sim env A F (c\<lparr>Votes := Some hvs'\<rparr>) c'" using 5(8) by (intro added_prevote_sim) simp_all
    with add [OF 5(3,4,1)] show ?thesis by (rule sim_trans)
  next
    case (6 v hvs hvs')
    have "sim env A F (c\<lparr>Votes := Some hvs'\<rparr>) c'" using 6(5,8) assms(2,3) by (intro added_precommit_sim) simp_all
    with add [OF 6(3,4,1)] show ?thesis by (rule sim_trans)
  qed simp
qed

lemma tryAddVote_sim:
  "tryAddVote env p c = Inr c' \<Longrightarrow> env_ok env \<Longrightarrow> env_fits F env \<Longrightarrow> set_option p \<subseteq> A \<Longrightarrow> sim env A F c c'"
  by (auto simp: tryAddVote_def elim!: and_then_InrE intro: addVote_sim)

lemma for_each_tryAddVote_sim:
  assumes "for_each (tryAddVote env) ps c = Inr c'" and "env_ok env" and "env_fits F env" and "{v. Some v \<in> set ps} \<subseteq> A"
  shows "sim env A F c c'"
  using assms(1)
proof (rule for_each_invariant [where I = "sim env A F c"])
  fix p t t' assume p: "p \<in> set ps" and "sim env A F c t" and t': "tryAddVote env p t = Inr t'"
  have "set_option p \<subseteq> A" using p assms(4) by (cases p) auto
  with t' assms(2,3) have "sim env A F t t'" by (rule tryAddVote_sim)
  with \<open>sim env A F c t\<close> show "sim env A F c t'" by (rule sim_trans)
qed simp


section \<open>Messages, timeouts and runs\<close>

text \<open>The votes a message carries.\<close>

definition msg_votes :: "ConsensusMessage \<Rightarrow> Vote set" where
  "msg_votes m =
     (case m of
        MVote v \<Rightarrow> {v}
      | MCommit k \<Rightarrow> {v. Some v \<in> set (c_Precommits k)}
      | MFetchVotesReq q \<Rightarrow> {}
      | MFetchVotesRsp r \<Rightarrow> {v. Some v \<in> set (r_MissingVotes r)})"

lemma sim_call_app: "votes_in [call] = [] \<Longrightarrow> commits_in [call] = [] \<Longrightarrow> sim env A F c (call_app call (next_read c))"
  by (rule sim_silent) (simp_all add: node_of_def update_defs)

lemma handleFetch_sim: "handleFetch env q p c = Inr c' \<Longrightarrow> sim env A F c c'"
  by (auto simp: handleFetch_def sim_call_app elim!: and_then_InrE split: if_splits option.splits)

lemma fetchMissingVotes_sim:
  assumes "fetchMissingVotes env c = Inr c'"
  shows "sim env A F c c'"
proof (cases "Step c \<noteq> RoundStepPrevoteFetch \<and> Step c \<noteq> RoundStepPrecommitFetch")
  case True
  with assms show ?thesis by (simp add: fetchMissingVotes_def)
next
  case False
  then have step: "Step c \<in> timeout_steps" by (auto simp: timeout_steps_def)
  have eq: "(if Step c = RoundStepPrevoteFetch then RoundStepPrevoteFetch else RoundStepPrecommitFetch) = Step c"
    using False by auto
  obtain m where c': "c' = (scheduleTimeout FetchInterval (Height c) (Round c) (Step c)
      (call_app (Send m None) (next_read c)))\<lparr>inFetch := True\<rparr>"
    using assms False unfolding fetchMissingVotes_def Let_def eq
    by (auto simp: update_defs elim!: and_then_InrE)
  show ?thesis
  proof (rule simI)
    show "grows c c'" by (rule grows_frame) (simp_all add: c' update_defs)
    show "safe c'" if "safe c"
      using that step
      by (intro safe_later [OF that, where new = "[\<lparr>ti_Duration = FetchInterval, ti_Height = Height c, ti_Round = Round c,
            ti_Step = Step c\<rparr>]"]) (simp_all add: c' update_defs c_pos_def safe_def ti_hrs_def)
  qed (simp add: c' node_of_def update_defs)
qed

lemma handleMsg_sim:
  assumes "handleMsg env mi c = Inr c'" and "env_ok env" and "env_fits F env" and "msg_votes (mi_Msg mi) \<subseteq> A"
  shows "sim env A F c c'"
proof (cases "mi_Msg mi")
  case (MVote v)
  with assms show ?thesis by (auto simp: handleMsg_def msg_votes_def intro: tryAddVote_sim split: if_splits)
next
  case (MCommit k)
  define c1 where "c1 = (if Commit_Height k = Height c then c\<lparr>hasRecvCommitRecords := True\<rparr> else c)"
  have "sim env A F c c1" by (rule sim_silent) (simp_all add: c1_def node_of_def)
  moreover have "c' = c \<or> c' = c1 \<or> for_each (tryAddVote env) (c_Precommits k) c1 = Inr c'"
    using assms(1) MCommit by (auto simp: handleMsg_def handleCommit_def Let_def simp flip: c1_def split: if_splits)
  ultimately show ?thesis
    using assms(2-4) MCommit by (auto simp: msg_votes_def intro: for_each_tryAddVote_sim sim_trans)
next
  case (MFetchVotesReq q)
  with assms(1) show ?thesis by (auto simp: handleMsg_def intro: handleFetch_sim)
next
  case (MFetchVotesRsp r)
  with assms show ?thesis
    by (auto simp: handleMsg_def handleFetchRsp_def msg_votes_def intro!: for_each_tryAddVote_sim split: if_splits)
qed

text \<open>A timeout that is acted on is one scheduled for the very position the node is at.\<close>

lemma tock_position:
  assumes "safe c" and "ti \<in> set (ticks c)"
    and "\<not> (ti_Height ti \<noteq> Height c \<or> ti_Round ti < Round c \<or> (ti_Round ti = Round c \<and> ti_Step ti < Step c))"
  shows "ti_hrs ti = c_pos c"
  using assms by (force simp: safe_def ti_hrs_def c_pos_def HRS_le)

lemma handleTimeout_sim:
  assumes "handleTimeout env ti (GetRoundState c) c = Inr c'" and "ti \<in> set (ticks c)" and "safe c"
  shows "sim env A F c c'"
proof -
  have sim: "sim env A F c c'" if "ti_Round ti \<le> Round c" "ti_Step ti \<noteq> RoundStepNewRound"
    using assms(1) that
    by (auto simp: handleTimeout_def elim!: and_then_InrE split: if_splits
        intro: enterNewRound_sim enterPrevote_sim fetchMissingVotes_sim enterPrecommit_sim sim_trans)
  have same: "c' = c" if "ti_Height ti \<noteq> Height c \<or> ti_Round ti < Round c \<or> (ti_Round ti = Round c \<and> ti_Step ti < Step c)"
    using assms(1) that by (simp add: handleTimeout_def GetRoundState_def RoundState.defs)
  show ?thesis
  proof (cases "ti_Height ti \<noteq> Height c \<or> ti_Round ti < Round c \<or> (ti_Round ti = Round c \<and> ti_Step ti < Step c)")
    case False
    then have "ti_hrs ti = c_pos c" by (rule tock_position [OF assms(3,2)])
    moreover have "ti_Step ti \<noteq> RoundStepNewRound"
      using assms(2,3) by (auto simp: safe_def timeout_steps_def step_defs)
    ultimately show ?thesis by (intro sim) (simp_all add: ti_hrs_def c_pos_def)
  qed (use same in simp)
qed

text \<open>What an event brings to the queue.\<close>

fun received :: "core_event \<Rightarrow> msgInfo set" where
  "received (EvRecv m p) = {\<lparr>mi_Msg = m, mi_Peer = p\<rparr>}"
| "received _ = {}"

text \<open>What an event may bring along: a change of the application that \<open>F\<close> allows, and no restart.\<close>

definition event_fits :: "(int \<Rightarrow> ICommittee \<Rightarrow> bool) \<Rightarrow> core_event \<Rightarrow> Core \<Rightarrow> bool" where
  "event_fits F e c = (case e of EvApp V \<Rightarrow> F (Height c) V | EvStart \<Rightarrow> False | _ \<Rightarrow> True)"

definition queued :: "Core \<Rightarrow> Vote set" where
  "queued c = (\<Union>mi \<in> set (msgQueue c). msg_votes (mi_Msg mi))"

lemma msg_turn_sim:
  assumes "receiveRoutine_msg env c = Inr c'" and "env_ok env" and "env_fits F env" and "queued c \<subseteq> A"
  shows "sim env A F c c'"
proof (cases "msgQueue c")
  case Nil
  with assms(1) show ?thesis by (simp add: receiveRoutine_msg_def)
next
  case (Cons mi q)
  with assms(1) obtain c1 where c1: "handleMsg env mi (c\<lparr>msgQueue := q\<rparr>) = Inr c1"
    and c': "c' = c1\<lparr>msgCnt := wrap64 (msgCnt c1 + 1)\<rparr>"
    by (auto simp: receiveRoutine_msg_def elim!: and_then_InrE)
  have "sim env A F c (c\<lparr>msgQueue := q\<rparr>)" by (rule sim_silent) (auto simp: node_of_def Cons)
  also have "sim env A F \<dots> c1" using c1 assms(2,3) by (rule handleMsg_sim) (use assms(4) Cons in \<open>auto simp: queued_def\<close>)
  also have "sim env A F c1 c'" unfolding c' by (rule sim_silent) (simp_all add: node_of_def)
  finally show ?thesis .
qed

text \<open>A step of the core: the node makes moves, and its queue takes what arrives and what it has sent.\<close>

theorem core_step_sim:
  assumes "core_step env e c = Inr c'" and "event_fits F e c" and "env_ok env" and "env_fits F env" and "queued c \<subseteq> A"
    and "safe c"
  shows "safe c'" and "node_moves A F (node_of env c) (node_of env c')"
    and "set (votes_in (outbox c)) \<subseteq> set (votes_in (outbox c'))"
    and "set (msgQueue c') \<subseteq> set (msgQueue c) \<union> received e \<union> own_votes c'"
proof -
  have silent: "safe c' \<and> node_moves A F (node_of env c) (node_of env c') \<and> set (votes_in (outbox c)) \<subseteq> set (votes_in (outbox c')) \<and>
      set (msgQueue c') \<subseteq> set (msgQueue c) \<union> received e \<union> own_votes c'" if "sim env A F c c'"
    using that assms(6) by (auto simp: sim_def grows_def)
  have "safe c' \<and> node_moves A F (node_of env c) (node_of env c') \<and> set (votes_in (outbox c)) \<subseteq> set (votes_in (outbox c')) \<and>
      set (msgQueue c') \<subseteq> set (msgQueue c) \<union> received e \<union> own_votes c'"
  proof (cases e)
    case (EvRecv m p)
    let ?mi = "\<lparr>mi_Msg = m, mi_Peer = p\<rparr>"
    have "c' = c \<or> c' = c\<lparr>msgQueue := msgQueue c @ [?mi]\<rparr>"
      using assms(1) EvRecv by (auto simp: RecvMsg_def sendInternalMessage_def split: option.splits if_splits)
    then show ?thesis
      using assms(6) EvRecv by (auto simp: safe_def c_pos_def node_of_def)
  next
    case EvMsg
    with assms(1,3-5) show ?thesis by (intro silent) (auto intro: msg_turn_sim split: if_splits)
  next
    case (EvTock ti)
    with assms(1) show ?thesis
      using assms(6) by (intro silent) (auto simp: receiveRoutine_tock_def intro: handleTimeout_sim split: if_splits)
  next
    case (EvApp V)
    then have c': "c' = c\<lparr>app := V\<rparr>" and "F (Height c) V" using assms(1,2) by (simp_all add: event_fits_def)
    then have "node_move A F (node_of env c) ((node_of env c)\<lparr>n_app := V\<rparr>)"
      by (intro node_move.new_app) (simp add: node_of_def)
    then show ?thesis using assms(6) by (auto simp: c' safe_def c_pos_def node_of_def)
  next
    case EvStart
    with assms(2) show ?thesis by (simp add: event_fits_def)
  next
    case EvStop
    then have "c' = c \<or> c' = c\<lparr>started := False\<rparr>" using assms(1) by (auto simp: Stop_def split: if_splits)
    then show ?thesis by (intro silent) (auto simp: node_of_def intro!: sim_silent)
  qed
  then show "safe c'" and "node_moves A F (node_of env c) (node_of env c')"
    and "set (votes_in (outbox c)) \<subseteq> set (votes_in (outbox c'))"
    and "set (msgQueue c') \<subseteq> set (msgQueue c) \<union> received e \<union> own_votes c'" by blast+
qed

end
