(* ===== verification/Core_Runs.thy ===== *)
theory Core_Runs
  imports Core_Refines
begin

text \<open>
  A node from its start on: the state it starts in satisfies the invariant of the protocol, and
  every run without a restart keeps it.
\<close>

section \<open>From the start on\<close>

text \<open>\<open>booted env V c\<close>: a new node started with the application \<open>V\<close> is in state \<open>c\<close>.\<close>

definition booted :: "Env \<Rightarrow> ICommittee \<Rightarrow> Core \<Rightarrow> bool" where
  "booted env V c \<longleftrightarrow>
     env_ok env \<and> (\<exists>st. GetAppState V = Some st \<and> 0 \<le> LastHeight st \<and> LastHeight st < max_int64) \<and>
     Start env (NewCore V) = Inr (None, c)"

text \<open>\<open>runs env es c c'\<close>: the events \<open>es\<close> take the node from \<open>c\<close> to \<open>c'\<close>, without a restart.\<close>

definition runs :: "Env \<Rightarrow> core_event list \<Rightarrow> Core \<Rightarrow> Core \<Rightarrow> bool" where
  "runs env es c c' \<longleftrightarrow> EvStart \<notin> set es \<and> run_steps (core_step env) es c = Inr c'"

lemma time_Sub_int64 [simp]: "is_int64 (time_Sub t u)"
  by (simp add: time_Sub_def is_int64_def)

lemma Start_Inr:
  assumes "Start env c = Inr (None, c')" and "GetAppState (app c) = Some st" and "0 \<le> LastHeight st"
    and "LastHeight st < max_int64" and "CommitRound c \<le> -1 \<or> Height c \<le> 0 \<or> Height c \<le> LastHeight st"
  obtains hvs dur where "Height c' = LastHeight st + 1" "Round c' = 0" "Step c' = RoundStepNewHeight"
    "LockedRound c' = -1" "LockedProposal c' = None" "Proposal c' = None" "CommitRound c' = -1" "LastCommit c' = None"
    "NewHeightVoteSet (LastHeight st + 1) (LastProposedData st) = Inr hvs" "Votes c' = Some hvs"
    "lastCommittedData c' = LastProposedData st" "app c' = app c" "started c'"
    "byzantinePrevote c' = byzantinePrevote c" "outbox c' = outbox c" "msgQueue c' = msgQueue c"
    "ticks c' = [\<lparr>ti_Duration = dur, ti_Height = Height c', ti_Round = 0, ti_Step = RoundStepNewHeight\<rparr>]"
    "is_int64 dur" "msgCnt c' = msgCnt c"
proof -
  let ?c = "c\<lparr>ticks := [], Votes := None\<rparr>"
  have g: "\<not> inStartOrStop c" "\<not> started c" using assms(1) by (auto simp: Start_def split: if_splits)
  obtain c1 where c1: "updateToAppState env (Some st) ?c = Inr c1"
    and c': "c' = (scheduleRound0 env ((next_read c1)\<lparr>StartTime := common_Now env c1 + 1000 * Millisecond\<rparr>))\<lparr>started := True\<rparr>"
    using assms(1,2) g by (auto simp: Start_def Let_def elim!: and_then_InrE)
  from c1 obtain hvs lp rd t where lp: "last_precommits ?c = Inr lp"
    and hvs: "NewHeightVoteSet (wrap64 (LastHeight st + 1)) (LastProposedData st) = Inr hvs"
    and c1: "c1 = ?c\<lparr>Height := wrap64 (LastHeight st + 1), Round := 0, Step := RoundStepNewHeight, inFetch := False,
      reads := rd, StartTime := t, Proposal := None, LockedRound := -1, LockedProposal := None,
      CommitRound := -1, LastCommit := lp, lastCommittedData := LastProposedData st, Votes := Some hvs\<rparr>"
    by (rule updateToAppState_Inr)
  have w: "wrap64 (LastHeight st + 1) = LastHeight st + 1" using assms(3,4) by (simp add: wrap64_idI)
  have "lp = None" using lp by (simp add: last_precommits_def)
  with hvs show thesis
    by (intro that) (simp_all add: c' c1 w scheduleRound0_def update_defs Let_def, simp)
qed

lemma booted_spec:
  assumes "booted env V c"
  shows "safe c" and "node_inv (node_of env c)" and "votes_in (outbox c) = []" and "commits_in (outbox c) = []"
proof -
  obtain st where st: "GetAppState V = Some st" "0 \<le> LastHeight st" "LastHeight st < max_int64"
    and start: "Start env (NewCore V) = Inr (None, c)" using assms by (auto simp: booted_def)
  have new: "GetAppState (app (NewCore V)) = Some st" "Height (NewCore V) \<le> 0" "byzantinePrevote (NewCore V) = None"
    "outbox (NewCore V) = []"
    using st by (simp_all add: NewCore_def)
  from start new(1) st(2,3) obtain hvs dur where c: "Height c = LastHeight st + 1" "Round c = 0" "Step c = RoundStepNewHeight"
    "LockedProposal c = None" "NewHeightVoteSet (LastHeight st + 1) (LastProposedData st) = Inr hvs" "Votes c = Some hvs"
    "byzantinePrevote c = None" "outbox c = []"
    "ticks c = [\<lparr>ti_Duration = dur, ti_Height = Height c, ti_Round = 0, ti_Step = RoundStepNewHeight\<rparr>]"
    by (rule Start_Inr) (simp_all add: new)
  show "safe c" using c st(2) by (simp add: safe_def ti_hrs_def c_pos_def timeout_steps_def)
  show "votes_in (outbox c) = []" "commits_in (outbox c) = []" using c by simp_all
  show "node_inv (node_of env c)"
    using c NewHeightVoteSet_shape [OF c(5)]
    by (simp add: node_inv_def votes_ok_def ordered_sent_def lock_ok_def precommits_ok_def prevotes_ok_def
        commits_ok_def node_of_def)
qed

text \<open>The states a node passes through, as a state machine with the protocol's invariant.\<close>

definition core_inv :: "Env \<Rightarrow> Core \<Rightarrow> bool" where
  "core_inv env c \<longleftrightarrow> env_ok env \<and> safe c \<and> node_inv (node_of env c)"

lemma any_step:
  assumes "core_step env e c = Inr c'" and "e \<noteq> EvStart" and "env_ok env" and "safe c"
  shows "safe c'" and "any_moves (node_of env c) (node_of env c')"
proof -
  have "event_fits (\<lambda>_ _. True) e c" using assms(2) by (simp add: event_fits_def split: core_event.split)
  then show "safe c'" and "any_moves (node_of env c) (node_of env c')"
    using core_step_sim [OF assms(1) _ assms(3) env_fits_True _ assms(4), of UNIV] by simp_all
qed

interpretation core_machine: machine "core_step env" "\<lambda>e. e \<noteq> EvStart" "core_inv env" for env
proof unfold_locales
  fix e c c' assume "e \<noteq> EvStart" and "core_inv env c" and "core_step env e c = Inr c'"
  then show "core_inv env c'"
    using any_step [of env e c c'] node_inv_moves by (auto simp: core_inv_def)
qed

lemma runs_inv: "runs env es c c' \<Longrightarrow> core_inv env c \<Longrightarrow> core_inv env c'"
  unfolding runs_def by (rule core_machine.run_inv) (auto simp: list_all_iff)

lemma runs_sim:
  assumes "run_steps (core_step env) es c = Inr c'" and "EvStart \<notin> set es" and "env_ok env" and "safe c"
  shows "any_moves (node_of env c) (node_of env c')"
  using assms(1,2,4)
proof (induction es arbitrary: c)
  case (Cons e es)
  then obtain c1 where c1: "core_step env e c = Inr c1" "run_steps (core_step env) es c1 = Inr c'"
    by (auto elim!: and_then_InrE)
  from any_step [OF c1(1) _ assms(3)] Cons.prems have "safe c1" "any_moves (node_of env c) (node_of env c1)" by auto
  with Cons.IH [OF c1(2)] Cons.prems(2) show ?case by simp
qed simp

lemma booted_runs_inv: "booted env V c0 \<Longrightarrow> runs env es c0 c \<Longrightarrow> core_inv env c"
  using booted_spec [of env V c0] runs_inv [of env es c0 c] by (simp add: core_inv_def booted_def)

lemma sorted_positions_unique:
  assumes "sorted_wrt (<) (map vote_pos vs)" and "v \<in> set vs" and "w \<in> set vs" and "vote_pos v = vote_pos w"
  shows "v = w"
proof -
  have "distinct (map vote_pos vs)" using assms(1) by (simp add: strict_sorted_iff)
  with assms(2-4) show ?thesis by (auto simp: distinct_map inj_on_def)
qed

end
