(* ===== verification/Core_Rules.thy ===== *)
theory Core_Rules
  imports Core_Runs
begin

text \<open>
  Rules for invariants of the core. A predicate on its state that the elementary changes of the
  handlers keep is kept by the handlers, and with two more laws on the adding of votes by every
  step of the node. Two locales state the laws; the invariants of the core interpret them.
\<close>

section \<open>Handlers\<close>

text \<open>\<open>okr\<close> is what the invariant asks of rounds, \<open>okv\<close> of the votes that arrive.\<close>

locale core_rules =
  fixes env :: Env and I :: "Core \<Rightarrow> bool" and okr :: "int \<Rightarrow> bool" and okv :: "Vote \<Rightarrow> bool"
  assumes reading: "\<And>c n. I c \<Longrightarrow> I (c\<lparr>reads := n\<rparr>)"
    and fetching: "\<And>c b. I c \<Longrightarrow> I (c\<lparr>inFetch := b\<rparr>)"
    and stepping: "\<And>c r st. I c \<Longrightarrow> okr r \<Longrightarrow> 0 < st \<Longrightarrow> st < RoundStepCommit \<Longrightarrow> I (updateRoundStep r st c)"
    and schedule: "\<And>c r d st. I c \<Longrightarrow> okr r \<Longrightarrow> is_int64 d \<Longrightarrow> I (scheduleTimeout d (Height c) r st c)"
    and sending: "\<And>c m p. I c \<Longrightarrow> I (call_app (Send m p) c)"
    and voting: "\<And>c v. I c \<Longrightarrow> v_Height v = Height c \<Longrightarrow> okr (v_Round v) \<Longrightarrow> I (signAddVote env v c)"
    and propose: "\<And>c v. I c \<Longrightarrow> v_Type v = ProposalType \<Longrightarrow> v_Height v = Height c \<Longrightarrow> okr (v_Round v) \<Longrightarrow> I (c\<lparr>Proposal := Some v\<rparr>)"
    and no_proposal: "\<And>c. I c \<Longrightarrow> I (c\<lparr>Proposal := None\<rparr>)"
    and relocking: "\<And>c r. I c \<Longrightarrow> okr r \<Longrightarrow> I (c\<lparr>LockedRound := r\<rparr>)"
    and locking: "\<And>c r. I c \<Longrightarrow> okr r \<Longrightarrow> I (c\<lparr>LockedRound := r, LockedProposal := Proposal c\<rparr>)"
    and releasing: "\<And>c. I c \<Longrightarrow> I (c\<lparr>LockedRound := -1, LockedProposal := None\<rparr>)"
    and track: "\<And>c r h h'. I c \<Longrightarrow> okr r \<Longrightarrow> Votes c = Some h \<Longrightarrow> SetRound (wrap64 (r + 1)) h = Inr h' \<Longrightarrow>
      I (c\<lparr>Votes := Some h'\<rparr>)"
    and straggle: "\<And>c v a e vs. I c \<Longrightarrow> okv v \<Longrightarrow> AddVote (app c) (Some v) (LastCommit c) = Inr (a, e, vs) \<Longrightarrow>
      I (c\<lparr>LastCommit := Some vs\<rparr>)"
    and round_ok: "\<And>c. I c \<Longrightarrow> okr (Round c)"
    and okr_0: "okr 0"
    and okr_wrap: "\<And>r. okr (wrap64 r)"
begin

lemma next_read: "I c \<Longrightarrow> I (next_read c)"
  unfolding next_read_def by (rule reading)

lemma enter:
  assumes "I c" and "okr r" and "0 < st" and "st < RoundStepCommit" and "is_int64 d"
  shows "I (scheduleTimeout d (Height c) r st' (updateRoundStep r st c))"
    and "I (updateRoundStep r st (scheduleTimeout d (Height c) r st' c))"
  using schedule [OF stepping [OF assms(1-4)] assms(2,5), of st'] stepping [OF schedule [OF assms(1,2,5), of st'] assms(2-4)]
  by (simp_all add: updateRoundStep_def)

lemma steps_within [simp]:
  "0 < RoundStepNewRound" "0 < RoundStepPropose" "0 < RoundStepPrevote" "0 < RoundStepPrevoteFetch" "0 < RoundStepPrevoteWait"
  "0 < RoundStepPrecommit" "0 < RoundStepPrecommitFetch" "0 < RoundStepPrecommitWait"
  "RoundStepNewRound < RoundStepCommit" "RoundStepPropose < RoundStepCommit" "RoundStepPrevote < RoundStepCommit"
  "RoundStepPrevoteFetch < RoundStepCommit" "RoundStepPrevoteWait < RoundStepCommit" "RoundStepPrecommit < RoundStepCommit"
  "RoundStepPrecommitFetch < RoundStepCommit" "RoundStepPrecommitWait < RoundStepCommit"
  by (simp_all add: step_defs)

lemma durations [simp]: "is_int64 FetchInterval" "is_int64 (cfg_Propose k r)" "is_int64 (cfg_Prevote k r)" "is_int64 (cfg_Precommit k r)"
  by (simp_all add: FetchInterval_def Millisecond_def is_int64_def [of 1000000000] cfg_Propose_def cfg_Prevote_def cfg_Precommit_def)

lemma enterPrevote_keeps: "I c \<Longrightarrow> okr r \<Longrightarrow> I (enterPrevote env h r c)"
proof -
  assume I: "I c" and r: "okr r"
  let ?c1 = "doPrevote env h r c"
  have "I ?c1" unfolding doPrevote_def
    by (rule voting) (simp_all add: I next_read round_ok next_read_def reading)
  from enter(1) [OF stepping [OF this r, of RoundStepPrevote] r] have
    "I (enterPrevoteFetch (Height c) r (updateRoundStep r RoundStepPrevote ?c1))"
    by (simp add: enterPrevoteFetch_def updateRoundStep_def doPrevote_def next_read_def)
  with I show ?thesis by (auto simp: enterPrevote_def)
qed

lemma doPropose_keeps: "I c \<Longrightarrow> okr r \<Longrightarrow> I (doPropose env (Height c) r c)"
proof -
  assume I: "I c" and r: "okr r"
  define v where "v = (new_vote env ProposalType (Height c) r (DecidesProposal (app c)) c)\<lparr>v_Proposed := proposal_data c\<rparr>"
  define w where "w = (if isValidator env (next_read c) then SignVote (privVal env) v else v)"
  have v: "v_Height v = Height c" "v_Round v = r" by (simp_all add: v_def)
  have w: "v_Type w = ProposalType" "v_Height w = Height c" "v_Round w = r" by (simp_all add: w_def v) (simp_all add: v_def)
  have "I (signAddVote env v (next_read c))"
    by (rule voting) (simp_all add: I r v next_read_def reading)
  then have "I ((signAddVote env v (next_read c))\<lparr>Proposal := Some w\<rparr>)"
    by (rule propose) (simp_all add: w r next_read_def)
  moreover have "doPropose env (Height c) r c = (signAddVote env v (next_read c))\<lparr>Proposal := Some w\<rparr>"
    by (auto simp: doPropose_def Let_def w_def v_def proposal_data_def next_read_def new_vote_def NewVote_def
        split: option.split)
  ultimately show ?thesis by simp
qed

lemma enterPropose_keeps: "I c \<Longrightarrow> okr r \<Longrightarrow> I (enterPropose env h r c)"
proof -
  assume I: "I c" and r: "okr r"
  define c1 where "c1 = scheduleTimeout (cfg_Propose (cfg c) r) (Height c) r RoundStepPropose c"
  define c2 where "c2 = (if \<not> IsValidator (app c1) (GetSelfPubKey (privVal env)) then c1
      else if GetCurrentProposer (app c1) (Round c1) = GetSelfPubKey (privVal env) then doPropose env (Height c) r c1 else c1)"
  define c3 where "c3 = updateRoundStep r RoundStepPropose c2"
  have c1: "I c1" "Height c1 = Height c" unfolding c1_def by (rule schedule) (simp_all add: I r scheduleTimeout_def)
  then have "I c2" using doPropose_keeps [OF c1(1) r] by (simp add: c2_def)
  then have "I c3" unfolding c3_def by (rule stepping) (simp_all add: r)
  then have "I (enterPrevote env (Height c) (Round c3) c3)" by (intro enterPrevote_keeps) (simp_all add: round_ok)
  moreover have "enterPropose env (Height c) r c = c \<or>
      enterPropose env (Height c) r c = (if isReadyToPrevote c3 then enterPrevote env (Height c) (Round c3) c3 else c3)"
    unfolding enterPropose_def Let_def c3_def c2_def c1_def by simp
  ultimately have "I (enterPropose env (Height c) r c)" using I \<open>I c3\<close> by (metis (full_types))
  then show ?thesis using I by (cases "Height c = h") (simp_all add: enterPropose_def)
qed

lemma enterNewRound_keeps:
  assumes "enterNewRound env h r c = Inr c'" and "I c" and "okr r"
  shows "I c'"
proof (cases "c' = c")
  case False
  define c2 where "c2 = (if r = 0 then updateRoundStep r RoundStepNewRound (next_read c)
    else (updateRoundStep r RoundStepNewRound (next_read c))\<lparr>Proposal := None\<rparr>)"
  have "I (updateRoundStep r RoundStepNewRound (next_read c))"
    using assms(2,3) by (intro stepping next_read) simp_all
  then have c2: "I c2" by (auto simp: c2_def no_proposal)
  obtain hvs hvs' where hvs: "Votes c2 = Some hvs" "SetRound (wrap64 (r + 1)) hvs = Inr hvs'"
    "c' = enterPropose env h r (c2\<lparr>Votes := Some hvs'\<rparr>)"
    using assms(1) False by (auto simp: enterNewRound_def Let_def simp flip: c2_def elim!: and_then_InrE split: if_splits)
  from track [OF c2 assms(3) hvs(1,2)] assms(3) show ?thesis unfolding hvs(3) by (rule enterPropose_keeps)
qed (use assms in simp)

lemma enterPrevoteWait_keeps:
  assumes "enterPrevoteWait env h r c = Inr c'" and "I c" and "okr r"
  shows "I c'"
proof -
  have "c' = c \<or> c' = updateRoundStep r RoundStepPrevoteWait
      (scheduleTimeout (cfg_Prevote (cfg c) r) (Height c) r RoundStepPrevoteWait c)"
    using assms(1) by (auto simp: enterPrevoteWait_def elim!: and_then_InrE split: if_splits)
  with enter(2) [OF assms(2,3)] assms(2) show ?thesis by auto
qed

lemma enterPrecommitWait_keeps:
  assumes "enterPrecommitWait env h r c = Inr c'" and "I c" and "okr r"
  shows "I c'"
proof -
  have "c' = c \<or> c' = updateRoundStep r RoundStepPrecommitWait
      (scheduleTimeout (cfg_Precommit (cfg c) r) (Height c) r RoundStepPrecommitWait c)"
    using assms(1) by (auto simp: enterPrecommitWait_def elim!: and_then_InrE split: if_splits)
  with enter(2) [OF assms(2,3)] assms(2) show ?thesis by auto
qed

lemma done_enterPrecommit_keeps:
  assumes "I c" and "okr r"
  shows "I (done_enterPrecommit r c)"
  using enter(1) [OF stepping [OF assms, of RoundStepPrecommit] assms(2)]
  by (simp add: done_enterPrecommit_def enterPrecommitFetch_def updateRoundStep_def)

lemma precommit_polka_keeps:
  assumes "precommit_polka env r d v c = Inr c2" and I: "I c" and r: "okr r"
    and v: "v_Height v = Height c" "okr (v_Round v)"
  shows "I c2"
  using assms(1)
proof (cases rule: precommit_polka_Inr)
  case (locked lp)
  then show ?thesis using voting [OF relocking [OF I r], of "v\<lparr>v_Proposed := d\<rparr>"] v by simp
next
  case (lock p)
  then show ?thesis using voting [OF locking [OF I r], of "v\<lparr>v_Proposed := d\<rparr>"] v by simp
next
  case unlock
  then show ?thesis using voting [OF releasing [OF I], of v] v by simp
qed

lemma enterPrecommit_keeps:
  assumes "enterPrecommit env h r c = Inr c'" and I: "I c" and r: "okr r"
  shows "I c'"
proof (cases "c' = c")
  case False
  let ?v = "new_vote env PrecommitType (Height c) r NilData c" and ?c = "next_read c"
  have h: "Height c = h" using assms(1) False by (auto simp: enterPrecommit_def split: if_splits)
  obtain hvs where hvs: "Votes c = Some hvs"
    using assms(1) False by (auto simp: enterPrecommit_def elim!: and_then_InrE split: if_splits)
  have I1: "I ?c" and v: "v_Height ?v = Height ?c" using I by (simp_all add: next_read) (simp add: next_read_def)
  have "\<exists>c2. c' = done_enterPrecommit r c2 \<and> I c2"
  proof (cases "Prevotes r hvs" rule: TwoThirdsMajority_cases)
    case none
    with assms(1) False hvs h have "c' = done_enterPrecommit r (signAddVote env ?v ?c)"
      by (simp add: enterPrecommit_def Let_def split: if_splits)
    moreover have "I (signAddVote env ?v ?c)" using I1 v r by (intro voting) simp_all
    ultimately show ?thesis by blast
  next
    case (some d)
    with assms(1) False hvs h obtain c2 where c2: "precommit_polka env r d ?v ?c = Inr c2" "c' = done_enterPrecommit r c2"
      by (simp add: enterPrecommit_def Let_def split: if_splits) (auto elim!: and_then_InrE)
    have "I c2" using c2(1) I1 r v by (rule precommit_polka_keeps) (simp add: r)
    with c2(2) show ?thesis by blast
  qed
  then show ?thesis using done_enterPrecommit_keeps r by blast
qed (use assms in simp)

lemma defaultSetProposal_keeps: "I c \<Longrightarrow> v_Type v = ProposalType \<Longrightarrow> I (snd (defaultSetProposal env v c))"
  by (auto simp: defaultSetProposal_def Let_def intro!: enterPrevote_keeps propose round_ok)

lemma polka_unlock_keeps: "I c \<Longrightarrow> I (polka_unlock v ps c)"
  by (auto simp: polka_unlock_def Let_def intro!: no_proposal releasing split: prod.split)

lemma added_prevote_keeps:
  assumes "added_prevote env h v hvs c = Inr c'" and "I c" and "okr (v_Round v)"
  shows "I c'"
proof -
  have I1: "I (polka_unlock v (Prevotes (v_Round v) hvs) c)" using assms(2) by (rule polka_unlock_keeps)
  show ?thesis
    using assms(1,3) I1 round_ok [OF assms(2)]
    by (auto simp: added_prevote_def Let_def split: if_splits
        intro: enterNewRound_keeps enterPrecommit_keeps enterPrevoteWait_keeps enterPrevote_keeps)
qed

lemma add_straggler_keeps:
  assumes "add_straggler env v c = Inr (a, e, c')" and "I c" and "okv v"
  shows "I c'"
proof (cases "c' = c")
  case False
  with assms(1) obtain a' e' vs where "AddVote (app c) (Some v) (LastCommit c) = Inr (a', e', vs)"
    and c': "c' = c\<lparr>LastCommit := Some vs\<rparr> \<or> enterNewRound env (Height c) 0 (c\<lparr>LastCommit := Some vs\<rparr>) = Inr c'"
    by (auto simp: add_straggler_def Let_def elim!: and_then_InrE split: if_splits)
  with assms(2,3) have "I (c\<lparr>LastCommit := Some vs\<rparr>)" by (intro straggle)
  with c' show ?thesis using enterNewRound_keeps okr_0 by blast
qed (use assms in simp)

text \<open>An invariant that commits keep as well is kept by the adding of precommits.\<close>

lemma added_precommit_keeps:
  assumes "added_precommit env h v hvs c = Inr c'" and I: "I c" and r: "okr (v_Round v)"
    and commit: "\<And>c c'. I c \<Longrightarrow> enterCommit env h (v_Round v) c = Inr c' \<Longrightarrow> I c'"
  shows "I c'"
proof (cases "HasTwoThirdsMajority (Precommits (v_Round v) hvs)")
  case True
  with assms(1) obtain c1 c2 c3 where c1: "enterNewRound env h (v_Round v) c = Inr c1"
    and c2: "enterPrecommit env h (v_Round v) c1 = Inr c2" and c3: "enterCommit env h (v_Round v) c2 = Inr c3"
    and c': "c' = c3 \<or> enterNewRound env (Height c3) 0 c3 = Inr c'"
    by (auto simp: added_precommit_def elim!: and_then_InrE split: if_splits)
  from enterPrecommit_keeps [OF c2 enterNewRound_keeps [OF c1 I r] r] c3 have "I c3" by (rule commit)
  with c' show ?thesis using enterNewRound_keeps okr_0 by blast
next
  case False
  then consider "c' = c" | c1 where "enterNewRound env h (v_Round v) c = Inr c1"
      "enterPrecommitWait env h (v_Round v) c1 = Inr c'"
    using assms(1) by (auto simp: added_precommit_def elim!: and_then_InrE split: if_splits)
  then show ?thesis
  proof cases
    case (2 c1)
    show ?thesis using 2(2) enterNewRound_keeps [OF 2(1) I r] r by (rule enterPrecommitWait_keeps)
  qed (use I in simp)
qed

lemma fetchMissingVotes_keeps:
  assumes "fetchMissingVotes env c = Inr c'" and "I c"
  shows "I c'"
proof (cases "c' = c")
  case False
  with assms(1) obtain m st where c': "c' = (scheduleTimeout FetchInterval (Height c) (Round c) st
      (call_app (Send m None) (next_read c)))\<lparr>inFetch := True\<rparr>"
    by (auto simp: fetchMissingVotes_def Let_def update_defs elim!: and_then_InrE split: if_splits)
  let ?c1 = "call_app (Send m None) (next_read c)"
  have "I ?c1" by (rule sending) (rule next_read [OF assms(2)])
  from schedule [OF this round_ok [OF assms(2)], of FetchInterval st]
  have "I (scheduleTimeout FetchInterval (Height c) (Round c) st ?c1)" by (simp add: update_defs)
  then show ?thesis unfolding c' by (rule fetching)
qed (use assms in simp)

lemma handleFetch_keeps: "handleFetch env q p c = Inr c' \<Longrightarrow> I c \<Longrightarrow> I c'"
  by (auto simp: handleFetch_def elim!: and_then_InrE split: if_splits option.splits intro!: sending next_read)

end


section \<open>Steps of the node\<close>

text \<open>What a message asks of the invariant is asked of the votes it carries.\<close>

locale core_step_rules = core_rules +
  assumes adding: "\<And>c v h a e h'. I c \<Longrightarrow> okv v \<Longrightarrow> Votes c = Some h \<Longrightarrow> v_Height v = Height c \<Longrightarrow> 0 \<le> v_Round v \<Longrightarrow>
      hvs_AddVote (app c) v h = Inr (a, e, h') \<Longrightarrow> \<not> a \<or> v_Type v = PrevoteType \<Longrightarrow> I (c\<lparr>Votes := Some h'\<rparr>)"
    and adding_precommit: "\<And>c v h a e h' c'. I c \<Longrightarrow> okv v \<Longrightarrow> Votes c = Some h \<Longrightarrow> v_Height v = Height c \<Longrightarrow>
      0 \<le> v_Round v \<Longrightarrow> hvs_AddVote (app c) v h = Inr (a, e, h') \<Longrightarrow> v_Type v = PrecommitType \<Longrightarrow>
      added_precommit env (Height c) v h' (c\<lparr>Votes := Some h'\<rparr>) = Inr c' \<Longrightarrow> I c'"
    and okv_round: "\<And>v. okv v \<Longrightarrow> okr (v_Round v)"
    and tick_round: "\<And>c ti. I c \<Longrightarrow> ti \<in> set (ticks c) \<Longrightarrow> okr (ti_Round ti)"
    and queue: "\<And>c mi v. I c \<Longrightarrow> mi \<in> set (msgQueue c) \<Longrightarrow> v \<in> msg_votes (mi_Msg mi) \<Longrightarrow> okv v"
    and unqueue: "\<And>c mi q. I c \<Longrightarrow> msgQueue c = mi # q \<Longrightarrow> I (c\<lparr>msgQueue := q\<rparr>)"
    and receive: "\<And>c m p. I c \<Longrightarrow> (\<And>v. v \<in> msg_votes m \<Longrightarrow> okv v) \<Longrightarrow>
      I (c\<lparr>msgQueue := msgQueue c @ [\<lparr>mi_Msg = m, mi_Peer = p\<rparr>]\<rparr>)"
    and counting: "\<And>c n. I c \<Longrightarrow> I (c\<lparr>msgCnt := wrap64 n\<rparr>)"
    and marking: "\<And>c b. I c \<Longrightarrow> I (c\<lparr>hasRecvCommitRecords := b\<rparr>)"
    and stopping: "\<And>c. I c \<Longrightarrow> I (c\<lparr>started := False\<rparr>)"
    and answering: "\<And>c V. I c \<Longrightarrow> I (c\<lparr>app := V\<rparr>)"
begin

lemma addVote_keeps:
  assumes "addVote env p c = Inr (a, e, c')" and I: "I c" and ok: "\<And>v. p = Some v \<Longrightarrow> okv v"
  shows "I c'"
  using assms(1)
proof (cases rule: addVote_Inr)
  case 1
  with I ok show ?thesis using add_straggler_keeps by blast
next
  case (3 v e')
  with defaultSetProposal_keeps [OF I 3(2)] show ?thesis by simp
next
  case (4 v hvs hvs')
  with I ok adding [of c v hvs a e hvs'] show ?thesis by simp
next
  case (5 v hvs hvs')
  have "I (c\<lparr>Votes := Some hvs'\<rparr>)" using 5 I ok by (intro adding) auto
  with 5(8) show ?thesis using okv_round [OF ok [OF 5(1)]] by (rule added_prevote_keeps)
next
  case (6 v hvs hvs')
  then show ?thesis using adding_precommit [OF I ok [OF 6(1)] 6(3,2,5,4,7,8)] by simp
qed (use I in simp)

lemma tryAddVote_keeps: "tryAddVote env p c = Inr c' \<Longrightarrow> I c \<Longrightarrow> (\<And>v. p = Some v \<Longrightarrow> okv v) \<Longrightarrow> I c'"
  by (auto simp: tryAddVote_def elim!: and_then_InrE intro: addVote_keeps)

lemma each_vote_keeps:
  assumes "for_each (tryAddVote env) ps c = Inr c'" and "I c" and "\<And>v. Some v \<in> set ps \<Longrightarrow> okv v"
  shows "I c'"
  using assms(1,2) by (rule for_each_invariant) (use assms(3) tryAddVote_keeps in blast)

lemma handleMsg_keeps:
  assumes "handleMsg env mi c = Inr c'" and I: "I c" and ok: "\<And>v. v \<in> msg_votes (mi_Msg mi) \<Longrightarrow> okv v"
  shows "I c'"
proof (cases "mi_Msg mi")
  case (MVote v)
  with assms show ?thesis by (auto simp: handleMsg_def msg_votes_def intro: tryAddVote_keeps split: if_splits)
next
  case (MCommit k)
  define c1 where "c1 = (if Commit_Height k = Height c then c\<lparr>hasRecvCommitRecords := True\<rparr> else c)"
  have "I c1" using I marking by (auto simp: c1_def)
  moreover have "c' = c \<or> c' = c1 \<or> for_each (tryAddVote env) (c_Precommits k) c1 = Inr c'"
    using assms(1) MCommit by (auto simp: handleMsg_def handleCommit_def Let_def simp flip: c1_def split: if_splits)
  ultimately show ?thesis using I ok MCommit by (auto simp: msg_votes_def intro: each_vote_keeps)
next
  case (MFetchVotesReq q)
  with assms show ?thesis by (auto simp: handleMsg_def intro: handleFetch_keeps)
next
  case (MFetchVotesRsp r)
  with assms show ?thesis by (auto simp: handleMsg_def handleFetchRsp_def msg_votes_def intro: each_vote_keeps split: if_splits)
qed

lemma handleTimeout_keeps:
  assumes "handleTimeout env ti rs c = Inr c'" and "I c" and "ti \<in> set (ticks c)"
  shows "I c'"
  using assms(1,2) tick_round [OF assms(2,3)]
  by (auto simp: handleTimeout_def elim!: and_then_InrE split: if_splits
      intro: enterNewRound_keeps [OF _ _ okr_0] enterNewRound_keeps [OF _ _ okr_wrap] enterPropose_keeps okr_0 enterPrevote_keeps
        fetchMissingVotes_keeps enterPrecommit_keeps)

theorem core_step_keeps:
  assumes "core_step env e c = Inr c'" and "e \<noteq> EvStart" and I: "I c"
    and "\<And>mi v. mi \<in> received e \<Longrightarrow> v \<in> msg_votes (mi_Msg mi) \<Longrightarrow> okv v"
  shows "I c'"
proof (cases e)
  case (EvRecv m p)
  then have "c' = c \<or> c' = c\<lparr>msgQueue := msgQueue c @ [\<lparr>mi_Msg = m, mi_Peer = p\<rparr>]\<rparr>"
    using assms(1) by (auto simp: RecvMsg_def sendInternalMessage_def split: option.splits if_splits)
  with receive [OF I, of m p] I assms(4) EvRecv show ?thesis by auto
next
  case EvMsg
  then consider "c' = c" | mi q c1 where "msgQueue c = mi # q" "handleMsg env mi (c\<lparr>msgQueue := q\<rparr>) = Inr c1"
      "c' = c1\<lparr>msgCnt := wrap64 (msgCnt c1 + 1)\<rparr>"
    using assms(1) by (auto simp: receiveRoutine_msg_def elim!: and_then_InrE split: if_splits list.splits)
  then show ?thesis
  proof cases
    case (2 mi q c1)
    have "I c1" using 2(2) unqueue [OF I 2(1)] by (rule handleMsg_keeps) (use queue [OF I, of mi] 2(1) in simp)
    then show ?thesis unfolding 2(3) by (rule counting)
  qed (use I in simp)
next
  case (EvTock ti)
  with assms(1) I show ?thesis by (auto simp: receiveRoutine_tock_def intro: handleTimeout_keeps split: if_splits)
next
  case (EvApp V)
  with assms(1) answering [OF I] show ?thesis by auto
next
  case EvStop
  with assms(1) I stopping show ?thesis by (auto simp: Stop_def split: if_splits)
qed (use assms(2) in simp)

end

end
