(* ===== verification/Backing.thy ===== *)
theory Backing
  imports Protocol
begin

text \<open>
  What a majority in a vote set is backed by, without a bound on the number of votes: each
  validator counts once for each proposed data, so the sum of one proposed data never exceeds
  the total power. Facts about the vote sets of a height are lifted to the moves of a node.
\<close>

section \<open>Committees\<close>

text \<open>The committee of a height: its validators, each with a power, and the total.\<close>

definition committee_ok :: "ICommittee \<Rightarrow> PubKey list \<Rightarrow> bool" where
  "committee_ok W vals \<longleftrightarrow> committee_total W vals \<and> total_ok W \<and> nonneg_powers W"

definition same_powers :: "ICommittee \<Rightarrow> ICommittee \<Rightarrow> bool" where
  "same_powers V W \<longleftrightarrow>
     GetVotingPower V = GetVotingPower W \<and> TotalVotingPower V = TotalVotingPower W \<and>
     (\<forall>k. GetValidator V k = None \<longleftrightarrow> GetValidator W k = None)"

lemma same_powers_refl [simp]: "same_powers V V"
  by (simp add: same_powers_def)

lemma same_powers_quorum: "same_powers V W \<Longrightarrow> quorum_of V = quorum_of W"
  by (simp add: same_powers_def quorum_of_def two_thirds_def GetTotalVotingPower_def)

definition backed :: "ICommittee \<Rightarrow> PubKey list \<Rightarrow> VoteSet \<Rightarrow> bool" where
  "backed W vals vs \<longleftrightarrow>
     (\<forall>d. voters vs d \<subseteq> set vals \<and> pdv_sum (pdv_of vs d) = tally W (voters vs d)) \<and>
     (vs_maj23 vs \<noteq> NilData \<longrightarrow> quorum_of W \<le> tally W (voters vs (vs_maj23 vs)))"

lemma tally_within:
  assumes "committee_ok W vals" and "S \<subseteq> set vals"
  shows "0 \<le> tally W S" and "tally W S < 2 ^ 62"
proof -
  have nn: "nonneg_powers W" and "tally W (set vals) < 2 ^ 62"
    using assms(1) by (simp_all add: committee_ok_def committee_total_def total_ok_def)
  moreover have "tally W S \<le> tally W (set vals)" using nn assms(2) by (intro tally_mono) simp_all
  ultimately show "0 \<le> tally W S" and "tally W S < 2 ^ 62" using tally_nonneg [OF nn] by simp_all
qed

lemma backed_empty:
  assumes "vs_votesByProposedData vs = []" and "vs_maj23 vs = NilData"
  shows "backed W vals vs"
  using assms by (simp add: backed_def voters_def getVote_def pdv_of_def newProposedDataVotes_def tally_def)

lemma backed_add:
  assumes "committee_ok W vals" and "same_powers V W" and "backed W vals vs" and acc: "accepts V vs v"
  shows "backed W vals (vs_add V v vs)"
proof -
  let ?d = "v_Proposed v" and ?k = "v_Address v" and ?vs' = "vs_add V v vs"
  let ?q = "GetVotingPower V ?k" and ?b = "pdv_of vs (v_Proposed v)"
  have q: "?q = GetVotingPower W ?k" using assms(2) by (simp add: same_powers_def)
  have "GetValidator V ?k \<noteq> None" using acc VerifyVote_validator by (auto simp: accepts_def)
  moreover have "GetValidator V ?k = None \<longleftrightarrow> GetValidator W ?k = None" using assms(2) unfolding same_powers_def by (elim conjE) (rule spec)
  ultimately have "GetValidator W ?k \<noteq> None" by (simp only: not_False_eq_True simp_thms)
  then have k: "?k \<in> set vals" using assms(1) by (simp add: committee_ok_def committee_total_def)
  have voters: "voters ?vs' d = (if d = ?d then insert ?k (voters vs d) else voters vs d)" for d
    using acc by (rule voters_vs_add)
  then have sub: "voters ?vs' d \<subseteq> set vals" for d using assms(3) k by (auto simp: backed_def)
  have new: "?k \<notin> voters vs ?d" using acc by (simp add: accepts_def voters_def)
  then have tally': "tally W (voters ?vs' ?d) = tally W (voters vs ?d) + ?q"
    by (simp add: voters tally_def q)
  have "map_of (pdv_votes ?b) ?k = None" using acc by (simp add: accepts_def getVote_eq_pdv_of)
  then have "pdv_sum (pdv_addVote v ?q ?b) = wrap64 (pdv_sum ?b + ?q)" by (rule pdv_addVote_new)
  also have "\<dots> = tally W (voters ?vs' ?d)"
    using assms(3) tally_within [OF assms(1) sub [of ?d]]
    unfolding tally' by (simp add: backed_def wrap64_idI)
  finally have sum: "pdv_sum (pdv_addVote v ?q ?b) = tally W (voters ?vs' ?d)" .
  have mono: "tally W (voters vs d) \<le> tally W (voters ?vs' d)" for d
    using assms(1) by (intro tally_mono) (auto simp: committee_ok_def voters)
  have "quorum_of W \<le> tally W (voters ?vs' (vs_maj23 ?vs'))" if "vs_maj23 ?vs' \<noteq> NilData"
  proof (cases "vs_maj23 vs = NilData")
    case True
    then have "vs_maj23 ?vs' = ?d \<and> quorum_of V \<le> pdv_sum (pdv_addVote v ?q ?b)"
      using that by (auto simp: vs_add_maj23 Let_def split: if_splits)
    with sum same_powers_quorum [OF assms(2)] show ?thesis by simp
  next
    case False
    then have "vs_maj23 ?vs' = vs_maj23 vs" by (simp add: vs_add_maj23 Let_def)
    with assms(3) False mono [of "vs_maj23 vs"] show ?thesis by (simp add: backed_def)
  qed
  moreover have "pdv_sum (pdv_of ?vs' d) = tally W (voters ?vs' d)" for d
    using sum assms(3) by (cases "d = ?d") (simp_all add: pdv_of_vs_add voters backed_def)
  ultimately show ?thesis using sub by (simp add: backed_def)
qed


section \<open>All vote sets of a height\<close>

definition hvs_all :: "(VoteSet \<Rightarrow> bool) \<Rightarrow> HeightVoteSet \<Rightarrow> bool" where
  "hvs_all P h \<longleftrightarrow> (\<forall>r t vs. hvs_lookup h r t = Some vs \<longrightarrow> P vs)"

lemma hvs_allD: "hvs_all P h \<Longrightarrow> hvs_lookup h r t = Some vs \<Longrightarrow> P vs"
  unfolding hvs_all_def by blast

definition is_fresh :: "VoteSet \<Rightarrow> bool" where
  "is_fresh vs \<longleftrightarrow> vs_votesByProposedData vs = [] \<and> vs_maj23 vs = NilData"

lemma fresh_set_fresh [simp]: "hvs_height h \<noteq> 0 \<Longrightarrow> is_fresh (fresh_set h r t)"
  by (simp add: is_fresh_def)

lemma hvs_all_new:
  assumes "NewHeightVoteSet height b = Inr h" and "\<And>vs. is_fresh vs \<Longrightarrow> P vs"
  shows "hvs_all P h"
proof -
  have "height \<noteq> 0" using NewHeightVoteSet_shape [OF assms(1)] by (auto simp: hvs_shape_def)
  then obtain h1 where "NewHeightVoteSet height b = Inr h1" "hvs_height h1 = height"
    and fresh: "\<And>r t vs. hvs_lookup h1 r t = Some vs \<Longrightarrow> vs = fresh_set h1 r t"
    by (rule NewHeightVoteSet_spec) blast
  then have "h1 = h" "hvs_height h \<noteq> 0" using assms(1) \<open>height \<noteq> 0\<close> by auto
  with fresh show ?thesis unfolding hvs_all_def by (metis assms(2) fresh_set_fresh)
qed

lemma hvs_all_track:
  assumes "SetRound n h = Inr h'" and "hvs_shape h" and "hvs_all P h" and "\<And>vs. is_fresh vs \<Longrightarrow> P vs"
  shows "hvs_all P h'"
proof -
  have h: "hvs_height h \<noteq> 0" using assms(2) by (simp add: hvs_shape_def)
  have ext: "extends_to (wrap64 (hvs_round h + 1)) n h h'" using assms(1) h by (rule SetRound_Inr(2))
  have "P vs" if l: "hvs_lookup h' r t = Some vs" for r t vs
  proof (cases "hvs_lookup h r t = Some vs")
    case True
    with assms(3) show ?thesis by (rule hvs_allD)
  next
    case False
    then have "vs = fresh_set h r t" using ext l unfolding extends_to_def by (auto split: if_splits)
    with assms(4) h show ?thesis by simp
  qed
  then show ?thesis by (simp add: hvs_all_def)
qed

lemma hvs_all_add:
  assumes "hvs_AddVote V v h = Inr (a, e, h')" and "hvs_shape h" and "hvs_all P h" and fresh: "\<And>vs. is_fresh vs \<Longrightarrow> P vs"
    and add: "\<And>vs. P vs \<Longrightarrow> accepts V vs v \<Longrightarrow> P (vs_add V v vs)"
  shows "hvs_all P h'"
proof -
  have h: "hvs_height h \<noteq> 0" using assms(2) by (simp add: hvs_shape_def)
  from assms(1) h show ?thesis
  proof (cases rule: hvs_AddVote_Inr)
    case invalid
    with assms(3) show ?thesis by simp
  next
    case (valid vs')
    have all_with: "P vs" if "hvs_lookup (hvs_with (v_Round v) h) r t = Some vs" for r t vs
      using that assms(3) fresh [OF fresh_set_fresh [OF h]]
      by (auto simp: hvs_lookup_with [OF h] hvs_all_def split: if_splits)
    have target: "P (target_set h (v_Round v) (v_Type v))"
      using all_with [OF target_set_with [OF h valid(1)]] .
    have "P vs'" using vs_addVote_result(1,2) [OF valid(2)] target add by (cases a) auto
    then show ?thesis
      using all_with valid(3) by (auto simp: hvs_all_def hvs_lookup_put_with [OF h valid(1)])
  qed
qed


section \<open>The votes a node has collected\<close>

text \<open>\<open>sound W vals A n\<close>: the sets of the node count for the committee of its height, and their votes are
  in \<open>A\<close>.\<close>

definition votes_within :: "Vote set \<Rightarrow> VoteSet \<Rightarrow> bool" where
  "votes_within A vs \<longleftrightarrow> (\<forall>d k v. getVote vs d k = Some v \<longrightarrow> v \<in> A)"

definition sound :: "(int \<Rightarrow> ICommittee) \<Rightarrow> (int \<Rightarrow> PubKey list) \<Rightarrow> Vote set \<Rightarrow> Node \<Rightarrow> bool" where
  "sound W vals A n \<longleftrightarrow>
     (\<forall>h. n_votes n = Some h \<longrightarrow>
        hvs_all (\<lambda>vs. backed (W (n_height n)) (vals (n_height n)) vs \<and> votes_within A vs) h)"

abbreviation app_fits :: "(int \<Rightarrow> ICommittee) \<Rightarrow> int \<Rightarrow> ICommittee \<Rightarrow> bool" where
  "app_fits W h V \<equiv> same_powers V (W h)"

text \<open>\<open>keeps_powers W F\<close>: an application that answers as \<open>F\<close> allows has the powers of \<open>W\<close>.\<close>

definition keeps_powers :: "(int \<Rightarrow> ICommittee) \<Rightarrow> (int \<Rightarrow> ICommittee \<Rightarrow> bool) \<Rightarrow> bool" where
  "keeps_powers W F \<longleftrightarrow> (\<forall>h V. F h V \<longrightarrow> app_fits W h V)"

lemma keeps_powers_fits [simp]: "keeps_powers W (app_fits W)"
  by (simp add: keeps_powers_def)

lemma keeps_powersD: "keeps_powers W F \<Longrightarrow> F h V \<Longrightarrow> app_fits W h V"
  by (simp add: keeps_powers_def)

lemma is_fresh_sound: "is_fresh vs \<Longrightarrow> backed W vals vs \<and> votes_within A vs"
  by (simp add: is_fresh_def backed_empty votes_within_def getVote_def)

lemma sound_mono: "sound W vals A n \<Longrightarrow> A \<subseteq> B \<Longrightarrow> sound W vals B n"
  unfolding sound_def hvs_all_def votes_within_def by blast

lemma sound_move:
  assumes "node_move A F n n'" and "sound W vals A n" and "votes_ok n"
    and "app_fits W (n_height n) (n_app n)" and "\<And>h. committee_ok (W h) (vals h)"
  shows "sound W vals A n'"
proof -
  from assms(1) show ?thesis
  proof (cases rule: node_move.cases)
    case (new_round r h h')
    with assms(2,3) show ?thesis
      by (auto simp: sound_def votes_ok_def intro!: hvs_all_track [of _ h] is_fresh_sound)
  next
    case (add_vote h v a e h')
    have shape: "hvs_shape h" and all: "hvs_all (\<lambda>vs. backed (W (n_height n)) (vals (n_height n)) vs \<and> votes_within A vs) h"
      using add_vote(2) assms(2,3) by (simp_all add: sound_def votes_ok_def)
    have "hvs_all (\<lambda>vs. backed (W (n_height n)) (vals (n_height n)) vs \<and> votes_within A vs) h'"
      using add_vote(4) shape all is_fresh_sound
    proof (rule hvs_all_add)
      fix vs assume "backed (W (n_height n)) (vals (n_height n)) vs \<and> votes_within A vs" and "accepts (n_app n) vs v"
      with backed_add [OF assms(5,4)] add_vote(3)
      show "backed (W (n_height n)) (vals (n_height n)) (vs_add (n_app n) v vs) \<and> votes_within A (vs_add (n_app n) v vs)"
        by (auto simp: votes_within_def getVote_vs_add)
    qed
    with add_vote(1) show ?thesis by (simp add: sound_def)
  next
    case commit
    then show ?thesis by (auto simp: sound_def intro!: hvs_all_new is_fresh_sound)
  qed (use assms(2) in \<open>simp_all add: sound_def\<close>)
qed

lemma fits_move:
  assumes "node_move A F n n'" and "F (n_height n) (n_app n)"
  shows "F (n_height n') (n_app n')"
  using assms
  by (cases rule: node_move.cases) simp_all

end
