(* ===== verification/Core_Fixture.thy ===== *)
theory Core_Fixture
  imports Core_Runs
begin

text \<open>
  A concrete node of the example committee, started at height 1, and runs of it: to a lock, to a
  commit, and to the release of a lock. They instantiate the properties of the core.
\<close>

definition fx_env :: Env where
  "fx_env =
     \<lparr>privVal = fx_priv, clock = (\<lambda>_. 1000), map_order = (\<lambda>_. fx_order), codec = fx_codec,
      AppCommit = (\<lambda>n k V. V\<lparr>GetAppState := Some (fx_app (min (2 ^ 62) (Commit_Height k)))\<rparr>)\<rparr>"

definition fx_start :: Core where
  "fx_start = snd (projr (Start fx_env (NewCore fx_committee)))"

definition fx_ti :: timeoutInfo where
  "fx_ti = \<lparr>ti_Duration = 1000000000, ti_Height = 1, ti_Round = 0, ti_Step = RoundStepNewHeight\<rparr>"

text \<open>A vote of validator \<open>k\<close> arrives and is handled.\<close>

definition fx_in :: "VoteType \<Rightarrow> int \<Rightarrow> ProposedData \<Rightarrow> PubKey \<Rightarrow> core_event list" where
  "fx_in t r d k = [EvRecv (MVote (fx_vote t 1 r d k)) (Some 1), EvMsg]"

text \<open>The vote the node itself sends.\<close>

definition fx_own :: "VoteType \<Rightarrow> int \<Rightarrow> ProposedData \<Rightarrow> Vote" where
  "fx_own t r d =
     \<lparr>v_Type = t, v_Height = 1, v_Round = r, v_Timestamp = 1000, v_Proposed = d, v_Prev = 5,
      v_Address = ''a'', v_Signature = [1]\<rparr>"

text \<open>A proposal and three prevotes for it, the node's own among them: the node locks.\<close>

definition fx_lock_events :: "core_event list" where
  "fx_lock_events =
     [EvTock fx_ti] @ fx_in ProposalType 0 fx_data ''b'' @ [EvMsg]
     @ fx_in PrevoteType 0 fx_data ''b'' @ fx_in PrevoteType 0 fx_data ''c''"

text \<open>Then three precommits: the node commits.\<close>

definition fx_commit_events :: "core_event list" where
  "fx_commit_events =
     fx_lock_events @ [EvMsg] @ fx_in PrecommitType 0 fx_data ''b'' @ fx_in PrecommitType 0 fx_data ''c''"

text \<open>Or three prevotes for other data in the next round, and a proposal of it: the node is released
  from its lock and prevotes the other data.\<close>

definition fx_unlock_events :: "core_event list" where
  "fx_unlock_events =
     fx_lock_events @ [EvMsg] @ fx_in PrevoteType 1 9 ''b'' @ fx_in PrevoteType 1 9 ''c''
     @ fx_in PrevoteType 1 9 ''d'' @ fx_in ProposalType 1 9 ''b''"

definition fx_locked :: Core where
  "fx_locked = projr (run_steps (core_step fx_env) fx_lock_events fx_start)"

definition fx_committed :: Core where
  "fx_committed = projr (run_steps (core_step fx_env) fx_commit_events fx_start)"

definition fx_unlocked :: Core where
  "fx_unlocked = projr (run_steps (core_step fx_env) fx_unlock_events fx_start)"


section \<open>Evaluation\<close>

lemma fx_env_simps [simp]:
  "privVal fx_env = fx_priv" "clock fx_env n = 1000" "map_order fx_env n = fx_order" "codec fx_env = fx_codec"
  "AppCommit fx_env n k V = V\<lparr>GetAppState := Some (fx_app (min (2 ^ 62) (Commit_Height k)))\<rparr>"
  by (simp_all add: fx_env_def)

lemma fx_committee_simps [simp]:
  "GetAppState fx_committee = Some (fx_app 0)" "IsValidator fx_committee k = (k \<in> set fx_keys)"
  "GetCurrentProposer fx_committee r = ''b''" "ValidateProposal fx_committee d" "DecidesProposal fx_committee = fx_data"
  by (simp_all add: fx_committee_def)

lemma fx_priv_simps [simp]: "PrivPubKey fx_priv = ''a''" "PrivSign fx_priv d = [1]"
  by (simp_all add: fx_priv_def)

lemma fx_app_simps [simp]: "LastHeight (fx_app h) = h" "LastProposedData (fx_app h) = 5"
  by (simp_all add: fx_app_def)

lemmas start_eval = Start_def NewCore_def updateToAppState_def last_precommits_def update_defs Let_def
  cfg_Commit_def DefaultConfig_def common_Now_def scheduleRound0_def time_Sub_def NewHeightVoteSet_def
  hvs_Reset_def hvs_addRound_def NewVoteSet_def Millisecond_def FetchInterval_def

lemmas round_eval = receiveRoutine_tock_def receiveRoutine_msg_def handleTimeout_def GetRoundState_def
  RoundState.defs enterNewRound_def enterPropose_def enterPrevote_def enterPrevoteFetch_def doPrevote_def
  prevote_data_def signAddVote_def sendInternalMessage_def isValidator_def GetSelfPubKey_def
  isReadyToPrevote_def SetRound_def set_round_loop.simps step_defs

lemmas vote_eval = RecvMsg_def handleMsg_def msg_ValidateBasic_def Vote_ValidateBasic_def IsVoteTypeValid_def
  msgQueueSize_def tryAddVote_def addVote_def defaultSetProposal_def watermark_def hvs_AddVote_def
  getVoteSet_def AddVote_def hvs_put_def added_prevote_def added_precommit_def polka_unlock_def
  Prevotes_def Precommits_def TwoThirdsMajority_def HasTwoThirdsAny_def HasTwoThirdsMajority_def

lemmas precommit_eval = enterPrecommit_def precommit_polka_def done_enterPrecommit_def enterPrecommitFetch_def
  POLInfo_def pol_loop.simps new_vote_def NewVote_def SignVote_eq

lemmas commit_eval = enterCommit_def doCommit_def MakeCommit_def pdv_getAllVotes_def map_range_def
  fx_order_def SignCommit_eq Commit_Height_def Commit_Round_def FirstPrecommit_def

lemmas fx_run_eval = start_eval round_eval vote_eval precommit_eval commit_eval fx_eval
  fx_start_def fx_ti_def fx_in_def fx_own_def

lemma fx_booted: "booted fx_env fx_committee fx_start"
proof -
  have "env_ok fx_env"
    using fx_range_order by (simp add: env_ok_def min_def)
  moreover have "Start fx_env (NewCore fx_committee) = Inr (None, fx_start)"
    by (simp add: start_eval round_eval fx_start_def NilData_def is_int64_def)
  ultimately show ?thesis by (simp add: booted_def)
qed

text \<open>What a run has come to, sent and committed, so that each run is evaluated once.\<close>

fun fx_report :: "Core outcome \<Rightarrow> (HRS \<times> Vote list \<times> (int \<times> ProposedData) list) option" where
  "fx_report (Inl p) = None"
| "fx_report (Inr c) =
     Some (HRS (Height c) (Round c) (Step c), votes_in (outbox c),
       map (\<lambda>k. (Commit_Height k, c_ProposedData k)) (commits_in (outbox c)))"

lemma fx_reported:
  assumes "fx_report res = Some (HRS h r st, vs, ks)"
  shows "res = Inr (projr res)" and "Height (projr res) = h" and "Round (projr res) = r" and "Step (projr res) = st"
    and "votes_in (outbox (projr res)) = vs"
    and "map (\<lambda>k. (Commit_Height k, c_ProposedData k)) (commits_in (outbox (projr res))) = ks"
  using assms by (cases res; simp)+

lemma fx_lock_report:
  "fx_report (run_steps (core_step fx_env) fx_lock_events fx_start) =
     Some (HRS 1 0 RoundStepPrecommitFetch, [fx_own PrevoteType 0 fx_data, fx_own PrecommitType 0 fx_data], [])"
  by (simp add: fx_lock_events_def fx_run_eval votes_in_def commits_in_def)

lemma fx_commit_report:
  "fx_report (run_steps (core_step fx_env) fx_commit_events fx_start) =
     Some (HRS 2 0 RoundStepNewHeight, [fx_own PrevoteType 0 fx_data, fx_own PrecommitType 0 fx_data], [(1, fx_data)])"
  by (simp add: fx_commit_events_def fx_lock_events_def fx_run_eval votes_in_def commits_in_def)

lemma fx_unlock_report:
  "fx_report (run_steps (core_step fx_env) fx_unlock_events fx_start) =
     Some (HRS 1 1 RoundStepPrevoteFetch,
       [fx_own PrevoteType 0 fx_data, fx_own PrecommitType 0 fx_data, fx_own PrevoteType 1 9], [])"
  by (simp add: fx_unlock_events_def fx_lock_events_def fx_run_eval votes_in_def commits_in_def)

lemma fx_no_start: "EvStart \<notin> set fx_lock_events" "EvStart \<notin> set fx_commit_events" "EvStart \<notin> set fx_unlock_events"
  by (simp_all add: fx_commit_events_def fx_unlock_events_def fx_lock_events_def fx_in_def)

lemma fx_lock_run: "runs fx_env fx_lock_events fx_start fx_locked"
  unfolding runs_def fx_locked_def using fx_no_start fx_reported(1) [OF fx_lock_report] by blast

lemma fx_commit_run: "runs fx_env fx_commit_events fx_start fx_committed"
  unfolding runs_def fx_committed_def using fx_no_start fx_reported(1) [OF fx_commit_report] by blast

lemma fx_unlock_run: "runs fx_env fx_unlock_events fx_start fx_unlocked"
  unfolding runs_def fx_unlocked_def using fx_no_start fx_reported(1) [OF fx_unlock_report] by blast

lemmas fx_locked_sent = fx_reported(5,2,3,4) [OF fx_lock_report, folded fx_locked_def]
lemmas fx_committed_height = fx_reported(2) [OF fx_commit_report, folded fx_committed_def]
lemmas fx_unlocked_sent = fx_reported(5,2) [OF fx_unlock_report, folded fx_unlocked_def]

lemma fx_committed_commits: "map Commit_Height (commits_in (outbox fx_committed)) = [1]"
  using arg_cong [where f = "map fst", OF fx_reported(6) [OF fx_commit_report, folded fx_committed_def]]
  by (simp add: comp_def)

end
