(* ===== verification/Core_Progress.thy ===== *)
theory Core_Progress
  imports Core_Rules Backing Core_Fixture
begin

text \<open>
  A node commits as soon as it can: no running core rests on a quorum of precommits of its height.
\<close>

section \<open>No quorum of precommits\<close>

definition no_quorum :: "int set \<Rightarrow> HeightVoteSet \<Rightarrow> bool" where
  "no_quorum S h \<longleftrightarrow> hvs_shape h \<and> (\<forall>r. r \<notin> S \<longrightarrow> \<not> HasTwoThirdsMajority (Precommits r h))"

text \<open>\<open>rests env S c\<close>: outside the rounds \<open>S\<close> the core has no quorum of precommits.\<close>

definition rests :: "Env \<Rightarrow> int set \<Rightarrow> Core \<Rightarrow> bool" where
  "rests env S c \<longleftrightarrow> env_ok env \<and> Step c < RoundStepCommit \<and> (\<forall>h. Votes c = Some h \<longrightarrow> no_quorum S h)"

lemma fresh_without_majority [simp]: "hvs_height h \<noteq> 0 \<Longrightarrow> \<not> HasTwoThirdsMajority (Some (fresh_set h r t))"
  by (simp add: HasTwoThirdsMajority_def)

lemma no_majority_None [simp]: "\<not> HasTwoThirdsMajority None"
  by (simp add: HasTwoThirdsMajority_def)

lemma no_quorum_new:
  assumes "NewHeightVoteSet height b = Inr h"
  shows "no_quorum {} h"
proof -
  have "hvs_all (\<lambda>vs. \<not> HasTwoThirdsMajority (Some vs)) h"
    using assms by (rule hvs_all_new) (simp add: is_fresh_def HasTwoThirdsMajority_def)
  then show ?thesis
    using NewHeightVoteSet_shape(1) [OF assms] unfolding no_quorum_def hvs_all_def Precommits_lookup
    by (metis no_majority_None option.exhaust)
qed

lemma no_quorum_track:
  assumes "no_quorum S h" and "SetRound n h = Inr h'"
  shows "no_quorum S h'"
proof -
  have shape: "hvs_shape h" "hvs_height h \<noteq> 0" using assms(1) by (simp_all add: no_quorum_def hvs_shape_def)
  have "extends_to (wrap64 (hvs_round h + 1)) n h h'" using assms(2) shape(2) by (rule SetRound_Inr(2))
  then have "Precommits r h' = Precommits r h \<or> Precommits r h' = Some (fresh_set h r PrecommitType)" for r
    by (auto simp: extends_to_def Precommits_lookup)
  with assms(1) shape hvs_store.track_inv [OF shape(1) assms(2)] show ?thesis
    unfolding no_quorum_def by (metis fresh_without_majority)
qed

lemma no_quorum_add:
  assumes "no_quorum S h" and add: "hvs_AddVote V v h = Inr (a, e, h')"
    and S: "S' = (if a \<and> v_Type v = PrecommitType then insert (v_Round v) S else S)"
  shows "no_quorum S' h'"
proof -
  have shape: "hvs_shape h" and h: "hvs_height h \<noteq> 0" using assms(1) by (simp_all add: no_quorum_def hvs_shape_def)
  have "\<not> HasTwoThirdsMajority (Precommits r h')" if r: "r \<notin> S'" for r
    using add h
  proof (cases rule: hvs_AddVote_Inr)
    case invalid
    with assms(1) r S show ?thesis by (auto simp: no_quorum_def)
  next
    case (valid vs')
    have r': "r \<notin> S" using r S by (auto split: if_splits)
    then have old: "\<not> HasTwoThirdsMajority (hvs_lookup h r PrecommitType)"
      using assms(1) by (simp add: no_quorum_def Precommits_lookup)
    then have old': "\<not> HasTwoThirdsMajority (hvs_lookup (hvs_with (v_Round v) h) r PrecommitType)"
      using h by (simp add: hvs_lookup_with)
    have "vs' = target_set h r PrecommitType" if "r = v_Round v" "v_Type v = PrecommitType"
      using vs_addVote_result(1) [OF valid(2)] r S that by auto
    with old' show ?thesis
      using target_set_with [OF h, of PrecommitType r]
      by (auto simp: valid(3) Precommits_lookup hvs_lookup_put_with [OF h valid(1)])
  qed
  with hvs_store.add_inv [OF shape add] show ?thesis by (simp add: no_quorum_def)
qed

interpretation resting: core_rules env "rests env S" "\<lambda>_. True" "\<lambda>_. True" for env S
proof unfold_locales
  fix c r h h' assume "rests env S c" "Votes c = Some h" "SetRound (wrap64 (r + 1)) h = Inr h'"
  then show "rests env S (c\<lparr>Votes := Some h'\<rparr>)" by (auto simp: rests_def intro: no_quorum_track)
qed (simp_all add: rests_def update_defs)

interpretation height_stays: core_rules env "\<lambda>c. Height c = H" "\<lambda>_. True" "\<lambda>_. True" for env H
  by unfold_locales (simp_all add: update_defs)


section \<open>Committing\<close>

text \<open>After a commit the core is at a new height, where nothing has been collected.\<close>

lemma enterCommit_rests:
  assumes "enterCommit env h r c = Inr c'" and "rests env S c" and "Height c = h"
  shows "rests env {} c'"
proof -
  have env: "env_ok env" and step: "\<not> RoundStepCommit \<le> Step c" using assms(2) by (auto simp: rests_def)
  from assms(1) env show ?thesis
  proof (cases rule: enterCommit_Inr)
    case (commit hvs d k0 k st c3 c4 t out)
    from commit(12) obtain hvs' where new: "NewHeightVoteSet (wrap64 (LastHeight st + 1)) (LastProposedData st) = Inr hvs'"
      and c4: "Step c4 = RoundStepNewHeight" "Votes c4 = Some hvs'"
      by (rule updateToAppState_Inr) simp
    from no_quorum_new [OF new] show ?thesis
      using env by (simp add: commit(13) rests_def scheduleRound0_def update_defs Let_def c4) (simp add: step_defs)
  qed (use step assms(3) in simp)
qed

lemma added_precommit_rests:
  assumes "added_precommit env (Height c) v hvs c = Inr c'" and "rests env {v_Round v} c" and "Votes c = Some hvs"
  shows "rests env {} c'"
proof (cases "HasTwoThirdsMajority (Precommits (v_Round v) hvs)")
  case True
  with assms(1) obtain c1 c2 c3 where c1: "enterNewRound env (Height c) (v_Round v) c = Inr c1"
    and c2: "enterPrecommit env (Height c) (v_Round v) c1 = Inr c2"
    and c3: "enterCommit env (Height c) (v_Round v) c2 = Inr c3"
    and c': "c' = c3 \<or> enterNewRound env (Height c3) 0 c3 = Inr c'"
    by (auto simp: added_precommit_def elim!: and_then_InrE split: if_splits)
  have "rests env {v_Round v} c1" using c1 assms(2) by (rule resting.enterNewRound_keeps) simp
  with c2 have rest2: "rests env {v_Round v} c2" by (rule resting.enterPrecommit_keeps) simp
  have "Height c1 = Height c" using c1 by (rule height_stays.enterNewRound_keeps) simp_all
  with c2 have "Height c2 = Height c" by (rule height_stays.enterPrecommit_keeps) simp
  with c3 rest2 have "rests env {} c3" by (rule enterCommit_rests)
  with c' show ?thesis using resting.enterNewRound_keeps by blast
next
  case False
  moreover have "no_quorum {v_Round v} hvs" using assms(2,3) by (simp add: rests_def)
  ultimately have "no_quorum {} hvs" unfolding no_quorum_def by (metis singletonD)
  then have I: "rests env {} c" using assms(2,3) by (simp add: rests_def)
  consider "c' = c" | c1 where "enterNewRound env (Height c) (v_Round v) c = Inr c1"
      "enterPrecommitWait env (Height c) (v_Round v) c1 = Inr c'"
    using assms(1) False by (auto simp: added_precommit_def elim!: and_then_InrE split: if_splits)
  then show ?thesis
  proof cases
    case (2 c1)
    then show ?thesis using resting.enterNewRound_keeps resting.enterPrecommitWait_keeps I by blast
  qed (use I in simp)
qed

interpretation resting_step: core_step_rules env "rests env {}" "\<lambda>_. True" "\<lambda>_. True" for env
proof unfold_locales
  fix c v h a e h'
  assume "rests env {} c" "Votes c = Some h" "hvs_AddVote (app c) v h = Inr (a, e, h')" "\<not> a \<or> v_Type v = PrevoteType"
  then show "rests env {} (c\<lparr>Votes := Some h'\<rparr>)"
    using no_quorum_add [of "{}" h "app c" v a e h' "{}"] by (auto simp: rests_def)
next
  fix c v h a e h' c'
  assume "rests env {} c" "Votes c = Some h" "hvs_AddVote (app c) v h = Inr (a, e, h')"
    and c': "added_precommit env (Height c) v h' (c\<lparr>Votes := Some h'\<rparr>) = Inr c'"
  then have "no_quorum {v_Round v} h'"
    using no_quorum_add [of "{}" h "app c" v a e h'] by (auto simp: rests_def no_quorum_def split: if_splits)
  with \<open>rests env {} c\<close> have "rests env {v_Round v} (c\<lparr>Votes := Some h'\<rparr>)" by (simp add: rests_def)
  with c' show "rests env {} c'" by (intro added_precommit_rests [of env "c\<lparr>Votes := Some h'\<rparr>"]) simp_all
qed (simp_all add: rests_def)


section \<open>Running nodes\<close>

interpretation resting_machine: machine "core_step env" "\<lambda>e. e \<noteq> EvStart" "rests env {}" for env
  by unfold_locales (rule resting_step.core_step_keeps; simp)

lemma booted_rests:
  assumes "booted env V c"
  shows "rests env {} c"
proof -
  obtain st where st: "GetAppState V = Some st" "0 \<le> LastHeight st" "LastHeight st < max_int64" and env: "env_ok env"
    and start: "Start env (NewCore V) = Inr (None, c)" using assms by (auto simp: booted_def)
  have new: "GetAppState (app (NewCore V)) = Some st" "Height (NewCore V) \<le> 0" using st(1) by (simp_all add: NewCore_def)
  from start new(1) st(2,3) obtain hvs where c: "Step c = RoundStepNewHeight" "Votes c = Some hvs"
    "NewHeightVoteSet (LastHeight st + 1) (LastProposedData st) = Inr hvs"
    by (rule Start_Inr) (simp_all add: new)
  from no_quorum_new [OF c(3)] env c(1,2) show ?thesis by (simp add: rests_def) (simp add: step_defs)
qed



end
