(* ===== verification/Core_Total.thy ===== *)
theory Core_Total
  imports Core_Runs
begin

text \<open>
  A node does not panic: a stronger invariant of the core, with a budget of votes and timeouts
  that keeps every machine integer in range, under which every handler returns. What peers and
  the application have to keep to is written out: no nil votes, no negative rounds in requests,
  a committee whose powers change with a commit only, and an application that advances with it.
\<close>

section \<open>The invariant\<close>

definition good_committee :: "int \<Rightarrow> ICommittee \<Rightarrow> bool" where
  "good_committee p V \<longleftrightarrow>
     powers_within V p \<and> total_ok V \<and>
     (\<forall>h k. GetCommitHistory V h = Some k \<longrightarrow> None \<notin> set (c_Precommits k))"

definition env_live :: "int \<Rightarrow> Env \<Rightarrow> bool" where
  "env_live p env \<longleftrightarrow>
     env_ok env \<and>
     (\<forall>n k V. good_committee p V \<longrightarrow> good_committee p (AppCommit env n k V)) \<and>
     (\<forall>n k V st. GetAppState (AppCommit env n k V) = Some st \<longrightarrow> Commit_Height k < 2 ^ 62 \<longrightarrow>
        LastHeight st = Commit_Height k)"

text \<open>Messages without the two flaws that end a node, of at most \<open>M\<close> votes.\<close>

definition msg_ok :: "nat \<Rightarrow> ConsensusMessage \<Rightarrow> bool" where
  "msg_ok M m =
     (case m of
        MVote v \<Rightarrow> True
      | MCommit k \<Rightarrow> None \<notin> set (c_Precommits k) \<and> length (c_Precommits k) \<le> M
      | MFetchVotesReq q \<Rightarrow> 0 \<le> q_Round q
      | MFetchVotesRsp r \<Rightarrow> None \<notin> set (r_MissingVotes r))"

text \<open>\<open>hvs_live V p m H R nh hvs\<close>: the collected votes at height \<open>H\<close> and round \<open>R\<close> (before the first
  round when \<open>nh\<close>), with room for \<open>m\<close> further votes in every set.\<close>

definition hvs_live :: "ICommittee \<Rightarrow> int \<Rightarrow> nat \<Rightarrow> int \<Rightarrow> int \<Rightarrow> bool \<Rightarrow> HeightVoteSet \<Rightarrow> bool" where
  "hvs_live V p m H R nh hvs \<longleftrightarrow>
     hvs_wf hvs \<and> hvs_height hvs = H \<and>
     (hvs_round hvs = R + 1 \<or> hvs_round hvs = 0 \<and> R = 0) \<and> (nh \<longrightarrow> hvs_round hvs = 0) \<and>
     (\<forall>r t vs. hvs_lookup hvs r t = Some vs \<longrightarrow> vs_counted V vs \<and> vs_sum vs + int m * p < 2 ^ 63)"

definition no_polka_after :: "int \<Rightarrow> HeightVoteSet \<Rightarrow> bool" where
  "no_polka_after R hvs \<longleftrightarrow> (\<forall>r > R. \<not> HasTwoThirdsMajority (Prevotes r hvs))"

definition queue_ok :: "nat \<Rightarrow> Core \<Rightarrow> bool" where
  "queue_ok M c \<longleftrightarrow> list_all (\<lambda>mi. msg_ok M (mi_Msg mi)) (msgQueue c)"

definition lock_sound :: "Core \<Rightarrow> bool" where
  "lock_sound c \<longleftrightarrow> (LockedRound c \<ge> 0 \<longrightarrow> LockedProposal c \<noteq> None)"

text \<open>The part of the state that a handler within a round leaves alone.\<close>

definition ready :: "int \<Rightarrow> nat \<Rightarrow> nat \<Rightarrow> Core \<Rightarrow> bool" where
  "ready p M m c \<longleftrightarrow>
     safe c \<and> good_committee p (app c) \<and> lock_sound c \<and> queue_ok M c \<and>
     Round c + 301 * int m < 2 ^ 62 \<and> Height c + int m < 2 ^ 62 \<and> int m * p < 2 ^ 63 \<and>
     (\<exists>hvs. Votes c = Some hvs \<and> hvs_live (app c) p m (Height c) (Round c) (Step c = RoundStepNewHeight) hvs)"

definition polkas_ok :: "Core \<Rightarrow> bool" where
  "polkas_ok c \<longleftrightarrow> (\<forall>hvs. Votes c = Some hvs \<longrightarrow> no_polka_after (Round c) hvs)"

definition live :: "int \<Rightarrow> nat \<Rightarrow> nat \<Rightarrow> Core \<Rightarrow> bool" where
  "live p M m c \<longleftrightarrow> ready p M m c \<and> polkas_ok c"


section \<open>Handlers within a round\<close>

text \<open>\<open>quiet c c'\<close>: votes, application, height and round are the same.\<close>

definition quiet :: "nat \<Rightarrow> Core \<Rightarrow> Core \<Rightarrow> bool" where
  "quiet M c c' \<longleftrightarrow>
     Height c' = Height c \<and> Round c' = Round c \<and> Votes c' = Votes c \<and> app c' = app c \<and> cfg c' = cfg c \<and>
     (Step c' = RoundStepNewHeight \<longrightarrow> Step c = RoundStepNewHeight) \<and>
     (lock_sound c \<longrightarrow> lock_sound c') \<and> (queue_ok M c \<longrightarrow> queue_ok M c')"

lemma quiet_refl [simp, intro]: "quiet M c c"
  by (simp add: quiet_def)

lemma quiet_trans [trans]: "quiet M a b \<Longrightarrow> quiet M b c \<Longrightarrow> quiet M a c"
  by (auto simp: quiet_def)

lemma ready_quiet:
  assumes "ready p M m c" and "quiet M c c'" and "sim_any env c c'"
  shows "ready p M m c'"
proof -
  have "safe c'" using assms(1,3) by (simp add: ready_def sim_def)
  with assms(1,2) show ?thesis by (auto simp: ready_def quiet_def hvs_live_def)
qed

lemma live_quiet: "live p M m c \<Longrightarrow> quiet M c c' \<Longrightarrow> sim_any env c c' \<Longrightarrow> live p M m c'"
  using ready_quiet [of p M m c c'] by (auto simp: live_def polkas_ok_def quiet_def)

lemma queue_ok_signAddVote [simp]: "queue_ok M c \<Longrightarrow> queue_ok M (signAddVote env v c)"
  by (simp add: queue_ok_def signAddVote_def sendInternalMessage_def call_app_def Let_def msg_ok_def)

lemma quiet_signAddVote: "quiet M c (signAddVote env v c)"
  by (simp add: quiet_def lock_sound_def)

lemma quietI:
  assumes "Height c' = Height c" "Round c' = Round c" "Votes c' = Votes c" "app c' = app c" "cfg c' = cfg c"
    and "Step c' = RoundStepNewHeight \<Longrightarrow> Step c = RoundStepNewHeight"
    and "LockedRound c' = LockedRound c" "LockedProposal c' = LockedProposal c"
    and "msgQueue c' = msgQueue c"
  shows "quiet M c c'"
  using assms by (simp add: quiet_def lock_sound_def queue_ok_def)

lemma step_not_new_height [simp]:
  "RoundStepPropose \<noteq> RoundStepNewHeight" "RoundStepPrevote \<noteq> RoundStepNewHeight"
  "RoundStepPrevoteFetch \<noteq> RoundStepNewHeight" "RoundStepPrevoteWait \<noteq> RoundStepNewHeight"
  "RoundStepPrecommit \<noteq> RoundStepNewHeight" "RoundStepPrecommitFetch \<noteq> RoundStepNewHeight"
  "RoundStepPrecommitWait \<noteq> RoundStepNewHeight" "RoundStepNewRound \<noteq> RoundStepNewHeight"
  by (simp_all add: step_defs)

lemma enterPrevote_quiet:
  assumes "r \<le> Round c"
  shows "quiet M c (enterPrevote env h r c)"
proof (cases "Height c \<noteq> h \<or> r < Round c \<or> (Round c = r \<and> RoundStepPrevote \<le> Step c)")
  case False
  then have r: "r = Round c" using assms by auto
  let ?c1 = "doPrevote env h r c"
  have "quiet M c (next_read c)" by (rule quietI) (simp_all add: next_read_def)
  also have "quiet M (next_read c) ?c1" unfolding doPrevote_def by (rule quiet_signAddVote)
  also have "quiet M ?c1 (enterPrevoteFetch h r (updateRoundStep r RoundStepPrevote ?c1))"
    by (rule quietI) (simp_all add: enterPrevoteFetch_def update_defs r doPrevote_def)
  finally show ?thesis using False by (simp add: enterPrevote_def)
qed (auto simp: enterPrevote_def)

lemma doPropose_quiet: "quiet M c (doPropose env h r c)"
proof -
  obtain v w where eq: "doPropose env h r c = (signAddVote env v (next_read c))\<lparr>Proposal := w\<rparr>"
    by (auto simp: doPropose_def Let_def)
  have "quiet M c (next_read c)" by (rule quietI) (simp_all add: next_read_def)
  also have "quiet M \<dots> (signAddVote env v (next_read c))" by (rule quiet_signAddVote)
  also have "quiet M \<dots> (doPropose env h r c)" unfolding eq by (rule quietI) simp_all
  finally show ?thesis .
qed

lemma enterPropose_quiet:
  assumes "r \<le> Round c"
  shows "quiet M c (enterPropose env h r c)"
proof (cases "Height c \<noteq> h \<or> r < Round c \<or> (Round c = r \<and> RoundStepPropose \<le> Step c)")
  case False
  then have r: "r = Round c" using assms by auto
  let ?c1 = "scheduleTimeout (cfg_Propose (cfg c) r) h r RoundStepPropose c"
  define c2 where "c2 = (if \<not> IsValidator (app ?c1) (GetSelfPubKey (privVal env)) then ?c1
     else if GetCurrentProposer (app ?c1) (Round ?c1) = GetSelfPubKey (privVal env)
     then doPropose env h r ?c1 else ?c1)"
  let ?c3 = "updateRoundStep r RoundStepPropose c2"
  have "quiet M c ?c1" by (rule quietI) (simp_all add: scheduleTimeout_def)
  also have c2: "quiet M ?c1 c2" by (simp add: c2_def doPropose_quiet)
  finally have "quiet M c c2" .
  also have "quiet M c2 ?c3"
    by (rule quietI) (use \<open>quiet M c c2\<close> in \<open>simp_all add: updateRoundStep_def r quiet_def\<close>)
  also have "quiet M ?c3 (enterPropose env h r c)"
  proof -
    have "enterPropose env h r c = (if isReadyToPrevote ?c3 then enterPrevote env h (Round ?c3) ?c3 else ?c3)"
      using False unfolding enterPropose_def Let_def c2_def by (simp only: if_False)
    then show ?thesis by (simp add: enterPrevote_quiet)
  qed
  finally show ?thesis .
qed (auto simp: enterPropose_def)



section \<open>New rounds\<close>

definition vset :: "Core \<Rightarrow> int \<Rightarrow> VoteType \<Rightarrow> VoteSet option" where
  "vset c r t = (case Votes c of None \<Rightarrow> None | Some hvs \<Rightarrow> hvs_lookup hvs r t)"

lemma vset_Some [simp]: "Votes c = Some hvs \<Longrightarrow> vset c r t = hvs_lookup hvs r t"
  by (simp add: vset_def)

text \<open>\<open>same_views c c'\<close>: both states see the same majorities in every round.\<close>

definition same_views :: "Core \<Rightarrow> Core \<Rightarrow> bool" where
  "same_views c c' \<longleftrightarrow>
     app c' = app c \<and>
     (\<forall>r t. TwoThirdsMajority (vset c' r t) = TwoThirdsMajority (vset c r t) \<and>
        HasTwoThirdsAny (app c) (vset c' r t) = HasTwoThirdsAny (app c) (vset c r t))"

lemma same_views_quiet: "quiet M c c' \<Longrightarrow> same_views c c'"
  by (simp add: quiet_def same_views_def vset_def)

lemma same_views_trans [trans]: "same_views a b \<Longrightarrow> same_views b c \<Longrightarrow> same_views a c"
  by (simp add: same_views_def)

lemma same_views_refl [simp, intro]: "same_views c c"
  by (simp add: same_views_def)

lemma Has_snd_Majority: "HasTwoThirdsMajority p = snd (TwoThirdsMajority p)"
  by (auto simp: vs_defs split: option.split)

lemma fresh_no_majority:
  assumes "hvs_height hvs \<noteq> 0" and "total_ok V"
  shows "TwoThirdsMajority (Some (fresh_set hvs r t)) = (NilData, False)"
    and "\<not> HasTwoThirdsAny V (Some (fresh_set hvs r t))"
    and "vs_counted V (fresh_set hvs r t)"
proof -
  have "0 \<le> two_thirds V" using assms(2) unfolding two_thirds_ok [OF assms(2)] total_ok_def by linarith
  with assms(1) show "TwoThirdsMajority (Some (fresh_set hvs r t)) = (NilData, False)"
    and "\<not> HasTwoThirdsAny V (Some (fresh_set hvs r t))" by (simp_all add: vs_defs)
  show "vs_counted V (fresh_set hvs r t)"
    using NewVoteSet_fresh [OF assms(1)] quorum_ok(2) [OF assms(2)] by (rule vs_counted_new)
qed

lemma SetRound_live:
  assumes "hvs_live V p m H R nh hvs" and "total_ok V" and "int m * p < 2 ^ 63" and "0 \<le> R"
    and "R < r \<or> R = r \<and> nh" and "r < 2 ^ 62"
  obtains hvs' where "SetRound (wrap64 (r + 1)) hvs = Inr hvs'" "hvs_live V p m H r False hvs'"
    "\<And>x t. TwoThirdsMajority (hvs_lookup hvs' x t) = TwoThirdsMajority (hvs_lookup hvs x t)"
    "\<And>x t. HasTwoThirdsAny V (hvs_lookup hvs' x t) = HasTwoThirdsAny V (hvs_lookup hvs x t)"
proof -
  have wf: "hvs_wf hvs" and h: "hvs_height hvs \<noteq> 0" and H: "hvs_height hvs = H"
    using assms(1) by (auto simp: hvs_live_def hvs_wf_def hvs_shape_def)
  have rnd: "hvs_round hvs = R + 1 \<and> \<not> nh \<or> hvs_round hvs = 0"
    using assms(1) by (auto simp: hvs_live_def)
  have w: "wrap64 (r + 1) = r + 1" using assms(4-6) by (intro wrap64_idI) auto
  have "is_int64 (hvs_round hvs + 1)" using rnd assms(4-6) by (auto simp: is_int64_def)
  moreover have "hvs_round hvs = 0 \<or> hvs_round hvs < r + 1" using rnd assms(5) by auto
  ultimately obtain hvs' where set: "SetRound (r + 1) hvs = Inr hvs'" and round: "hvs_round hvs' = r + 1"
    and ext: "extends_to (hvs_round hvs + 1) (r + 1) hvs hvs'"
    using SetRound_spec [OF h, of "r + 1"] assms(6) by auto
  let ?new = "\<lambda>x t. \<not> hvs_has hvs x \<and> hvs_round hvs + 1 \<le> x \<and> x \<le> r + 1 \<and> (t = PrevoteType \<or> t = PrecommitType)"
  have look: "hvs_lookup hvs' x t = (if ?new x t then Some (fresh_set hvs x t) else hvs_lookup hvs x t)" for x t
    using ext unfolding extends_to_def by blast
  have none: "hvs_lookup hvs x t = None" if "?new x t" for x t
    using that by (simp add: hvs_lookup_eq hvs_has_def)
  have "hvs_shape hvs'" using hvs_shape_extends [OF _ ext] wf by (simp add: hvs_wf_def)
  moreover have "hvs_tracks hvs'"
    using wf ext round assms(4,5) rnd unfolding hvs_wf_def hvs_tracks_def extends_to_def by auto
  moreover have "vs_counted V vs \<and> vs_sum vs + int m * p < 2 ^ 63" if "hvs_lookup hvs' x t = Some vs" for x t vs
  proof (cases "?new x t")
    case True
    then have "vs = fresh_set hvs x t" using that unfolding look if_P [OF True] by simp
    with fresh_no_majority(3) [OF h assms(2)] h assms(3) show ?thesis by simp
  next
    case False
    have "hvs_lookup hvs x t = Some vs" using that unfolding look if_not_P [OF False] .
    with assms(1) show ?thesis unfolding hvs_live_def by blast
  qed
  ultimately have "hvs_live V p m H r False hvs'"
    using ext round H by (auto simp: hvs_live_def hvs_wf_def extends_to_def)
  moreover have "TwoThirdsMajority (hvs_lookup hvs' x t) = TwoThirdsMajority (hvs_lookup hvs x t)"
    and "HasTwoThirdsAny V (hvs_lookup hvs' x t) = HasTwoThirdsAny V (hvs_lookup hvs x t)" for x t
  proof -
    have "TwoThirdsMajority (hvs_lookup hvs' x t) = TwoThirdsMajority (hvs_lookup hvs x t) \<and>
        HasTwoThirdsAny V (hvs_lookup hvs' x t) = HasTwoThirdsAny V (hvs_lookup hvs x t)"
    proof (cases "?new x t")
      case True
      then show ?thesis
        unfolding look if_P [OF True] none [OF True] using fresh_no_majority(1,2) [OF h assms(2)]
        by (simp add: TwoThirdsMajority_def HasTwoThirdsAny_def)
    next
      case False
      show ?thesis unfolding look if_not_P [OF False] by simp
    qed
    then show "TwoThirdsMajority (hvs_lookup hvs' x t) = TwoThirdsMajority (hvs_lookup hvs x t)"
      and "HasTwoThirdsAny V (hvs_lookup hvs' x t) = HasTwoThirdsAny V (hvs_lookup hvs x t)" by blast+
  qed
  ultimately show thesis using set w by (intro that [of hvs']) simp_all
qed

lemma enterNewRound_total:
  assumes "ready p M m c" and "0 \<le> r" and "r + 301 * int m < 2 ^ 62"
  obtains c' where "enterNewRound env h r c = Inr c'" "ready p M m c'" "same_views c c'" "cfg c' = cfg c"
    "Height c' = Height c" "Height c = h \<Longrightarrow> Round c' = max r (Round c)" "Height c \<noteq> h \<Longrightarrow> c' = c"
proof (cases "Height c \<noteq> h \<or> r < Round c \<or> (Round c = r \<and> Step c \<noteq> RoundStepNewHeight)")
  case True
  then show thesis using assms(1) by (intro that [of c]) (auto simp: enterNewRound_def)
next
  case False
  then have enter: "Round c < r \<or> Round c = r \<and> Step c = RoundStepNewHeight" and h: "Height c = h" by auto
  from assms(1) obtain hvs where hvs: "Votes c = Some hvs"
    and live: "hvs_live (app c) p m (Height c) (Round c) (Step c = RoundStepNewHeight) hvs"
    by (auto simp: ready_def)
  have pre: "total_ok (app c)" "int m * p < 2 ^ 63" "0 \<le> Round c" "r < 2 ^ 62"
    using assms by (auto simp: ready_def good_committee_def safe_def)
  obtain hvs' where set: "SetRound (wrap64 (r + 1)) hvs = Inr hvs'" and live': "hvs_live (app c) p m (Height c) r False hvs'"
    and views: "\<And>x t. TwoThirdsMajority (hvs_lookup hvs' x t) = TwoThirdsMajority (hvs_lookup hvs x t)"
      "\<And>x t. HasTwoThirdsAny (app c) (hvs_lookup hvs' x t) = HasTwoThirdsAny (app c) (hvs_lookup hvs x t)"
    using SetRound_live [OF live pre(1-3) enter pre(4)] by blast
  define c1 where "c1 = c\<lparr>Round := r, Step := RoundStepNewRound, inFetch := False, reads := Suc (reads c),
        Proposal := (if r = 0 then Proposal c else None), Votes := Some hvs'\<rparr>"
  have "sim_any env c c1" using enter hvs set c1_def by (rule new_round_sim)
  moreover have "lock_sound c1 = lock_sound c" "queue_ok M c1 = queue_ok M c"
    by (simp_all add: c1_def lock_sound_def queue_ok_def)
  ultimately have ready: "ready p M m c1"
    using assms live' unfolding ready_def sim_def by (simp add: c1_def)
  have eq: "enterNewRound env h r c = Inr (enterPropose env h r c1)"
  proof -
    let ?c2 = "if r = 0 then updateRoundStep r RoundStepNewRound (next_read c)
      else (updateRoundStep r RoundStepNewRound (next_read c))\<lparr>Proposal := None\<rparr>"
    have c2: "?c2\<lparr>Votes := Some hvs'\<rparr> = c1" and "Votes ?c2 = Some hvs" using hvs by (simp_all add: update_defs c1_def)
    with False set show ?thesis unfolding enterNewRound_def Let_def by (simp only: if_False deref_simps and_then_simps)
  qed
  have r: "r \<le> Round c1" by (simp add: c1_def)
  have q: "quiet M c1 (enterPropose env h r c1)" using r by (rule enterPropose_quiet)
  have "same_views c c1" using views hvs by (simp add: same_views_def c1_def vset_def)
  then have views': "same_views c (enterPropose env h r c1)"
    using same_views_quiet [OF q] by (rule same_views_trans)
  have c1: "cfg c1 = cfg c" "Height c1 = Height c" "Round c1 = r" by (simp_all add: c1_def)
  show thesis
    by (rule that [OF eq ready_quiet [OF ready q enterPropose_sim [OF r]] views'])
       (use q c1 enter h in \<open>auto simp: quiet_def\<close>)
qed



section \<open>Precommits and waiting\<close>

lemma POLInfo_current:
  assumes "no_polka_after R hvs" and "hvs_live V p m H R nh hvs" and "0 \<le> R"
    and "TwoThirdsMajority (Prevotes R hvs) = (d, True)"
  shows "fst (POLInfo hvs) = R"
proof -
  obtain q d' where q: "POLInfo hvs = (q, d')" by fastforce
  have R: "R \<le> hvs_round hvs" using assms(2,3) by (auto simp: hvs_live_def)
  have has: "HasTwoThirdsMajority (Prevotes R hvs)" using assms(4) by (simp add: Has_snd_Majority)
  have later: "\<not> HasTwoThirdsMajority (Prevotes x hvs)" if "R < x" for x
    using assms(1) that by (simp add: no_polka_after_def)
  from pol_loop_spec [OF q [unfolded POLInfo_def]] have "q = R"
  proof (elim disjE conjE)
    assume "q = -1" and "\<forall>x. 0 \<le> x \<and> x \<le> hvs_round hvs \<longrightarrow> \<not> HasTwoThirdsMajority (Prevotes x hvs)"
    with has R assms(3) show "q = R" by blast
  next
    assume "TwoThirdsMajority (Prevotes q hvs) = (d', True)"
      and none: "\<forall>x. q < x \<and> x \<le> hvs_round hvs \<longrightarrow> \<not> HasTwoThirdsMajority (Prevotes x hvs)"
    then have "\<not> R < q" using later [of q] by (auto simp: Has_snd_Majority)
    moreover have "\<not> q < R" using none has R by blast
    ultimately show "q = R" by simp
  qed
  with q show ?thesis by simp
qed

lemma done_enterPrecommit_quiet:
  assumes "quiet M c c2" and "Round c = r"
  shows "quiet M c (done_enterPrecommit r c2)"
proof -
  have "quiet M c2 (done_enterPrecommit r c2)"
    using assms by (intro quietI) (simp_all add: done_enterPrecommit_def enterPrecommitFetch_def Let_def update_defs quiet_def)
  with assms(1) show ?thesis by (rule quiet_trans)
qed

lemma next_read_quiet: "quiet M c (next_read c)"
  by (rule quietI) (simp_all add: next_read_def)

lemma precommit_polka_total:
  assumes "lock_sound c"
  obtains c2 where "precommit_polka env r d v c = Inr c2" "quiet M c c2"
proof -
  have lock: "quiet M c (c\<lparr>LockedRound := x, LockedProposal := Some y\<rparr>)"
    "quiet M c (c\<lparr>LockedRound := -1, LockedProposal := None\<rparr>)" for x y
    by (simp_all add: quiet_def lock_sound_def queue_ok_def)
  have vote: "quiet M c (signAddVote env w c')" if "quiet M c c'" for w c'
    using that quiet_signAddVote by (rule quiet_trans)
  have relock: "quiet M c (c\<lparr>LockedRound := x\<rparr>)" if "LockedProposal c = Some y" for x y
    using that by (simp add: quiet_def lock_sound_def queue_ok_def)
  obtain on_it where m: "(if LockedRound c \<ge> 0
      then and_then (deref (LockedProposal c)) (\<lambda>lp. Inr (v_Proposed lp = d)) else Inr False) = Inr on_it"
    and on: "on_it \<Longrightarrow> \<exists>y. LockedProposal c = Some y"
    using assms by (cases "LockedProposal c"; cases "LockedRound c \<ge> 0") (simp_all add: lock_sound_def)
  note eq = precommit_polka_def [of env r d v c, unfolded m and_then_simps]
  show thesis
  proof (cases "on_it")
    case True
    with on vote relock show thesis by (intro that) (auto simp: eq)
  next
    case False
    show thesis
    proof (cases "Proposal c \<noteq> None \<and> v_Proposed (the (Proposal c)) = d")
      case True
      then obtain y where "Proposal c = Some y" by blast
      with True False vote [OF lock(1) [of y r]] show thesis by (intro that) (auto simp: eq)
    next
      case no: False
      have "precommit_polka env r d v c = Inr (signAddVote env v (c\<lparr>LockedRound := -1, LockedProposal := None\<rparr>))"
        unfolding eq using False no by (simp only: if_False)
      then show thesis using vote [OF lock(2)] by (rule that)
    qed
  qed
qed

lemma enterPrecommit_total:
  assumes "live p M m c" and "r \<le> Round c"
  obtains c' where "enterPrecommit env h r c = Inr c'" "quiet M c c'"
proof (cases "Height c \<noteq> h \<or> r < Round c \<or> (Round c = r \<and> RoundStepPrecommit \<le> Step c)")
  case True
  then show thesis by (intro that [of c]) (auto simp: enterPrecommit_def)
next
  case False
  then have eq: "r = Round c" "h = Height c" and ng: "\<not> RoundStepPrecommit \<le> Step c" using assms(2) by auto
  from assms(1) obtain hvs where hvs: "Votes c = Some hvs"
    and live: "hvs_live (app c) p m (Height c) (Round c) (Step c = RoundStepNewHeight) hvs"
    and lock: "lock_sound c" and "0 \<le> Round c" and "no_polka_after (Round c) hvs"
    by (auto simp: live_def ready_def polkas_ok_def safe_def)
  let ?v = "new_vote env PrecommitType h r NilData c"
  show thesis
  proof (cases "Prevotes r hvs" rule: TwoThirdsMajority_cases)
    case none
    then have "enterPrecommit env h r c = Inr (done_enterPrecommit (Round c) (signAddVote env ?v (next_read c)))"
      using ng hvs by (simp add: enterPrecommit_def eq Let_def)
    then show thesis
      using quiet_trans [OF next_read_quiet quiet_signAddVote] by (intro that) (auto intro: done_enterPrecommit_quiet)
  next
    case (some d)
    have "fst (POLInfo hvs) = Round c"
      using \<open>no_polka_after (Round c) hvs\<close> live \<open>0 \<le> Round c\<close> some(1) unfolding eq by (rule POLInfo_current)
    moreover have "lock_sound (next_read c)" using lock by (simp add: lock_sound_def next_read_def)
    then obtain c2 where "precommit_polka env r d ?v (next_read c) = Inr c2" "quiet M (next_read c) c2"
      by (rule precommit_polka_total)
    ultimately show thesis
      using ng hvs some quiet_trans [OF next_read_quiet, of M c c2]
      by (intro that [of "done_enterPrecommit r c2"])
         (simp_all add: enterPrecommit_def eq Let_def done_enterPrecommit_quiet)
  qed
qed

lemma enterPrevoteWait_total:
  assumes "Votes c = Some hvs" and "HasTwoThirdsAny (app c) (Prevotes r hvs)" and "r \<le> Round c"
  obtains c' where "enterPrevoteWait env h r c = Inr c'" "quiet M c c'"
proof (cases "Height c \<noteq> h \<or> r < Round c \<or> (Round c = r \<and> RoundStepPrevoteWait \<le> Step c)")
  case False
  then have r: "r = Round c" using assms(3) by auto
  let ?c' = "updateRoundStep r RoundStepPrevoteWait (scheduleTimeout (cfg_Prevote (cfg c) r) h r RoundStepPrevoteWait c)"
  have "enterPrevoteWait env h r c = Inr ?c'"
    using False assms(1,2) by (auto simp: enterPrevoteWait_def)
  moreover have "quiet M c ?c'" by (rule quietI) (simp_all add: update_defs r)
  ultimately show thesis by (rule that)
qed (auto simp: enterPrevoteWait_def intro: that)

lemma enterPrecommitWait_total:
  assumes "Votes c = Some hvs" and "HasTwoThirdsAny (app c) (Precommits r hvs)" and "r \<le> Round c"
  obtains c' where "enterPrecommitWait env h r c = Inr c'" "quiet M c c'"
proof (cases "Height c \<noteq> h \<or> r < Round c \<or> (Round c = r \<and> RoundStepPrecommitWait \<le> Step c)")
  case False
  then have r: "r = Round c" using assms(3) by auto
  let ?c' = "updateRoundStep r RoundStepPrecommitWait (scheduleTimeout (cfg_Precommit (cfg c) r) h r RoundStepPrecommitWait c)"
  have "enterPrecommitWait env h r c = Inr ?c'"
    using False assms(1,2) by (auto simp: enterPrecommitWait_def)
  moreover have "quiet M c ?c'" by (rule quietI) (simp_all add: update_defs r)
  ultimately show thesis by (rule that)
qed (auto simp: enterPrecommitWait_def intro: that)



section \<open>Committing\<close>

lemma good_committee_nonneg: "good_committee p V \<Longrightarrow> 0 \<le> p"
  unfolding good_committee_def powers_within_def by (meson order_trans)

lemma ready_mono:
  assumes "ready p M m' c" and "m \<le> m'"
  shows "ready p M m c"
proof -
  have "0 \<le> p" using assms(1) good_committee_nonneg by (auto simp: ready_def)
  then have le: "int m * p \<le> int m' * p" using assms(2) by (simp add: mult_right_mono)
  have "hvs_live (app c) p m H R nh hvs" if "hvs_live (app c) p m' H R nh hvs" for H R nh hvs
    using that le unfolding hvs_live_def by (meson add_left_mono le_less_trans)
  moreover have "Round c + 301 * int m < 2 ^ 62" "Height c + int m < 2 ^ 62" "int m * p < 2 ^ 63"
    using assms le by (auto simp: ready_def)
  ultimately show ?thesis using assms(1) unfolding ready_def by blast
qed

lemma live_mono: "live p M m' c \<Longrightarrow> m \<le> m' \<Longrightarrow> live p M m c"
  using ready_mono by (auto simp: live_def)

lemma updateToAppState_total:
  assumes "\<not> (CommitRound c > -1 \<and> 0 < Height c \<and> Height c > LastHeight st)" and "last_precommits c = Inr lp"
    and "wrap64 (LastHeight st + 1) \<noteq> 0"
  shows "\<exists>c'. updateToAppState env (Some st) c = Inr c'"
proof -
  obtain hvs where "NewHeightVoteSet (wrap64 (LastHeight st + 1)) (LastProposedData st) = Inr hvs"
    by (rule NewHeightVoteSet_spec [OF assms(3), of "LastProposedData st"])
  with assms(1,2) show ?thesis by (auto simp: updateToAppState_def Let_def update_defs)
qed

lemma new_height_live:
  assumes "NewHeightVoteSet H b = Inr hvs" and "0 < H" and "total_ok V" and "int m * p < 2 ^ 63"
  shows "hvs_live V p m H 0 True hvs" and "no_polka_after R hvs"
proof -
  have H: "H \<noteq> 0" using assms(2) by simp
  obtain hvs1 where new: "NewHeightVoteSet H b = Inr hvs1" "hvs_height hvs1 = H" "hvs_round hvs1 = 0" "hvs_wf hvs1"
    and fresh: "\<And>r t vs. hvs_lookup hvs1 r t = Some vs \<Longrightarrow> vs = fresh_set hvs1 r t"
    by (rule NewHeightVoteSet_spec [OF H, of b]) blast
  have eq: "hvs1 = hvs" using new(1) assms(1) by simp
  have h: "hvs_height hvs \<noteq> 0" using new(2) H eq by simp
  have "vs_counted V vs \<and> vs_sum vs + int m * p < 2 ^ 63" if "hvs_lookup hvs r t = Some vs" for r t vs
    using fresh [unfolded eq, OF that] fresh_no_majority(3) [OF h assms(3)] h assms(4) by simp
  then show "hvs_live V p m H 0 True hvs" using new(2-4) eq unfolding hvs_live_def by simp
  have "\<not> HasTwoThirdsMajority (Prevotes r hvs)" for r
  proof (cases "hvs_lookup hvs r PrevoteType")
    case None
    then show ?thesis by (simp add: Prevotes_lookup HasTwoThirdsMajority_def)
  next
    case (Some vs)
    with fresh [unfolded eq, OF Some] fresh_no_majority(1) [OF h assms(3), of r PrevoteType] show ?thesis
      by (simp add: Prevotes_lookup Has_snd_Majority)
  qed
  then show "no_polka_after R hvs" by (simp add: no_polka_after_def)
qed

text \<open>The commit made from the precommits of round \<open>r\<close> is for the node's own height.\<close>

lemma commit_of_live:
  assumes "hvs_live V p m H R nh hvs" and "TwoThirdsMajority (Precommits r hvs) = (d, True)" and "env_ok env"
  obtains k0 where "MakeCommit (map_order env n) (Precommits r hvs) = Inr k0"
    "c_ProposedData k0 = d" "\<And>t. Commit_Height (SignCommit (codec env) (privVal env) (k0\<lparr>c_CommitTime := t\<rparr>)) = H"
proof -
  have env: "\<And>n. is_range_order (map_order env n)" "PrivPubKey (privVal env) \<noteq> []" "\<And>x. PrivSign (privVal env) x \<noteq> []"
    using assms(3) by (simp_all add: env_ok_def)
  obtain vs where vs: "Precommits r hvs = Some vs" "vs_maj23 vs = d"
    using assms(2) by (cases "Precommits r hvs") (auto simp: vs_defs split: if_splits)
  have "hvs_shape hvs" "hvs_height hvs = H" using assms(1) by (simp_all add: hvs_live_def hvs_wf_def)
  then have wf: "vs_wf vs" "vs_height vs = H" "vs_type vs = PrecommitType"
    using hvs_shapeD [of hvs r PrecommitType vs] vs(1) by (simp_all add: Precommits_lookup)
  have "HasTwoThirdsMajority (Some vs)" using assms(2) vs(1) by (simp add: Has_snd_Majority)
  then obtain k0 where k0: "MakeCommit (map_order env n) (Some vs) = Inr k0" "c_ProposedData k0 = vs_maj23 vs"
    using MakeCommit_total [OF wf(1) _ env(1)] by blast
  have "Commit_Height (SignCommit (codec env) (privVal env) (k0\<lparr>c_CommitTime := t\<rparr>)) = H" for t
    using MakeCommit_signed_valid(2) [OF k0(1) wf(1) env(1) wf(3) env(2,3) refl, of "codec env" t] wf(2) by simp
  with k0 vs show thesis by (intro that [of k0]) simp_all
qed

lemma doCommit_total:
  assumes "Votes c = Some hvs" and "MakeCommit (map_order env (reads c)) (Precommits (CommitRound c) hvs) = Inr k0"
    and "c_ProposedData k0 = d" and "HasTwoThirdsMajority (Precommits (CommitRound c) hvs)"
    and "GetAppState (AppCommit env (Suc (reads c)) (SignCommit (codec env) (privVal env) (k0\<lparr>c_CommitTime := CommitTime c\<rparr>)) (app c)) = Some st"
    and "Height c \<le> LastHeight st" and "wrap64 (LastHeight st + 1) \<noteq> 0"
  shows "\<exists>c'. doCommit env d c = Inr c'"
proof -
  let ?k = "SignCommit (codec env) (privVal env) (k0\<lparr>c_CommitTime := CommitTime c\<rparr>)"
  define c2 where "c2 = (if \<not> hasRecvCommitRecords (next_read c) then call_app (BroadCast (MCommit ?k)) (next_read c) else next_read c)"
  define c3 where "c3 = (call_app (CommitCall ?k) c2)\<lparr>app := AppCommit env (reads c2) ?k (app c2)\<rparr>"
  have c2: "reads c2 = Suc (reads c)" "app c2 = app c" "Height c2 = Height c" "CommitRound c2 = CommitRound c" "Votes c2 = Votes c"
    by (simp_all add: c2_def call_app_def next_read_def)
  have c3: "GetAppState (app c3) = Some st" "Height c3 = Height c" "Votes c3 = Some hvs" "CommitRound c3 = CommitRound c"
    using assms(1,5) c2 by (simp_all add: c3_def call_app_def)
  obtain lp where "last_precommits c3 = Inr lp" using c3 assms(4) by (cases "-1 < CommitRound c") (auto simp: last_precommits_def)
  then obtain c4 where "updateToAppState env (Some st) c3 = Inr c4"
    using updateToAppState_total [of c3 st lp env] c3 assms(6,7) by auto
  moreover have "GetAppState (AppCommit env (reads c2) ?k (app c2)) = Some st" using assms(5) c2 by simp
  ultimately show ?thesis using assms(1-3) by (simp add: doCommit_def Let_def flip: c2_def c3_def)
qed

lemma enterCommit_total:
  assumes "live p M (Suc m) c" and "env_live p env" and "0 \<le> r"
    and hvs: "Votes c = Some hvs" and maj: "TwoThirdsMajority (Precommits r hvs) = (d, True)"
  obtains c' where "enterCommit env h r c = Inr c'" "live p M m c'" "cfg c' = cfg c"
proof (cases "Height c \<noteq> h \<or> RoundStepCommit \<le> Step c")
  case True
  then show thesis using live_mono [OF assms(1)] by (intro that [of c]) (auto simp: enterCommit_def)
next
  case False
  have env: "env_ok env" using assms(2) by (simp add: env_live_def)
  have ready: "safe c" "good_committee p (app c)" "queue_ok M c" "Height c + int (Suc m) < 2 ^ 62"
    "int (Suc m) * p < 2 ^ 63" "Round c + 301 * int (Suc m) < 2 ^ 62"
    and live: "hvs_live (app c) p (Suc m) (Height c) (Round c) (Step c = RoundStepNewHeight) hvs"
    using assms(1) hvs by (auto simp: live_def ready_def)
  have H: "0 < Height c" and R: "0 \<le> Round c" using ready(1) by (simp_all add: safe_def)
  obtain k0 where k0: "MakeCommit (map_order env (Suc (reads c))) (Precommits r hvs) = Inr k0" "c_ProposedData k0 = d"
    and height: "\<And>t. Commit_Height (SignCommit (codec env) (privVal env) (k0\<lparr>c_CommitTime := t\<rparr>)) = Height c"
    by (rule commit_of_live [OF live maj env, where n = "Suc (reads c)"]) blast
  let ?k = "SignCommit (codec env) (privVal env) (k0\<lparr>c_CommitTime := common_Now env c\<rparr>)"
  let ?V = "AppCommit env (reads c + 2) ?k (app c)"
  have V: "GetAppState (AppCommit env n k W) = Some st \<Longrightarrow> Commit_Height k < 2 ^ 62 \<Longrightarrow> LastHeight st = Commit_Height k" for n k W st
    using assms(2) unfolding env_live_def by blast
  obtain st where st: "GetAppState ?V = Some st" using env unfolding env_ok_def by blast
  have last: "LastHeight st = Height c" using V [OF st] height ready(4) by simp
  have has: "HasTwoThirdsMajority (Precommits r hvs)" using maj by (simp add: Has_snd_Majority)
  let ?c2 = "updateRoundStep (Round c) RoundStepCommit (next_read (c\<lparr>CommitRound := r, CommitTime := common_Now env c\<rparr>))"
  have "\<exists>c'. doCommit env d ?c2 = Inr c'"
    by (rule doCommit_total [of _ hvs _ k0 _ st])
       (use hvs k0 has st last H ready(4) in \<open>simp_all add: update_defs wrap64_idI\<close>)
  then have "\<exists>c'. enterCommit env h r c = Inr c'"
    using False hvs maj by (simp add: enterCommit_def Let_def)
  then obtain c' where c': "enterCommit env h r c = Inr c'" ..
  have sim: "sim_any env c c'" using c' env assms(3) by (rule enterCommit_sim) simp
  from c' env show thesis
  proof (cases rule: enterCommit_Inr)
    case (commit hvs1 d1 k1 k st1 c3 c4 t out)
    have k1: "k1 = k0" using commit(3,5) hvs k0 by simp
    have good: "good_committee p (AppCommit env n kk W)" if "good_committee p W" for n kk W
      using assms(2) that unfolding env_live_def by blast
    have last1: "LastHeight st1 = Height c" using V [OF commit(8)] height [of t] ready(4) by (simp add: commit(7) k1)
    from commit(12) obtain hvs' lp rd st' where new: "NewHeightVoteSet (wrap64 (LastHeight st1 + 1)) (LastProposedData st1) = Inr hvs'"
      and c4: "c4 = c3\<lparr>Height := wrap64 (LastHeight st1 + 1), Round := 0, Step := RoundStepNewHeight, inFetch := False,
        reads := rd, StartTime := st', Proposal := None, LockedRound := -1, LockedProposal := None,
        CommitRound := -1, LastCommit := lp, lastCommittedData := LastProposedData st1, Votes := Some hvs'\<rparr>"
      by (rule updateToAppState_Inr)
    have w: "wrap64 (LastHeight st1 + 1) = Height c + 1" using last1 H ready(4) by (simp add: wrap64_idI)
    have fields: "Height c' = Height c + 1" "Round c' = 0" "Step c' = RoundStepNewHeight" "Votes c' = Some hvs'"
      "app c' = AppCommit env (reads c + 2) k (app c)" "msgQueue c' = msgQueue c" "LockedRound c' = -1" "cfg c' = cfg c"
      by (simp_all add: commit(13) scheduleRound0_def Let_def update_defs c4 w commit(10))
    have goodV: "good_committee p (app c')" unfolding fields by (rule good [OF ready(2)])
    have p: "int m * p < 2 ^ 63" using ready(5) good_committee_nonneg [OF ready(2)] by (simp add: algebra_simps)
    note nh = new_height_live [OF new [unfolded w] _ _ p, of "app c'"]
    have "live p M m c'"
      using sim ready goodV nh H R fields p
      by (auto simp: live_def ready_def polkas_ok_def sim_def lock_sound_def queue_ok_def good_committee_def)
    with c' fields(8) show thesis by (intro that)
  qed (use False in auto)
qed

end
