(* ===== verification/Core_Live.thy ===== *)
theory Core_Live
  imports Core_Total Core_Fixture
begin

text \<open>
  A node does not panic: votes, messages, timeouts and whole runs, within the budget of
  \<open>live\<close>.
\<close>

section \<open>Adding votes\<close>

lemma budget_Suc: "int (Suc m) * p = int m * p + p"
  by (simp add: algebra_simps)

lemma hvs_live_less:
  assumes "hvs_live V p (Suc m) H R nh hvs" and "0 \<le> p"
  shows "hvs_live V p m H R nh hvs"
proof -
  have "vs_counted V vs \<and> vs_sum vs + int m * p < 2 ^ 63" if "hvs_lookup hvs r t = Some vs" for r t vs
  proof -
    have "vs_counted V vs" "vs_sum vs + int (Suc m) * p < 2 ^ 63"
      using assms(1) that unfolding hvs_live_def by blast+
    with assms(2) show ?thesis unfolding budget_Suc by linarith
  qed
  with assms(1) show ?thesis unfolding hvs_live_def by blast
qed

lemma target_set_live:
  assumes "hvs_live V p m H R nh hvs" and "total_ok V" and "int m * p < 2 ^ 63"
    and "t = PrevoteType \<or> t = PrecommitType"
  shows "vs_wf (target_set hvs r t)" and "vs_counted V (target_set hvs r t)"
    and "vs_sum (target_set hvs r t) + int m * p < 2 ^ 63"
    and "TwoThirdsMajority (Some (target_set hvs r t)) = TwoThirdsMajority (hvs_lookup hvs r t)"
proof -
  have h: "hvs_height hvs \<noteq> 0" and s: "hvs_shape hvs"
    using assms(1) by (auto simp: hvs_live_def hvs_wf_def hvs_shape_def)
  show "vs_wf (target_set hvs r t)" using target_set_shape [OF s] by simp
  have "vs_counted V (target_set hvs r t) \<and> vs_sum (target_set hvs r t) + int m * p < 2 ^ 63 \<and>
    TwoThirdsMajority (Some (target_set hvs r t)) = TwoThirdsMajority (hvs_lookup hvs r t)"
  proof (cases "hvs_lookup hvs r t")
    case None
    then have "target_set hvs r t = fresh_set hvs r t" by (simp add: target_set_def)
    with None fresh_no_majority [OF h assms(2)] h assms(3) show ?thesis by (simp add: TwoThirdsMajority_def)
  next
    case (Some vs)
    moreover have "vs_counted V vs \<and> vs_sum vs + int m * p < 2 ^ 63"
      using assms(1) Some unfolding hvs_live_def by blast
    ultimately show ?thesis by (simp add: target_set_def)
  qed
  then show "vs_counted V (target_set hvs r t)" "vs_sum (target_set hvs r t) + int m * p < 2 ^ 63"
    "TwoThirdsMajority (Some (target_set hvs r t)) = TwoThirdsMajority (hvs_lookup hvs r t)" by blast+
qed

lemma vs_addVote_live:
  assumes "vs_wf vs" and "vs_counted V vs" and "vs_sum vs + int (Suc m) * p < 2 ^ 63" and "powers_within V p"
    and "vs_addVote V (Some v) vs = Inr (added, err, vs')"
  shows "vs_wf vs'" and "vs_counted V vs'" and "vs_sum vs' + int m * p < 2 ^ 63"
proof -
  let ?q = "GetVotingPower V (v_Address v)"
  have q: "0 \<le> ?q" "?q \<le> p" using assms(4) by (simp_all add: powers_within_def)
  then have m: "0 \<le> int m * p" by simp
  have room: "vs_sum vs + ?q < 2 ^ 63" and room': "vs_sum vs + ?q + int m * p < 2 ^ 63"
    using assms(3) q m unfolding budget_Suc by linarith+
  note nn = powers_within_nonneg [OF assms(4)]
  from assms(5) have "vs_wf vs' \<and> vs_counted V vs' \<and> vs_sum vs' + int m * p < 2 ^ 63"
  proof (cases rule: vs_addVote_cases)
    case (rejected e)
    then show ?thesis using assms(1-3) q by (simp add: algebra_simps)
  next
    case (accepted w)
    then have acc: "accepts V vs v" and vs': "vs' = vs_add V v vs" by simp_all
    have "vs_sums V vs" using assms(2) by (simp add: vs_counted_def)
    from vs_sums_add(2) [OF assms(1) this acc nn room] vs_counted_add [OF assms(1,2) acc nn room]
      vs_wf_add [OF assms(1) acc] room' show ?thesis by (simp add: vs')
  qed
  then show "vs_wf vs'" and "vs_counted V vs'" and "vs_sum vs' + int m * p < 2 ^ 63" by blast+
qed

lemma hvs_tracks_put_with:
  assumes "hvs_tracks hvs" and "hvs_height hvs \<noteq> 0" and "0 \<le> r"
  shows "hvs_tracks (hvs_put r t vs (hvs_with r hvs))"
  using assms by (auto simp: hvs_tracks_def hvs_with_simps)

lemma hvs_AddVote_live:
  assumes live: "hvs_live V p (Suc m) H R nh hvs" and good: "powers_within V p" "total_ok V" "int (Suc m) * p < 2 ^ 63"
    and v: "0 \<le> v_Round v" "v_Type v \<noteq> ProposalType"
  obtains added err hvs' where "hvs_AddVote V v hvs = Inr (added, err, hvs')" "hvs_live V p m H R nh hvs'"
    "added \<Longrightarrow> v_Type v = PrevoteType \<or> v_Type v = PrecommitType"
    "\<And>r t. \<not> (added \<and> r = v_Round v \<and> t = v_Type v) \<Longrightarrow>
       TwoThirdsMajority (hvs_lookup hvs' r t) = TwoThirdsMajority (hvs_lookup hvs r t)"
proof (cases "v_Type v = PrevoteType \<or> v_Type v = PrecommitType")
  case False
  then have eq: "hvs_AddVote V v hvs = Inr (False, Some ErrInvalidVoteType, hvs)"
    using v(2) by (simp add: hvs_AddVote_def IsVoteTypeValid_def)
  have p: "0 \<le> p" using good(1) unfolding powers_within_def by (meson order_trans)
  have "hvs_live V p m H R nh hvs" using live p by (rule hvs_live_less)
  from that [OF eq this] show thesis by simp
next
  case t: True
  let ?r = "v_Round v" and ?t = "v_Type v"
  have h: "hvs_height hvs \<noteq> 0" and wf: "hvs_wf hvs"
    using live by (auto simp: hvs_live_def hvs_wf_def hvs_shape_def)
  obtain added err vs' where add: "vs_addVote V (Some v) (target_set hvs ?r ?t) = Inr (added, err, vs')"
    using vs_addVote_total by blast
  let ?hvs' = "hvs_put ?r ?t vs' (hvs_with ?r hvs)"
  have eq: "hvs_AddVote V v hvs = Inr (added, err, ?hvs')" using hvs_AddVote_eq [OF h t] add by simp
  note tl = target_set_live [OF live good(2,3) t]
  note al = vs_addVote_live [OF tl(1-3) good(1) add]
  have p: "0 \<le> p" using good(1) unfolding powers_within_def by (meson order_trans)
  have look: "hvs_lookup ?hvs' r t = (if r = ?r \<and> t = ?t then Some vs' else hvs_lookup (hvs_with ?r hvs) r t)" for r t
    by (rule hvs_lookup_put_with [OF h t])
  have other: "hvs_lookup (hvs_with ?r hvs) r t = hvs_lookup hvs r t \<or>
      hvs_lookup hvs r t = None \<and> hvs_lookup (hvs_with ?r hvs) r t = Some (fresh_set hvs r t)" for r t
    unfolding hvs_lookup_with [OF h] using hvs_has_lookup [of t hvs ?r] by auto
  note fresh = fresh_no_majority [OF h good(2)]
  have m: "int m * p < 2 ^ 63" using good(3) p by (simp add: algebra_simps)
  have counted: "vs_counted V vs \<and> vs_sum vs + int m * p < 2 ^ 63" if l: "hvs_lookup ?hvs' r t = Some vs" for r t vs
  proof (cases "r = ?r \<and> t = ?t")
    case True
    with l al show ?thesis by (simp add: look)
  next
    case False
    with l have "hvs_lookup (hvs_with ?r hvs) r t = Some vs" unfolding look by simp
    with other [of r t] have "hvs_lookup hvs r t = Some vs \<or> vs = fresh_set hvs r t" by auto
    then show ?thesis
    proof
      assume "hvs_lookup hvs r t = Some vs"
      then have "vs_counted V vs \<and> vs_sum vs + int (Suc m) * p < 2 ^ 63" using live unfolding hvs_live_def by blast
      with p show ?thesis by (simp add: algebra_simps)
    next
      assume "vs = fresh_set hvs r t"
      with fresh(3) h m show ?thesis by simp
    qed
  qed
  have "hvs_shape ?hvs'" using hvs_shape_AddVote [OF _ eq] wf by (simp add: hvs_wf_def)
  moreover have "hvs_tracks ?hvs'" using wf h v(1) by (simp add: hvs_wf_def hvs_tracks_put_with)
  ultimately have "hvs_live V p m H R nh ?hvs'"
    using counted live unfolding hvs_live_def hvs_wf_def by (simp add: hvs_with_simps [OF h])
  moreover have "TwoThirdsMajority (hvs_lookup ?hvs' r t) = TwoThirdsMajority (hvs_lookup hvs r t)"
    if "\<not> (added \<and> r = ?r \<and> t = ?t)" for r t
  proof (cases "r = ?r \<and> t = ?t")
    case True
    with that have "vs' = target_set hvs ?r ?t" using vs_addVote_result(1) [OF add] by simp
    with True tl(4) [of ?r] show ?thesis unfolding look by simp
  next
    case False
    with other [of r t] fresh(1) show ?thesis unfolding look by (auto simp: TwoThirdsMajority_def)
  qed
  ultimately show thesis using eq t by (intro that)
qed

text \<open>A set with a majority has +2/3 of the votes.\<close>

lemma majority_any:
  assumes "hvs_live V p m H R nh hvs" and "powers_within V p" and "total_ok V"
    and "TwoThirdsMajority (hvs_lookup hvs r t) = (d, True)"
  shows "HasTwoThirdsAny V (hvs_lookup hvs r t)"
proof -
  obtain vs where vs: "hvs_lookup hvs r t = Some vs" "vs_maj23 vs \<noteq> NilData"
    using assms(4) by (cases "hvs_lookup hvs r t") (auto simp: TwoThirdsMajority_def split: if_splits)
  have "vs_counted V vs" "vs_wf vs" using assms(1) vs(1) unfolding hvs_live_def hvs_wf_def hvs_shape_def by blast+
  then have "quorum_of V \<le> vs_sum vs"
    using tally_le_vs_sum [OF _ _ powers_within_nonneg [OF assms(2)], of vs "vs_maj23 vs"] vs(2)
    by (auto simp: vs_counted_def)
  with vs(1) quorum_ok(1) [OF assms(3)] two_thirds_ok [OF assms(3)] show ?thesis by (simp add: HasTwoThirdsAny_def)
qed

lemma polka_unlock_quiet: "quiet M c (polka_unlock v ps c)"
proof (cases ps rule: TwoThirdsMajority_cases)
  case none
  then show ?thesis by (simp add: polka_unlock_def)
next
  case (some d)
  define c1 where "c1 = (if LockedProposal c \<noteq> None \<and> LockedRound c < v_Round v \<and>
      v_Proposed (the (LockedProposal c)) \<noteq> d then c\<lparr>LockedRound := -1, LockedProposal := None\<rparr> else c)"
  have "quiet M c c1" by (simp add: c1_def quiet_def lock_sound_def queue_ok_def)
  also have "quiet M c1 (polka_unlock v ps c)"
  proof -
    have "polka_unlock v ps c = (if d \<noteq> NilData \<and> v_Round v = Round c1 \<and> Proposal c1 \<noteq> None \<and>
      v_Proposed (the (Proposal c1)) \<noteq> d then c1\<lparr>Proposal := None\<rparr> else c1)"
      using some by (simp only: polka_unlock_def Let_def case_prod_conv c1_def not_True_eq_False if_False)
    moreover have "quiet M c1 (c1\<lparr>Proposal := None\<rparr>)" by (rule quietI) simp_all
    ultimately show ?thesis by simp
  qed
  finally show ?thesis .
qed

text \<open>\<open>settled r c\<close>: no polka above the round, but perhaps in round \<open>r\<close>.\<close>

definition settled :: "int \<Rightarrow> Core \<Rightarrow> bool" where
  "settled r c \<longleftrightarrow> (\<forall>x > Round c. x \<noteq> r \<longrightarrow> \<not> snd (TwoThirdsMajority (vset c x PrevoteType)))"

lemma polkas_ok_vset: "polkas_ok c \<longleftrightarrow> (\<forall>x > Round c. \<not> snd (TwoThirdsMajority (vset c x PrevoteType)))"
  by (auto simp: polkas_ok_def no_polka_after_def vset_def Prevotes_lookup Has_snd_Majority TwoThirdsMajority_def
      split: option.split)

lemma settled_reached:
  assumes "settled r c" and "r \<le> Round c \<or> \<not> snd (TwoThirdsMajority (vset c r PrevoteType))"
  shows "polkas_ok c"
  using assms unfolding settled_def polkas_ok_vset by (metis linorder_not_less)

lemma settled_entered:
  assumes "settled r c" and "same_views c c'" and "Round c' = max r (Round c)"
  shows "polkas_ok c'"
  using assms by (auto simp: settled_def polkas_ok_vset same_views_def)

lemma settled_quiet: "settled r c \<Longrightarrow> quiet M c c' \<Longrightarrow> settled r c'"
  by (simp add: settled_def quiet_def vset_def)

lemma ready_vset:
  assumes "ready p M m c"
  shows "snd (TwoThirdsMajority (vset c r t)) \<Longrightarrow> HasTwoThirdsAny (app c) (vset c r t)"
proof -
  assume maj: "snd (TwoThirdsMajority (vset c r t))"
  obtain hvs where hvs: "Votes c = Some hvs"
    and live: "hvs_live (app c) p m (Height c) (Round c) (Step c = RoundStepNewHeight) hvs"
    and good: "powers_within (app c) p" "total_ok (app c)"
    using assms by (auto simp: ready_def good_committee_def)
  obtain d where "TwoThirdsMajority (hvs_lookup hvs r t) = (d, True)"
    using maj hvs by (cases "TwoThirdsMajority (hvs_lookup hvs r t)") simp
  from majority_any [OF live good this] hvs show ?thesis by simp
qed

text \<open>\<open>goes p M m res\<close>: the outcome is a state with a budget of \<open>m\<close>, not a panic.\<close>

definition goes :: "int \<Rightarrow> nat \<Rightarrow> nat \<Rightarrow> Core outcome \<Rightarrow> bool" where
  "goes p M m res \<longleftrightarrow> (\<exists>c'. res = Inr c' \<and> live p M m c')"

lemma goes_Inr [simp]: "goes p M m (Inr c) \<longleftrightarrow> live p M m c"
  by (simp add: goes_def)

lemma goes_and_then:
  assumes "goes p M m' res" and "\<And>c. live p M m' c \<Longrightarrow> goes p M m (f c)"
  shows "goes p M m (and_then res f)"
  using assms by (auto simp: goes_def)

lemma goes_mono: "goes p M m' res \<Longrightarrow> m \<le> m' \<Longrightarrow> goes p M m res"
  using live_mono by (auto simp: goes_def)

lemma enterNewRound_goes:
  assumes "live p M m c" and "0 \<le> r" and "r + 301 * int m < 2 ^ 62"
  shows "goes p M m (enterNewRound env h r c)"
proof -
  have ready: "ready p M m c" and polkas: "polkas_ok c" using assms(1) by (simp_all add: live_def)
  obtain c' where c': "enterNewRound env h r c = Inr c'" "ready p M m c'" "same_views c c'"
    "Height c = h \<Longrightarrow> Round c' = max r (Round c)" "Height c \<noteq> h \<Longrightarrow> c' = c"
    using enterNewRound_total [OF ready assms(2,3), of env h] by blast
  have "polkas_ok c'" using polkas c'(3-5) by (cases "Height c = h") (auto simp: polkas_ok_vset same_views_def)
  with c' show ?thesis by (simp add: goes_def live_def)
qed

lemma enterPrecommit_goes:
  assumes "live p M m c" and "r \<le> Round c"
  shows "goes p M m (enterPrecommit env h r c)"
proof -
  obtain c' where c': "enterPrecommit env h r c = Inr c'" "quiet M c c'" by (rule enterPrecommit_total [OF assms])
  from live_quiet [OF assms(1) c'(2) enterPrecommit_sim [OF c'(1) assms(2)]] c'(1) show ?thesis by simp
qed

lemma enterPrevote_live: "live p M m c \<Longrightarrow> r \<le> Round c \<Longrightarrow> live p M m (enterPrevote env h r c)"
  by (rule live_quiet [OF _ enterPrevote_quiet enterPrevote_sim])

lemma enterPrevoteWait_goes:
  assumes "live p M m c" and "HasTwoThirdsAny (app c) (vset c r PrevoteType)" and "r \<le> Round c"
  shows "goes p M m (enterPrevoteWait env h r c)"
proof -
  obtain hvs where hvs: "Votes c = Some hvs" using assms(1) by (auto simp: live_def ready_def)
  then have any: "HasTwoThirdsAny (app c) (Prevotes r hvs)" using assms(2) by (simp add: Prevotes_lookup)
  obtain c' where c': "enterPrevoteWait env h r c = Inr c'" "quiet M c c'"
    by (rule enterPrevoteWait_total [OF hvs any assms(3)])
  from live_quiet [OF assms(1) c'(2) enterPrevoteWait_sim [OF c'(1) assms(3)]] c'(1) show ?thesis by simp
qed

lemma enterPrecommitWait_goes:
  assumes "live p M m c" and "HasTwoThirdsAny (app c) (vset c r PrecommitType)" and "r \<le> Round c"
  shows "goes p M m (enterPrecommitWait env h r c)"
proof -
  obtain hvs where hvs: "Votes c = Some hvs" using assms(1) by (auto simp: live_def ready_def)
  then have any: "HasTwoThirdsAny (app c) (Precommits r hvs)" using assms(2) by (simp add: Precommits_lookup)
  obtain c' where c': "enterPrecommitWait env h r c = Inr c'" "quiet M c c'"
    by (rule enterPrecommitWait_total [OF hvs any assms(3)])
  from live_quiet [OF assms(1) c'(2) enterPrecommitWait_sim [OF c'(1) assms(3)]] c'(1) show ?thesis by simp
qed

lemma added_prevote_goes:
  assumes ready: "ready p M m c" and "Votes c = Some hvs" and "settled (v_Round v) c" and "0 \<le> v_Round v"
    and room: "v_Round v + 301 * int m < 2 ^ 62"
  shows "goes p M m (added_prevote env (Height c) v hvs c)"
proof -
  let ?r = "v_Round v" and ?ps = "Prevotes (v_Round v) hvs"
  define c1 where "c1 = polka_unlock v ?ps c"
  have q1: "quiet M c c1" and sim1: "sim_any env c c1"
    using polka_unlock_quiet polka_unlock_sim [OF assms(2)] by (simp_all add: c1_def)
  have eqs: "Height c1 = Height c" "Votes c1 = Some hvs" using q1 assms(2) by (simp_all add: quiet_def)
  have ready1: "ready p M m c1" using ready q1 sim1 by (rule ready_quiet)
  have settled1: "settled ?r c1" using assms(3) q1 by (rule settled_quiet)
  have vs: "vset c1 ?r PrevoteType = ?ps" by (simp add: eqs Prevotes_lookup)
  have any: "snd (TwoThirdsMajority ?ps) \<Longrightarrow> HasTwoThirdsAny (app c1) ?ps"
    using ready_vset [OF ready1, of ?r PrevoteType] unfolding vs .
  have unf: "added_prevote env (Height c) v hvs c =
     (if Round c1 < ?r \<and> HasTwoThirdsAny (app c1) ?ps then enterNewRound env (Height c) ?r c1
      else if Round c1 = ?r \<and> RoundStepPrevote \<le> Step c1 then
        (if snd (TwoThirdsMajority ?ps) then enterPrecommit env (Height c) ?r c1
         else if HasTwoThirdsAny (app c1) ?ps then enterPrevoteWait env (Height c) ?r c1 else Inr c1)
      else if RoundStepPrevote > Step c1 then
        (if Proposal c1 \<noteq> None then Inr (enterPrevote env (Height c) (Round c1) c1) else Inr c1)
      else Inr c1)"
    unfolding added_prevote_def Let_def c1_def ..
  show ?thesis
  proof (cases "Round c1 < ?r \<and> HasTwoThirdsAny (app c1) ?ps")
    case True
    obtain c' where c': "enterNewRound env (Height c1) ?r c1 = Inr c'" "ready p M m c'" "same_views c1 c'"
      "Round c' = max ?r (Round c1)"
      using enterNewRound_total [OF ready1 assms(4) room, of env "Height c1"] by blast
    have "polkas_ok c'" using settled1 c'(3,4) by (rule settled_entered)
    with c' True show ?thesis unfolding unf by (simp add: goes_def live_def eqs)
  next
    case False
    then have "polkas_ok c1" using any vs by (intro settled_reached [OF settled1]) auto
    then have live1: "live p M m c1" using ready1 by (simp add: live_def)
    show ?thesis
      unfolding unf if_not_P [OF False]
      using live1 vs by (simp add: enterPrecommit_goes enterPrevoteWait_goes enterPrevote_live)
  qed
qed

lemma added_precommit_goes:
  assumes live: "live p M (Suc m) c" and env: "env_live p env" and hvs: "Votes c = Some hvs" and "0 \<le> v_Round v"
    and room: "v_Round v + 301 * int (Suc m) < 2 ^ 62"
  shows "goes p M m (added_precommit env (Height c) v hvs c)"
proof -
  let ?r = "v_Round v" and ?ps = "Precommits (v_Round v) hvs" and ?h = "Height c"
  have ready: "ready p M (Suc m) c" and polkas: "polkas_ok c" using live by (simp_all add: live_def)
  obtain c1 where c1: "enterNewRound env ?h ?r c = Inr c1" "ready p M (Suc m) c1" "same_views c c1" "Height c1 = ?h"
    "Round c1 = max ?r (Round c)"
    using enterNewRound_total [OF ready assms(4) room, of env ?h] by blast
  have "polkas_ok c1" using polkas c1(3,5) by (auto simp: polkas_ok_vset same_views_def)
  then have live1: "live p M (Suc m) c1" using c1(2) by (simp add: live_def)
  have ps: "vset c ?r PrecommitType = ?ps" using hvs by (simp add: Precommits_lookup)
  show ?thesis
  proof (cases "HasTwoThirdsMajority ?ps")
    case True
    obtain c2 where c2: "enterPrecommit env ?h ?r c1 = Inr c2" "quiet M c1 c2"
      using enterPrecommit_total [OF live1, of ?r env ?h] c1(5) by auto
    have "sim_any env c1 c2" using c2(1) by (rule enterPrecommit_sim) (simp add: c1(5))
    with live1 c2(2) have live2: "live p M (Suc m) c2" by (rule live_quiet)
    obtain hvs2 where hvs2: "Votes c2 = Some hvs2" using live2 by (auto simp: live_def ready_def)
    have "same_views c c2" using c1(3) same_views_quiet [OF c2(2)] by (rule same_views_trans)
    then have "TwoThirdsMajority (Precommits ?r hvs2) = TwoThirdsMajority ?ps"
      using hvs2 ps by (simp add: same_views_def Precommits_lookup)
    then obtain d where maj: "TwoThirdsMajority (Precommits ?r hvs2) = (d, True)"
      using True by (cases "TwoThirdsMajority ?ps") (simp add: Has_snd_Majority)
    obtain c3 where c3: "enterCommit env ?h ?r c2 = Inr c3" "live p M m c3"
      by (rule enterCommit_total [OF live2 env assms(4) hvs2 maj])
    obtain b where b: "HasAll (app c3) ?ps = Inr b"
      using True by (cases ?ps) (auto simp: HasAll_def HasTwoThirdsMajority_def)
    have "0 + 301 * int m < 2 ^ 62" using room assms(4) by simp
    from enterNewRound_goes [OF c3(2) _ this] have "goes p M m (enterNewRound env (Height c3) 0 c3)" by simp
    with True c1(1) c2(1) c3 b show ?thesis by (simp add: added_precommit_def)
  next
    case False
    show ?thesis
    proof (cases "Round c \<le> ?r \<and> HasTwoThirdsAny (app c) ?ps")
      case True
      then have "HasTwoThirdsAny (app c1) (vset c1 ?r PrecommitType)" "?r \<le> Round c1"
        using c1(3,5) ps by (simp_all add: same_views_def)
      from enterPrecommitWait_goes [OF live1 this] have "goes p M m (enterPrecommitWait env ?h ?r c1)"
        by (rule goes_mono) simp
      with True False c1(1) show ?thesis by (simp add: added_precommit_def)
    next
      case no: False
      have "added_precommit env ?h v hvs c = Inr c"
        unfolding added_precommit_def Let_def if_not_P [OF False] if_not_P [OF no] ..
      with live_mono [OF live, of m] show ?thesis by simp
    qed
  qed
qed

lemma live_frame:
  assumes "live p M m c" and "quiet M c c'" and "ticks c' = ticks c" and "Step c' = Step c"
    and "byzantinePrevote c' = byzantinePrevote c"
  shows "live p M m c'"
proof -
  have "safe c'" using assms by (auto simp: live_def ready_def safe_def quiet_def c_pos_def)
  with assms(1,2) show ?thesis by (auto simp: live_def ready_def quiet_def hvs_live_def polkas_ok_def)
qed

lemma defaultSetProposal_live:
  assumes "live p M m c"
  shows "live p M m (snd (defaultSetProposal env v c))"
proof -
  have "live p M m (c\<lparr>Proposal := Some v\<rparr>)"
    by (rule live_frame [OF assms]) (auto intro: quietI)
  with assms show ?thesis by (auto simp: defaultSetProposal_def Let_def enterPrevote_live)
qed

lemma add_straggler_goes:
  assumes "live p M m c"
  shows "goes p M m (and_then (add_straggler env v c) (\<lambda>(a, e, c'). Inr c'))"
proof (cases "\<not> (Step c = RoundStepNewHeight \<and> v_Type v = PrecommitType) \<or> LastCommit c = None")
  case True
  with assms show ?thesis by (auto simp: add_straggler_def)
next
  case False
  then obtain vs where vs: "LastCommit c = Some vs" by auto
  obtain a e vs' where add: "vs_addVote (app c) (Some v) vs = Inr (a, e, vs')"
    using vs_addVote_total by blast
  define c1 where "c1 = c\<lparr>LastCommit := Some vs'\<rparr>"
  have live1: "live p M m c1" unfolding c1_def by (rule live_frame [OF assms]) (auto intro: quietI)
  have "0 + 301 * int m < 2 ^ 62" using assms by (auto simp: live_def ready_def safe_def)
  from enterNewRound_goes [OF live1 _ this, of env "Height c1"] have "goes p M m (enterNewRound env (Height c1) 0 c1)" by simp
  moreover have "LastCommit c1 = Some vs'" by (simp add: c1_def)
  moreover have "add_straggler env v c =
      (if \<not> a then Inr (a, e, c1)
       else and_then (HasAll (app c1) (LastCommit c1)) (\<lambda>all.
         if SkipTimeoutCommit (cfg c1) \<and> all
         then and_then (enterNewRound env (Height c1) 0 c1) (\<lambda>c2. Inr (a, e, c2)) else Inr (a, e, c1)))"
    using False vs add unfolding c1_def by (simp add: add_straggler_def AddVote_def Let_def)
  ultimately show ?thesis using live1 by (auto simp: HasAll_def goes_def)
qed

text \<open>After a vote has been added, within the watermark.\<close>

lemma added_vote_goes:
  assumes live: "live p M (Suc (Suc m)) c" and env: "env_live p env" and hvs: "Votes c = Some hvs"
    and v: "v_Type v \<noteq> ProposalType" "0 \<le> v_Round v" "v_Round v \<le> Round c + 300"
  obtains a e hvs' where "hvs_AddVote (app c) v hvs = Inr (a, e, hvs')"
    "\<not> a \<Longrightarrow> live p M m (c\<lparr>Votes := Some hvs'\<rparr>)"
    "a \<Longrightarrow> v_Type v = PrevoteType \<Longrightarrow> goes p M m (added_prevote env (Height c) v hvs' (c\<lparr>Votes := Some hvs'\<rparr>))"
    "a \<Longrightarrow> v_Type v = PrecommitType \<Longrightarrow> goes p M m (added_precommit env (Height c) v hvs' (c\<lparr>Votes := Some hvs'\<rparr>))"
    "a \<Longrightarrow> v_Type v = PrevoteType \<or> v_Type v = PrecommitType"
proof -
  have ready: "ready p M (Suc (Suc m)) c" and polkas: "polkas_ok c" using live by (simp_all add: live_def)
  have good: "powers_within (app c) p" "total_ok (app c)" "int (Suc (Suc m)) * p < 2 ^ 63"
    and hl: "hvs_live (app c) p (Suc (Suc m)) (Height c) (Round c) (Step c = RoundStepNewHeight) hvs"
    using ready hvs by (auto simp: ready_def good_committee_def)
  obtain a e hvs' where add: "hvs_AddVote (app c) v hvs = Inr (a, e, hvs')"
    and hl': "hvs_live (app c) p (Suc m) (Height c) (Round c) (Step c = RoundStepNewHeight) hvs'"
    and ty: "a \<Longrightarrow> v_Type v = PrevoteType \<or> v_Type v = PrecommitType"
    and same: "\<And>r t. \<not> (a \<and> r = v_Round v \<and> t = v_Type v) \<Longrightarrow>
       TwoThirdsMajority (hvs_lookup hvs' r t) = TwoThirdsMajority (hvs_lookup hvs r t)"
    by (rule hvs_AddVote_live [OF hl good v(2,1)]) blast
  let ?c1 = "c\<lparr>Votes := Some hvs'\<rparr>"
  have "ready p M (Suc m) c" using ready by (rule ready_mono) simp
  then have ready1: "ready p M (Suc m) ?c1"
    using hl' by (auto simp: ready_def safe_def c_pos_def lock_sound_def queue_ok_def)
  have room: "v_Round v + 301 * int (Suc m) < 2 ^ 62" using ready v(3) by (simp add: ready_def)
  have polkas1: "polkas_ok ?c1" if "\<not> (a \<and> v_Type v = PrevoteType)"
    using polkas same that hvs by (auto simp: polkas_ok_vset)
  have settled: "settled (v_Round v) ?c1" using polkas same hvs by (auto simp: polkas_ok_vset settled_def)
  have "goes p M (Suc m) (added_prevote env (Height ?c1) v hvs' ?c1)"
    using ready1 settled v(2) room by (intro added_prevote_goes) simp_all
  from goes_mono [OF this, of m] have pv: "goes p M m (added_prevote env (Height c) v hvs' ?c1)" by simp
  have pc: "goes p M m (added_precommit env (Height c) v hvs' ?c1)" if "v_Type v = PrecommitType"
  proof -
    have "live p M (Suc m) ?c1" using ready1 polkas1 that by (simp add: live_def)
    from added_precommit_goes [OF this env _ v(2) room] show ?thesis by simp
  qed
  have "live p M m ?c1" if "\<not> a"
    using live_mono [of p M "Suc m" ?c1 m] ready1 polkas1 that by (simp add: live_def)
  from that [OF add this pv pc ty] show thesis by blast
qed

lemma tryAddVote_goes:
  assumes live: "live p M (Suc (Suc m)) c" and env: "env_live p env"
  shows "goes p M m (tryAddVote env (Some v) c)"
proof -
  have less: "live p M m c" using live by (rule live_mono) simp
  obtain hvs where hvs: "Votes c = Some hvs" using live by (auto simp: live_def ready_def)
  have "0 \<le> Round c" "Round c < 2 ^ 62" using live by (auto simp: live_def ready_def safe_def)
  then have w: "wrap64 (Round c + watermark) = Round c + 300" by (intro wrap64_idI [THEN trans]) (auto simp: watermark_def)
  show ?thesis
  proof (cases "v_Height v = Height c \<and> wrap64 (v_Height v + 1) \<noteq> Height c \<and> v_Type v \<noteq> ProposalType \<and>
      0 \<le> v_Round v \<and> v_Round v \<le> Round c + 300")
    case True
    then obtain a e hvs' where add: "hvs_AddVote (app c) v hvs = Inr (a, e, hvs')"
      "\<not> a \<Longrightarrow> live p M m (c\<lparr>Votes := Some hvs'\<rparr>)"
      "a \<Longrightarrow> v_Type v = PrevoteType \<Longrightarrow> goes p M m (added_prevote env (Height c) v hvs' (c\<lparr>Votes := Some hvs'\<rparr>))"
      "a \<Longrightarrow> v_Type v = PrecommitType \<Longrightarrow> goes p M m (added_precommit env (Height c) v hvs' (c\<lparr>Votes := Some hvs'\<rparr>))"
      "a \<Longrightarrow> v_Type v = PrevoteType \<or> v_Type v = PrecommitType"
      using added_vote_goes [OF live env hvs, of v] by blast
    from True add hvs show ?thesis
      by (cases a) (auto simp: tryAddVote_def addVote_def w Let_def goes_def)
  next
    case False
    show ?thesis
    proof (cases "wrap64 (v_Height v + 1) = Height c")
      case True
      with add_straggler_goes [OF less, of env v] show ?thesis by (simp add: tryAddVote_def addVote_def)
    next
      case no: False
      obtain err c1 where set: "defaultSetProposal env v c = (err, c1)" by fastforce
      with defaultSetProposal_live [OF less, of env v] have "live p M m c1" by simp
      with False no set less show ?thesis
        by (cases "v_Height v = Height c"; cases "v_Type v = ProposalType")
           (auto simp: tryAddVote_def addVote_def w)
    qed
  qed
qed


section \<open>Messages and timeouts\<close>

lemma for_each_goes:
  assumes "env_live p env" and "None \<notin> set ps" and "live p M (2 * length ps + m) c"
  shows "goes p M m (for_each (tryAddVote env) ps c)"
  using assms(2,3)
proof (induction ps arbitrary: c)
  case Nil
  then show ?case by simp
next
  case (Cons a ps)
  then obtain v where "a = Some v" by (cases a) auto
  moreover have "goes p M (2 * length ps + m) (tryAddVote env (Some v) c)"
    using Cons.prems(2) assms(1) by (intro tryAddVote_goes) simp_all
  ultimately show ?case using Cons.IH Cons.prems(1) by (auto intro: goes_and_then)
qed

text \<open>The votes of a round up to the current one are there.\<close>

lemma live_vset:
  assumes "live p M m c" and "0 \<le> r" and "r \<le> Round c" and "t = PrevoteType \<or> t = PrecommitType"
  obtains hvs vs where "Votes c = Some hvs" "hvs_lookup hvs r t = Some vs"
proof -
  obtain hvs where hvs: "Votes c = Some hvs" and wf: "hvs_wf hvs" and "Round c \<le> hvs_round hvs"
    using assms(1) by (auto simp: live_def ready_def hvs_live_def)
  with assms(2,3) have "hvs_has hvs r" by (simp add: hvs_wf_def hvs_tracks_def)
  then obtain vs where "hvs_lookup hvs r t = Some vs" using hvs_has_lookup [OF assms(4)] by auto
  with hvs show thesis by (rule that)
qed

lemma fetchMissingVotes_goes:
  assumes "live p M m c"
  shows "goes p M m (fetchMissingVotes env c)"
proof (cases "Step c \<noteq> RoundStepPrevoteFetch \<and> Step c \<noteq> RoundStepPrecommitFetch")
  case True
  with assms show ?thesis by (simp add: fetchMissingVotes_def)
next
  case False
  have R: "0 \<le> Round c" using assms by (simp add: live_def ready_def safe_def)
  let ?t = "if Step c = RoundStepPrevoteFetch then PrevoteType else PrecommitType"
  obtain hvs vs where vs: "Votes c = Some hvs" "hvs_lookup hvs (Round c) ?t = Some vs"
    by (rule live_vset [OF assms R order_refl, of ?t]) simp
  then have eq: "(if Step c = RoundStepPrevoteFetch then Prevotes (Round c) hvs else Precommits (Round c) hvs) = Some vs"
    by (simp add: Prevotes_lookup Precommits_lookup split: if_splits)
  obtain fvr where fvr: "MakeFetchVotesReq (map_order env (reads c)) (common_Now env c) (Some vs) = Inr fvr"
    by (simp add: MakeFetchVotesReq_def)
  let ?step = "if Step c = RoundStepPrevoteFetch then RoundStepPrevoteFetch else RoundStepPrecommitFetch"
  let ?c1 = "call_app (Send (MFetchVotesReq (SignReq (privVal env) fvr)) None) (next_read c)"
  let ?c2 = "(scheduleTimeout FetchInterval (Height ?c1) (Round ?c1) ?step ?c1)\<lparr>inFetch := True\<rparr>"
  have c': "fetchMissingVotes env c = Inr ?c2"
    unfolding fetchMissingVotes_def Let_def if_not_P [OF False] vs(1) deref_simps and_then_simps eq fvr ..
  have q: "quiet M c ?c2" by (rule quietI) (simp_all add: update_defs)
  from live_quiet [OF assms q fetchMissingVotes_sim [OF c']] c' show ?thesis by simp
qed

lemma fetch_response_total:
  assumes "live p M m c" and "0 \<le> q_Round q"
  obtains rsp where "fetch_response env q c = Inr rsp" "\<And>x. rsp = Some x \<Longrightarrow> None \<notin> set (r_MissingVotes x)"
proof (cases "q_Height q = Height c \<and> q_Round q \<le> Round c \<and> (q_Type q = PrevoteType \<or> q_Type q = PrecommitType)")
  case True
  obtain hvs vs where vs: "Votes c = Some hvs" "hvs_lookup hvs (q_Round q) (q_Type q) = Some vs"
    by (rule live_vset [OF assms, of "q_Type q"]) (use True in auto)
  then have "(if q_Type q = PrevoteType then Prevotes (q_Round q) hvs else Precommits (q_Round q) hvs) = Some vs"
    using True by (auto simp: Prevotes_lookup Precommits_lookup)
  with True vs(1) show thesis
    by (intro that) (auto simp: fetch_response_def MakeFetchVotesRsp_def)
next
  case False
  have hist: "None \<notin> set (c_Precommits k)" if "GetCommitHistory (app c) h = Some k" for h k
    using assms(1) that by (auto simp: live_def ready_def good_committee_def)
  show thesis
  proof (cases "q_Height q < Height c")
    case True
    with hist show thesis by (cases "GetCommitHistory (app c) (q_Height q)") (auto simp: fetch_response_def intro: that)
  next
    case no: False
    with False have "fetch_response env q c = Inr None" by (auto simp: fetch_response_def)
    then show thesis by (rule that) simp
  qed
qed

lemma handleFetch_goes:
  assumes "live p M m c" and "0 \<le> q_Round q"
  shows "goes p M m (handleFetch env q peer c)"
proof -
  obtain rsp where rsp: "fetch_response env q c = Inr rsp" "\<And>x. rsp = Some x \<Longrightarrow> None \<notin> set (r_MissingVotes x)"
    using fetch_response_total [OF assms, of env] by blast
  have sent: "live p M m (call_app call (next_read c))" for call
    by (rule live_frame [OF assms(1)]) (auto intro!: quietI simp: update_defs)
  show ?thesis
    using rsp assms(1) sent
    by (auto simp: handleFetch_def SignRsp_def validators_defs Rsp_Digest_def Rsp_SetSigner_def split: option.split)
qed

text \<open>The budget of one event: the votes of the longest message, two units each.\<close>

definition cost :: "nat \<Rightarrow> nat" where
  "cost M = 2 * (M + ValNum)"

lemma handleMsg_goes:
  assumes live: "live p M (m + cost M) c" and env: "env_live p env" and msg: "msg_ok M (mi_Msg mi)"
  shows "goes p M m (handleMsg env mi c)"
proof -
  have less: "live p M m c" using live by (rule live_mono) simp
  show ?thesis
  proof (cases "mi_Msg mi")
    case (MVote v)
    have "live p M (Suc (Suc m)) c" using live by (rule live_mono) (simp add: cost_def ValNum_def)
    from tryAddVote_goes [OF this env] less MVote show ?thesis by (simp add: handleMsg_def)
  next
    case (MCommit k)
    define c1 where "c1 = (if Commit_Height k = Height c then c\<lparr>hasRecvCommitRecords := True\<rparr> else c)"
    have frame: "live p M n c1" if "live p M n c" for n
      unfolding c1_def using that by (auto intro!: live_frame [OF that] quietI)
    have k: "None \<notin> set (c_Precommits k)" "length (c_Precommits k) \<le> M" using msg MCommit by (simp_all add: msg_ok_def)
    have "live p M (2 * length (c_Precommits k) + m) c" using live by (rule live_mono) (use k(2) in \<open>simp add: cost_def\<close>)
    from for_each_goes [OF env k(1) frame [OF this]] frame [OF less] less MCommit show ?thesis
      by (simp add: handleMsg_def handleCommit_def Let_def flip: c1_def)
  next
    case (MFetchVotesReq q)
    with msg less handleFetch_goes show ?thesis by (simp add: handleMsg_def msg_ok_def)
  next
    case (MFetchVotesRsp r)
    show ?thesis
    proof (cases "Rsp_ValidateBasic r = None")
      case True
      then have "length (r_MissingVotes r) \<le> ValNum" by (simp add: Rsp_ValidateBasic_def split: if_splits)
      then have "live p M (2 * length (r_MissingVotes r) + m) c"
        using live by (intro live_mono [OF live]) (simp add: cost_def)
      from for_each_goes [OF env _ this] msg less MFetchVotesRsp show ?thesis
        by (simp add: handleMsg_def handleFetchRsp_def msg_ok_def)
    next
      case False
      with less MFetchVotesRsp show ?thesis by (simp add: handleMsg_def handleFetchRsp_def)
    qed
  qed
qed

lemma handleTimeout_goes:
  assumes live: "live p M (Suc m) c" and "ti \<in> set (ticks c)"
  shows "goes p M m (handleTimeout env ti (GetRoundState c) c)"
proof (cases "ti_Height ti \<noteq> Height c \<or> ti_Round ti < Round c \<or> (ti_Round ti = Round c \<and> ti_Step ti < Step c)")
  case True
  with live_mono [OF live, of m] show ?thesis by (simp add: handleTimeout_def GetRoundState_def RoundState.defs)
next
  case False
  have safe: "safe c" using live by (simp add: live_def ready_def)
  have pos: "ti_Height ti = Height c" "ti_Round ti = Round c" "ti_Step ti = Step c"
    using tock_position [OF safe assms(2) False] by (simp_all add: ti_hrs_def c_pos_def)
  have step: "ti_Step ti \<in> timeout_steps" using safe assms(2) by (simp add: safe_def)
  have less: "live p M m c" using live by (rule live_mono) simp
  have R: "0 \<le> Round c" "Round c + 301 * int (Suc m) < 2 ^ 62" using live by (simp_all add: live_def ready_def safe_def)
  then have w: "wrap64 (Round c + 1) = Round c + 1" by (intro wrap64_idI) simp_all
  have "goes p M m (enterNewRound env (Height c) 0 c)" using less R by (intro enterNewRound_goes) simp_all
  moreover have "goes p M m (and_then (enterPrecommit env (Height c) (Round c) c)
      (\<lambda>c1. enterNewRound env (Height c) (Round c + 1) c1))"
    by (rule goes_and_then [OF enterPrecommit_goes [OF less order_refl]]) (use R in \<open>auto intro: enterNewRound_goes\<close>)
  ultimately show ?thesis
    using False step pos less w
    by (auto simp: handleTimeout_def GetRoundState_def RoundState.defs timeout_steps_def step_defs
        enterPrecommit_goes enterPrevote_live fetchMissingVotes_goes)
qed


section \<open>Runs\<close>

text \<open>What the environment keeps to at each event: no restart, only messages that \<open>msg_ok\<close> allows, and
  an application that changes its voting powers with a commit only.\<close>

definition event_ok :: "int \<Rightarrow> nat \<Rightarrow> core_event \<Rightarrow> Core \<Rightarrow> bool" where
  "event_ok p M e c =
     (case e of
        EvRecv m q \<Rightarrow> msg_ok M m
      | EvApp V \<Rightarrow> good_committee p V \<and> TotalVotingPower V = TotalVotingPower (app c) \<and>
                  GetVotingPower V = GetVotingPower (app c)
      | EvStart \<Rightarrow> False
      | _ \<Rightarrow> True)"

fun steady :: "Env \<Rightarrow> int \<Rightarrow> nat \<Rightarrow> core_event list \<Rightarrow> Core \<Rightarrow> bool" where
  "steady env p M [] c = True"
| "steady env p M (e # es) c =
     (event_ok p M e c \<and> (case core_step env e c of Inl _ \<Rightarrow> True | Inr c' \<Rightarrow> steady env p M es c'))"

lemma vs_counted_cong:
  assumes "TotalVotingPower V = TotalVotingPower W" and "GetVotingPower V = GetVotingPower W"
  shows "vs_counted V = vs_counted W"
  using assms by (simp add: fun_eq_iff vs_counted_def vs_sums_def tally_def quorum_of_def two_thirds_def
      GetTotalVotingPower_def)

lemma live_app:
  assumes "live p M m c" and "event_ok p M (EvApp V) c"
  shows "live p M m (c\<lparr>app := V\<rparr>)"
proof -
  have V: "good_committee p V" "vs_counted V = vs_counted (app c)"
    using assms(2) by (auto simp: event_ok_def intro!: vs_counted_cong)
  have "hvs_live V p n H R nh hvs = hvs_live (app c) p n H R nh hvs" for n H R nh hvs
    by (simp add: hvs_live_def V(2))
  with assms(1) V(1) show ?thesis
    by (simp add: live_def ready_def polkas_ok_def safe_def c_pos_def lock_sound_def queue_ok_def)
qed

lemma live_queue:
  assumes "live p M m c" and "set q \<subseteq> set (msgQueue c) \<union> {mi. msg_ok M (mi_Msg mi)}"
  shows "live p M m (c\<lparr>msgQueue := q\<rparr>)"
proof (rule live_frame [OF assms(1)])
  show "quiet M c (c\<lparr>msgQueue := q\<rparr>)"
    using assms(2) by (auto simp: quiet_def lock_sound_def queue_ok_def list_all_iff)
qed simp_all

lemma core_step_goes:
  assumes live: "live p M (m + cost M) c" and env: "env_live p env" and ev: "event_ok p M e c"
  shows "goes p M m (core_step env e c)"
proof -
  have less: "live p M m c" using live by (rule live_mono) simp
  show ?thesis
  proof (cases e)
    case (EvRecv msg q)
    have "live p M m (sendInternalMessage \<lparr>mi_Msg = msg, mi_Peer = q\<rparr> c)"
      using less ev EvRecv by (auto simp: sendInternalMessage_def event_ok_def intro!: live_queue)
    with less EvRecv show ?thesis by (simp add: RecvMsg_def split: option.split)
  next
    case EvMsg
    show ?thesis
    proof (cases "msgQueue c")
      case Nil
      with less EvMsg show ?thesis by (simp add: receiveRoutine_msg_def)
    next
      case (Cons mi rest)
      have "queue_ok M c" using live by (simp add: live_def ready_def)
      then have ok: "msg_ok M (mi_Msg mi)" using Cons by (simp add: queue_ok_def)
      have "live p M (m + cost M) (c\<lparr>msgQueue := rest\<rparr>)" using live by (rule live_queue) (auto simp: Cons)
      from handleMsg_goes [OF this env ok]
      obtain c1 where c1: "handleMsg env mi (c\<lparr>msgQueue := rest\<rparr>) = Inr c1" "live p M m c1"
        by (auto simp: goes_def)
      have "live p M m (c1\<lparr>msgCnt := n\<rparr>)" for n by (rule live_frame [OF c1(2)]) (auto intro: quietI)
      with less c1 EvMsg Cons show ?thesis by (simp add: receiveRoutine_msg_def)
    qed
  next
    case (EvTock ti)
    have "live p M (Suc m) c" using live by (rule live_mono) (simp add: cost_def ValNum_def)
    from handleTimeout_goes [OF this] less EvTock show ?thesis by (simp add: receiveRoutine_tock_def)
  next
    case (EvApp V)
    with live_app [OF less] ev show ?thesis by simp
  next
    case EvStart
    with ev show ?thesis by (simp add: event_ok_def)
  next
    case EvStop
    have "live p M m (c\<lparr>started := False\<rparr>)" by (rule live_frame [OF less]) (auto intro: quietI)
    with less EvStop show ?thesis by (simp add: Stop_def)
  qed
qed

lemma run_goes:
  assumes "env_live p env" and "live p M (m + length es * cost M) c" and "steady env p M es c"
  shows "goes p M m (run_steps (core_step env) es c)"
  using assms(2,3)
proof (induction es arbitrary: c)
  case Nil
  then show ?case by simp
next
  case (Cons e es)
  have "goes p M (m + length es * cost M) (core_step env e c)"
    using Cons.prems assms(1) by (intro core_step_goes) (simp_all add: add_ac)
  then obtain c1 where "core_step env e c = Inr c1" "live p M (m + length es * cost M) c1" by (auto simp: goes_def)
  with Cons show ?case by simp
qed

text \<open>A booted node has the whole budget.\<close>

lemma booted_live:
  assumes "booted env V c" and "good_committee p V" and "GetAppState V = Some st"
    and "LastHeight st + 1 + int m < 2 ^ 62" and "301 * int m < 2 ^ 62" and "int m * p < 2 ^ 63"
  shows "live p M m c"
proof -
  have start: "Start env (NewCore V) = Inr (None, c)" and st: "0 \<le> LastHeight st" "LastHeight st < max_int64"
    using assms(1,3) by (auto simp: booted_def)
  have new: "GetAppState (app (NewCore V)) = Some st" "Height (NewCore V) \<le> 0" "msgQueue (NewCore V) = []" "app (NewCore V) = V"
    using assms(3) by (simp_all add: NewCore_def)
  from start new(1) st obtain hvs where c: "Height c = LastHeight st + 1" "Round c = 0" "Step c = RoundStepNewHeight"
    "LockedRound c = -1" "NewHeightVoteSet (LastHeight st + 1) (LastProposedData st) = Inr hvs" "Votes c = Some hvs" "app c = app (NewCore V)"
    "msgQueue c = msgQueue (NewCore V)"
    by (rule Start_Inr) (simp_all add: new)
  have "safe c" using booted_spec(1) [OF assms(1)] .
  moreover have "total_ok V" using assms(2) by (simp add: good_committee_def)
  moreover have "0 < LastHeight st + 1" using st by simp
  note nh = new_height_live [OF c(5) this _ assms(6)]
  ultimately show ?thesis
    using assms c nh new by (auto simp: live_def ready_def polkas_ok_def lock_sound_def queue_ok_def)
qed

text \<open>C7. A node does not panic: after its start, a run of whatever messages, timeouts and changes of the
  application returns, as long as peers send no nil votes and no negative rounds, the powers
  change with a commit only, the application reaches the committed height, and the run is short
  enough for 64-bit heights, rounds and sums.\<close>

theorem node_never_panics:
  assumes "booted env V c0" and "env_live p env" and "good_committee p V" and "steady env p M es c0"
    and "n = length es * cost M" and "GetAppState V = Some st" and "LastHeight st + 1 + int n < 2 ^ 62"
    and "301 * int n < 2 ^ 62" and "int n * p < 2 ^ 63"
  shows "\<exists>c. run_steps (core_step env) es c0 = Inr c"
proof -
  have "live p M (0 + n) c0" using booted_live [OF assms(1,3,6-9)] by simp
  from run_goes [OF assms(2) this [unfolded assms(5)] assms(4)] show ?thesis by (auto simp: goes_def)
qed

lemma fx_live: "env_live 1 fx_env" "good_committee 1 fx_committee"
proof -
  show "env_live 1 fx_env"
    using fx_booted by (auto simp: env_live_def booted_def good_committee_def powers_within_def GetVotingPower_def
       total_ok_def)
  have "GetCommitHistory fx_committee h = None" for h by (simp add: fx_committee_def)
  then show "good_committee 1 fx_committee" using fx_powers_within fx_total_ok by (simp add: good_committee_def)
qed

theorem node_never_panics_witness:
  "\<exists>c. run_steps (core_step fx_env) fx_commit_events fx_start = Inr c"
proof (rule node_never_panics [OF fx_booted fx_live, where M = 0 and n = 546 and st = "fx_app 0"])
  show "steady fx_env 1 0 fx_commit_events fx_start"
    by (simp add: fx_commit_events_def fx_lock_events_def fx_run_eval event_ok_def msg_ok_def)
  show "GetAppState fx_committee = Some (fx_app 0)" by simp
qed (simp_all add: fx_commit_events_def fx_lock_events_def fx_in_def cost_def ValNum_def)

end
