(* ===== verification/Core_Catchup.thy ===== *)
theory Core_Catchup
  imports Core_Progress Core_Live
begin

text \<open>
  Catching up: a node that has missed the votes of its height commits as soon as it handles the commit of
  another node.
\<close>

section \<open>The base of the votes\<close>

text \<open>The votes of a height are collected on the data committed last.\<close>

definition based :: "Env \<Rightarrow> Core \<Rightarrow> bool" where
  "based env c \<longleftrightarrow>
     env_ok env \<and> (\<forall>h. Votes c = Some h \<longrightarrow> hvs_height h \<noteq> 0 \<and> hvs_base h = lastCommittedData c)"

lemma hvs_AddVote_base:
  assumes "hvs_AddVote V v h = Inr (a, e, h')" and "hvs_height h \<noteq> 0"
  shows "hvs_height h' = hvs_height h" and "hvs_base h' = hvs_base h"
  using assms by (cases rule: hvs_AddVote_Inr; simp add: hvs_with_simps)+

interpretation basing: core_rules env "based env" "\<lambda>_. True" "\<lambda>_. True" for env
proof unfold_locales
  fix c r h h' assume "based env c" "Votes c = Some h" "SetRound (wrap64 (r + 1)) h = Inr h'"
  then show "based env (c\<lparr>Votes := Some h'\<rparr>)"
    using SetRound_Inr(2) [of "wrap64 (r + 1)" h h'] by (simp add: based_def extends_to_def)
qed (simp_all add: based_def update_defs)

lemma NewHeightVoteSet_fields:
  assumes "NewHeightVoteSet height b = Inr h"
  shows "hvs_height h \<noteq> 0" and "hvs_base h = b"
proof -
  have h: "height \<noteq> 0" using NewHeightVoteSet_shape [OF assms] by (auto simp: hvs_shape_def)
  then obtain h1 where "NewHeightVoteSet height b = Inr h1" "hvs_height h1 = height" "hvs_base h1 = b"
    by (rule NewHeightVoteSet_spec) blast
  with assms h show "hvs_height h \<noteq> 0" "hvs_base h = b" by simp_all
qed

lemma scheduleRound0_kept:
  "Votes (scheduleRound0 env c) = Votes c" "lastCommittedData (scheduleRound0 env c) = lastCommittedData c"
  "Height (scheduleRound0 env c) = Height c" "outbox (scheduleRound0 env c) = outbox c"
  by (simp_all add: scheduleRound0_def update_defs Let_def)

lemma enterCommit_based:
  assumes "enterCommit env h r c = Inr c'" and "based env c"
  shows "based env c'"
proof -
  have env: "env_ok env" using assms(2) by (simp add: based_def)
  from assms(1) env show ?thesis
  proof (cases rule: enterCommit_Inr)
    case (commit hvs d k0 k st c3 c4 t out)
    from commit(12) obtain hvs' where new: "NewHeightVoteSet (wrap64 (LastHeight st + 1)) (LastProposedData st) = Inr hvs'"
      and c4: "Votes c4 = Some hvs'" "lastCommittedData c4 = LastProposedData st"
      by (rule updateToAppState_Inr) simp
    from NewHeightVoteSet_fields [OF new] env show ?thesis
      by (simp add: commit(13) based_def scheduleRound0_kept c4)
  qed (use assms(2) in simp)
qed

interpretation basing_step: core_step_rules env "based env" "\<lambda>_. True" "\<lambda>_. True" for env
proof unfold_locales
  fix c v h a e h'
  assume I: "based env c" "Votes c = Some h" "hvs_AddVote (app c) v h = Inr (a, e, h')"
  then have I': "based env (c\<lparr>Votes := Some h'\<rparr>)"
    using hvs_AddVote_base [OF I(3)] by (simp add: based_def)
  then show "based env (c\<lparr>Votes := Some h'\<rparr>)" .
  show "based env c'" if "added_precommit env (Height c) v h' (c\<lparr>Votes := Some h'\<rparr>) = Inr c'" for c'
    using that I' TrueI by (rule basing.added_precommit_keeps) (rule enterCommit_based)
qed (simp_all add: based_def)

interpretation basing_machine: machine "core_step env" "\<lambda>e. e \<noteq> EvStart" "based env" for env
  by unfold_locales (rule basing_step.core_step_keeps; simp)

lemma booted_based:
  assumes "booted env V c"
  shows "based env c"
proof -
  obtain st where st: "GetAppState V = Some st" "0 \<le> LastHeight st" "LastHeight st < max_int64" and env: "env_ok env"
    and start: "Start env (NewCore V) = Inr (None, c)" using assms by (auto simp: booted_def)
  have new: "GetAppState (app (NewCore V)) = Some st" "Height (NewCore V) \<le> 0" using st(1) by (simp_all add: NewCore_def)
  from start new(1) st(2,3) obtain hvs where c: "lastCommittedData c = LastProposedData st" "Votes c = Some hvs"
    "NewHeightVoteSet (LastHeight st + 1) (LastProposedData st) = Inr hvs"
    by (rule Start_Inr) (simp_all add: new)
  from NewHeightVoteSet_fields [OF c(3)] env c(1,2) show ?thesis by (simp add: based_def)
qed


section \<open>Heights that have been left\<close>

text \<open>\<open>left env H d c\<close>: the core has committed \<open>d\<close> at height \<open>H\<close> and has gone on.\<close>

definition left :: "Env \<Rightarrow> int \<Rightarrow> ProposedData \<Rightarrow> Core \<Rightarrow> bool" where
  "left env H d c \<longleftrightarrow>
     env_ok env \<and> 0 < H \<and> H < Height c \<and>
     (\<exists>k \<in> set (commits_in (outbox c)). Commit_Height k = H \<and> c_ProposedData k = d)"

lemma commits_in_app [simp]:
  "commits_in (xs @ ys) = commits_in xs @ commits_in ys" "commits_in [Send m p] = []" "commits_in [BroadCast m] = []"
  "commits_in [CommitCall k] = [k]"
  by (simp_all add: commits_in_def)

lemma enterCommit_leaves:
  assumes "enterCommit env h r c = Inr c'" and env: "env_ok env" and "0 \<le> r" and "0 < Height c" and "c' \<noteq> c"
  obtains hvs k where "Votes c = Some hvs" "h = Height c" "Height c < Height c'"
    "set (commits_in (outbox c')) = insert k (set (commits_in (outbox c)))"
    "\<exists>k0 n t. MakeCommit (map_order env n) (Precommits r hvs) = Inr k0 \<and> k = SignCommit (codec env) (privVal env) (k0\<lparr>c_CommitTime := t\<rparr>)"
  using assms(1) env
proof (cases rule: enterCommit_Inr)
  case (commit hvs d k0 k st c3 c4 t out)
  from commit(12) have c4: "\<not> (CommitRound c3 > -1 \<and> 0 < Height c3 \<and> Height c3 > LastHeight st)"
    "Height c4 = wrap64 (LastHeight st + 1)" "outbox c4 = outbox c3"
    by (rule updateToAppState_Inr; simp)+
  have "Height c \<le> LastHeight st" using c4(1) assms(3,4) by (simp add: commit(10))
  then have "Height c < wrap64 (LastHeight st + 1)" using commit(9) assms(4) by (simp add: wrap64_idI)
  then have "Height c < Height c'" by (simp add: commit(13) scheduleRound0_kept c4(2))
  moreover have "set (commits_in (outbox c')) = insert k (set (commits_in (outbox c)))"
    using commit(11) by (auto simp: commit(13) scheduleRound0_kept c4(3) commit(10))
  ultimately show thesis using commit(1,3,5,7) by (intro that) auto
qed (use assms(5) in simp)

interpretation leaving: core_rules env "left env H d" "\<lambda>_. True" "\<lambda>_. True" for env H d
  by unfold_locales (simp_all add: left_def update_defs)

lemma enterCommit_left:
  assumes "enterCommit env h r c = Inr c'" and "left env H d c" and "0 \<le> r"
  shows "left env H d c'"
proof (cases "c' = c")
  case False
  have "env_ok env" "0 < Height c" using assms(2) by (simp_all add: left_def)
  then obtain k where "Height c < Height c'" "set (commits_in (outbox c')) = insert k (set (commits_in (outbox c)))"
    using enterCommit_leaves [OF assms(1) _ assms(3) _ False] by metis
  with assms(2) show ?thesis by (auto simp: left_def)
qed (use assms(2) in simp)

interpretation leaving_step: core_step_rules env "left env H d" "\<lambda>_. True" "\<lambda>_. True" for env H d
proof unfold_locales
  fix c v h a e h' c'
  assume I: "left env H d c" and r: "0 \<le> v_Round v"
    and add: "added_precommit env (Height c) v h' (c\<lparr>Votes := Some h'\<rparr>) = Inr c'"
  have "left env H d (c\<lparr>Votes := Some h'\<rparr>)" using I by (simp add: left_def)
  from add this TrueI enterCommit_left [OF _ _ r] show "left env H d c'" by (rule leaving.added_precommit_keeps)
qed (simp_all add: left_def)


section \<open>One vote\<close>

text \<open>\<open>holding env H V r vs c\<close>: at height \<open>H\<close>, under the committee \<open>V\<close>, the precommits of round \<open>r\<close> are \<open>vs\<close>
  (the empty set of votes as long as the round has none).\<close>

definition holding :: "Env \<Rightarrow> int \<Rightarrow> ICommittee \<Rightarrow> int \<Rightarrow> VoteSet \<Rightarrow> Core \<Rightarrow> bool" where
  "holding env H V r vs c \<longleftrightarrow>
     env_ok env \<and> Height c = H \<and> app c = V \<and>
     (\<forall>h. Votes c = Some h \<longrightarrow> hvs_shape h \<and> hvs_height h = H \<and> target_set h r PrecommitType = vs)"

lemma target_set_track:
  assumes "SetRound n h = Inr h'" and "hvs_height h \<noteq> 0" and "t = PrevoteType \<or> t = PrecommitType"
  shows "target_set h' r t = target_set h r t"
proof -
  have ext: "extends_to (wrap64 (hvs_round h + 1)) n h h'" using assms(1,2) by (rule SetRound_Inr(2))
  then have "fresh_set h' r t = fresh_set h r t" by (simp add: fresh_set_def extends_to_def)
  moreover have "hvs_lookup h r t = None" if "\<not> hvs_has h r" using that hvs_has_lookup [OF assms(3)] by blast
  moreover have "hvs_lookup h' r t = hvs_lookup h r t \<or> \<not> hvs_has h r \<and> hvs_lookup h' r t = Some (fresh_set h r t)"
    using ext by (simp add: extends_to_def)
  ultimately show ?thesis by (auto simp: target_set_def split: option.split)
qed

interpretation held: core_rules env "holding env H V r vs" "\<lambda>_. True" "\<lambda>_. True" for env H V r vs
proof unfold_locales
  fix c n h h' assume I: "holding env H V r vs c" "Votes c = Some h" "SetRound (wrap64 (n + 1)) h = Inr h'"
  then have shape: "hvs_shape h" "hvs_height h = H" by (simp_all add: holding_def)
  then have H: "hvs_height h \<noteq> 0" by (simp add: hvs_shape_def)
  have "hvs_height h' = hvs_height h" using SetRound_Inr(2) [OF I(3) H] by (simp add: extends_to_def)
  with I shape hvs_store.track_inv [OF shape(1) I(3)] target_set_track [OF I(3) H] show "holding env H V r vs (c\<lparr>Votes := Some h'\<rparr>)"
    by (simp add: holding_def)
qed (simp_all add: holding_def update_defs)

text \<open>A quorum of the set makes the core commit what the set names.\<close>

lemma held_quorum:
  assumes add: "added_precommit env H v h c = Inr c'" and I: "holding env H V (v_Round v) vs c" and h: "Votes c = Some h"
    and "0 < H" and "0 \<le> v_Round v"
  shows "holding env H V (v_Round v) vs c' \<or> vs_maj23 vs \<noteq> NilData \<and> left env H (vs_maj23 vs) c'"
proof (cases "HasTwoThirdsMajority (Precommits (v_Round v) h)")
  case True
  with add obtain c1 c2 c3 where c1: "enterNewRound env H (v_Round v) c = Inr c1"
    and c2: "enterPrecommit env H (v_Round v) c1 = Inr c2" and c3: "enterCommit env H (v_Round v) c2 = Inr c3"
    and c': "c' = c3 \<or> enterNewRound env (Height c3) 0 c3 = Inr c'"
    by (auto simp: added_precommit_def elim!: and_then_InrE split: if_splits)
  have I2: "holding env H V (v_Round v) vs c2"
    by (rule held.enterPrecommit_keeps [OF c2 held.enterNewRound_keeps [OF c1 I]]) simp_all
  have "holding env H V (v_Round v) vs c3 \<or> left env H (vs_maj23 vs) c3"
  proof (cases "c3 = c2")
    case False
    have env: "env_ok env" and H: "0 < Height c2" using I2 assms(4) by (simp_all add: holding_def)
    from c3 env assms(5) H False obtain hvs k where k: "Votes c2 = Some hvs" "Height c2 < Height c3"
        "set (commits_in (outbox c3)) = insert k (set (commits_in (outbox c2)))"
        "\<exists>k0 n t. MakeCommit (map_order env n) (Precommits (v_Round v) hvs) = Inr k0 \<and>
          k = SignCommit (codec env) (privVal env) (k0\<lparr>c_CommitTime := t\<rparr>)"
      by (rule enterCommit_leaves) blast
    then obtain k0 n t where k0: "MakeCommit (map_order env n) (Precommits (v_Round v) hvs) = Inr k0"
      "k = SignCommit (codec env) (privVal env) (k0\<lparr>c_CommitTime := t\<rparr>)" by blast
    obtain vs1 where vs1: "Precommits (v_Round v) hvs = Some vs1"
      using k0(1) by (cases "Precommits (v_Round v) hvs") (auto simp: MakeCommit_def)
    have shape: "hvs_shape hvs" and set_eq: "vs1 = vs" and height: "hvs_height hvs = H"
      using I2 k(1) vs1 by (auto simp: holding_def target_set_def Precommits_lookup)
    note vs1D = hvs_shapeD [OF shape vs1 [unfolded Precommits_lookup]]
    have key: "is_range_order (map_order env n)" "PrivPubKey (privVal env) \<noteq> []" "\<And>d. PrivSign (privVal env) d \<noteq> []"
      using env by (simp_all add: env_ok_def)
    note made = MakeCommit_signed_valid [OF k0(1) [unfolded vs1] vs1D(1) key(1) vs1D(4) key(2,3) k0(2)]
    have "left env H (vs_maj23 vs) c3"
      unfolding left_def using env assms(4) k(2,3) I2 made(2,4) vs1D(2) height
      by (auto simp: holding_def set_eq)
    then show ?thesis ..
  qed (use I2 in simp)
  moreover have "vs_maj23 vs \<noteq> NilData"
    using True I h by (auto simp: holding_def Precommits_lookup target_set_def HasTwoThirdsMajority_def split: option.splits)
  ultimately show ?thesis using c' held.enterNewRound_keeps leaving.enterNewRound_keeps by blast
next
  case False
  then consider "c' = c" | c1 where "enterNewRound env H (v_Round v) c = Inr c1"
      "enterPrecommitWait env H (v_Round v) c1 = Inr c'"
    using add by (auto simp: added_precommit_def elim!: and_then_InrE split: if_splits)
  then show ?thesis
    using I held.enterNewRound_keeps held.enterPrecommitWait_keeps by cases blast+
qed

text \<open>A vote of a commit: a verified precommit for the data, on the base and in the round of the set.\<close>

definition counts :: "ICommittee \<Rightarrow> int \<Rightarrow> int \<Rightarrow> ProposedData \<Rightarrow> ProposedData \<Rightarrow> Vote \<Rightarrow> bool" where
  "counts V H r b d v \<longleftrightarrow>
     v_Type v = PrecommitType \<and> v_Height v = H \<and> v_Round v = r \<and> v_Prev v = b \<and> v_Proposed v = d \<and> VerifyVote V v"

lemma no_quorum_target:
  assumes "no_quorum {} h"
  shows "vs_maj23 (target_set h r PrecommitType) = NilData"
proof (cases "hvs_lookup h r PrecommitType")
  case None
  have "hvs_height h \<noteq> 0" using assms by (simp add: no_quorum_def hvs_shape_def)
  with None show ?thesis by (simp add: target_set_def)
next
  case (Some vs)
  have "\<not> HasTwoThirdsMajority (Precommits r h)" using assms by (simp add: no_quorum_def)
  with Some show ?thesis by (simp add: target_set_def Precommits_lookup HasTwoThirdsMajority_def)
qed

text \<open>Such a vote ends up in the set, unless it makes the core commit.\<close>

lemma tryAddVote_towards:
  assumes vote: "tryAddVote env (Some v) c = Inr c'" and I: "holding env H V r vs c" and rest: "rests env {} c"
    and v: "counts V H r (vs_base vs) d v"
    and room: "0 \<le> r" "r \<le> wrap64 (Round c + watermark)" "0 < H" "H < max_int64"
  shows "left env H d c' \<or> (\<exists>vs'. holding env H V r vs' c' \<and> vs_base vs' = vs_base vs \<and>
    voters vs' d = insert (v_Address v) (voters vs d))"
proof -
  have c: "Height c = H" "app c = V" using I by (simp_all add: holding_def)
  have not_last: "wrap64 (v_Height v + 1) \<noteq> Height c" using v room c by (simp add: counts_def wrap64_idI)
  from vote v not_last room(1,2) c obtain h a e h' where h: "Votes c = Some h"
    and add: "hvs_AddVote V v h = Inr (a, e, h')"
    and c': "\<not> a \<and> c' = c\<lparr>Votes := Some h'\<rparr> \<or> a \<and> added_precommit env H v h' (c\<lparr>Votes := Some h'\<rparr>) = Inr c'"
    by (auto simp: tryAddVote_def addVote_def counts_def Let_def elim!: and_then_InrE split: if_splits option.splits)
  have shape: "hvs_shape h" "hvs_height h = H" "target_set h r PrecommitType = vs" using I h by (simp_all add: holding_def)
  have H: "hvs_height h \<noteq> 0" using shape(2) room(3) by simp
  from add H v obtain vs' where vs': "vs_addVote V (Some v) vs = Inr (a, e, vs')"
    and h': "h' = hvs_put r PrecommitType vs' (hvs_with r h)"
    by (cases rule: hvs_AddVote_Inr) (auto simp: counts_def shape(3) IsVoteTypeValid_def)
  note res = vs_addVote_result [OF vs']
  have "vs_height vs = H \<and> vs_round vs = r \<and> vs_type vs = PrecommitType"
    using target_set_shape [OF shape(1), of r PrecommitType] shape(2,3) by simp
  then have acc: "accepts V vs v \<longleftrightarrow> getVote vs d (v_Address v) = None" using v by (auto simp: accepts_def counts_def)
  then have voters: "voters vs' d = insert (v_Address v) (voters vs d)" "vs_base vs' = vs_base vs"
    using res(1,2) v voters_vs_add [of V vs v d] by (auto simp: counts_def) (auto simp: voters_def)
  have "target_set h' r PrecommitType = vs'" unfolding h' by (simp add: target_set_def hvs_lookup_put_with [OF H])
  then have I1: "holding env H V r vs' (c\<lparr>Votes := Some h'\<rparr>)"
    using I hvs_store.add_inv [OF shape(1) add] hvs_AddVote_base(1) [OF add H] shape(2) by (simp add: holding_def)
  show ?thesis
  proof (cases a)
    case True
    with c' have "added_precommit env H v h' (c\<lparr>Votes := Some h'\<rparr>) = Inr c'" by simp
    then have "holding env H V r vs' c' \<or> vs_maj23 vs' \<noteq> NilData \<and> left env H (vs_maj23 vs') c'"
      using held_quorum [of env H v h' "c\<lparr>Votes := Some h'\<rparr>" c' V vs'] I1 v room by (simp add: counts_def)
    moreover have "vs_maj23 vs = NilData" using rest h no_quorum_target [of h r] shape(3) by (simp add: rests_def)
    then have "vs_maj23 vs' = d \<or> vs_maj23 vs' = NilData" using res(1) True v by (simp add: vs_add_maj23 Let_def counts_def)
    ultimately show ?thesis using voters by metis
  next
    case False
    with c' I1 voters show ?thesis by blast
  qed
qed


section \<open>All votes of a commit\<close>

text \<open>\<open>towards\<close>: the core has the precommits of \<open>S\<close> or has committed already.\<close>

definition towards :: "Env \<Rightarrow> int \<Rightarrow> ICommittee \<Rightarrow> int \<Rightarrow> ProposedData \<Rightarrow> ProposedData \<Rightarrow> PubKey set \<Rightarrow> Core \<Rightarrow> bool" where
  "towards env H V r b d S c \<longleftrightarrow>
     left env H d c \<or>
     (\<exists>vs. holding env H V r vs c \<and> vs_base vs = b \<and> S \<subseteq> voters vs d \<and> r \<le> Round c + 300)"

lemma tryAddVote_round:
  assumes "tryAddVote env (Some v) c = Inr c'" and "env_ok env" and "safe c" and "Height c' = Height c"
  shows "Round c \<le> Round c'"
proof -
  have "sim_any env c c'" using assms(1,2) by (rule tryAddVote_sim) simp_all
  then have "n_pos (node_of env c) \<le> n_pos (node_of env c')" using assms(3) node_moves_pos by (auto simp: sim_def)
  with assms(4) show ?thesis by (auto simp: n_pos_def node_of_def less_eq_HRS_def)
qed

lemma each_towards:
  assumes env: "env_live p env" and "0 \<le> r" and "0 < H" and "H < max_int64"
    and "None \<notin> set ps" and "\<And>v. Some v \<in> set ps \<Longrightarrow> counts V H r b d v"
    and "live p M (2 * length ps + m) c" and "rests env {} c" and "towards env H V r b d S c"
  shows "\<exists>c'. for_each (tryAddVote env) ps c = Inr c' \<and> live p M m c' \<and> rests env {} c' \<and>
    towards env H V r b d (S \<union> v_Address ` {v. Some v \<in> set ps}) c'"
  using assms(5-9)
proof (induction ps arbitrary: c S)
  case Nil
  then show ?case by auto
next
  case (Cons a ps)
  obtain v where a: "a = Some v" using Cons.prems(1) by (cases a) auto
  have v: "counts V H r b d v" using Cons.prems(2) a by simp
  have "goes p M (2 * length ps + m) (tryAddVote env (Some v) c)"
    using Cons.prems(3) env by (intro tryAddVote_goes) simp_all
  then obtain c1 where c1: "tryAddVote env (Some v) c = Inr c1" "live p M (2 * length ps + m) c1"
    by (auto simp: goes_def)
  have rest: "rests env {} c1" using c1(1) Cons.prems(4) by (rule resting_step.tryAddVote_keeps) simp
  have t1: "towards env H V r b d (insert (v_Address v) S) c1"
  proof (cases "left env H d c")
    case True
    with c1(1) have "left env H d c1" by (rule leaving_step.tryAddVote_keeps) simp
    then show ?thesis by (simp add: towards_def)
  next
    case False
    then obtain vs where vs: "holding env H V r vs c" "vs_base vs = b" "S \<subseteq> voters vs d" "r \<le> Round c + 300"
      using Cons.prems(5) by (auto simp: towards_def)
    have safe: "safe c" "Round c < 2 ^ 62" using Cons.prems(3) by (simp_all add: live_def ready_def)
    then have "wrap64 (Round c + watermark) = Round c + 300"
      by (intro wrap64_idI [THEN trans]) (auto simp: watermark_def safe_def)
    with tryAddVote_towards [OF c1(1) vs(1) Cons.prems(4) v [folded vs(2)]] assms(2-4) vs(4)
    consider "left env H d c1" | vs' where "holding env H V r vs' c1" "vs_base vs' = b"
      "voters vs' d = insert (v_Address v) (voters vs d)" using vs(2) by auto
    then show ?thesis
    proof cases
      case (2 vs')
      have "Height c1 = Height c" using 2(1) vs(1) by (simp add: holding_def)
      moreover have "env_ok env" using env by (simp add: env_live_def)
      ultimately have "Round c \<le> Round c1" using tryAddVote_round [OF c1(1)] safe(1) by simp
      with 2 vs(3,4) show ?thesis unfolding towards_def by (intro disjI2 exI [of _ vs']) auto
    qed (simp add: towards_def)
  qed
  have "None \<notin> set ps" "\<And>v. Some v \<in> set ps \<Longrightarrow> counts V H r b d v" using Cons.prems(1,2) by simp_all
  from Cons.IH [OF this c1(2) rest t1] obtain c' where c': "for_each (tryAddVote env) ps c1 = Inr c'" "live p M m c'"
    "rests env {} c'" "towards env H V r b d (insert (v_Address v) S \<union> v_Address ` {v. Some v \<in> set ps}) c'" by blast
  moreover have "insert (v_Address v) S \<union> v_Address ` {v. Some v \<in> set ps} = S \<union> v_Address ` {v. Some v \<in> set (a # ps)}"
    using a by auto
  ultimately show ?case using c1(1) a by auto
qed

text \<open>With a quorum in hand it has committed.\<close>

lemma towards_left:
  assumes "towards env H V r b d S c" and "live p M m c" and "rests env {} c" and "d \<noteq> NilData"
    and "2 * TotalVotingPower V < 3 * tally V S"
  shows "left env H d c"
proof (rule ccontr)
  assume "\<not> left env H d c"
  then obtain vs where vs: "holding env H V r vs c" "S \<subseteq> voters vs d" using assms(1) by (auto simp: towards_def)
  obtain h where h: "Votes c = Some h" and hl: "hvs_live (app c) p m (Height c) (Round c) (Step c = RoundStepNewHeight) h"
    and good: "good_committee p (app c)" using assms(2) by (auto simp: live_def ready_def)
  have V: "app c = V" "target_set h r PrecommitType = vs" using vs(1) h by (simp_all add: holding_def)
  have ok: "nonneg_powers V" "total_ok V" using good V(1) by (auto simp: good_committee_def powers_within_nonneg)
  have tally: "tally V S \<le> tally V (voters vs d)" using ok(1) vs(2) by (intro tally_mono) simp_all
  with assms(5) have quorum: "quorum_of V \<le> tally V (voters vs d)" using ok(2) by (simp add: quorum_le_iff)
  have nq: "no_quorum {} h" using assms(3) h by (simp add: rests_def)
  show False
  proof (cases "hvs_lookup h r PrecommitType")
    case None
    have "hvs_height h \<noteq> 0" using nq by (simp add: no_quorum_def hvs_shape_def)
    with None V(2) have "voters vs d = {}" by (auto simp: target_set_def voters_def getVote_def)
    with tally assms(5) ok(2) show False by (simp add: tally_def total_ok_def)
  next
    case (Some vs')
    then have "vs' = vs" using V(2) by (simp add: target_set_def)
    with Some hl V(1) have "vs_counted V vs" by (auto simp: hvs_live_def)
    with quorum assms(4) have "vs_maj23 vs \<noteq> NilData" by (auto simp: vs_counted_def)
    with no_quorum_target [OF nq, of r] V(2) show False by simp
  qed
qed


section \<open>Catching up\<close>

lemma commit_counts:
  assumes "Commit_ValidateBasic k = None" and "c_Prev k = b" and "\<And>v. Some v \<in> set (c_Precommits k) \<Longrightarrow> VerifyVote V v"
    and "Some v \<in> set (c_Precommits k)"
  shows "counts V (Commit_Height k) (Commit_Round k) b (c_ProposedData k) v"
  using assms unfolding commit_validation_iff by (auto simp: counts_def fits_commit_def list_all_iff)

lemma holding_start:
  assumes "live p M m c" and "env_ok env" and "based env c"
  obtains vs where "holding env (Height c) (app c) r vs c" "vs_base vs = lastCommittedData c"
proof -
  obtain h where h: "Votes c = Some h" "hvs_wf h" "hvs_height h = Height c"
    using assms(1) by (auto simp: live_def ready_def hvs_live_def)
  then have shape: "hvs_shape h" by (simp add: hvs_wf_def)
  have "hvs_base h = lastCommittedData c" using assms(3) h(1) by (simp add: based_def)
  with target_set_shape [OF shape, of r PrecommitType] have "vs_base (target_set h r PrecommitType) = lastCommittedData c" by simp
  with h shape assms(2) show thesis by (intro that) (auto simp: holding_def)
qed

lemma handleCommit_catches_up:
  assumes live: "live p M (m + cost M) c" and env: "env_live p env" and rest: "rests env {} c" and base: "based env c"
    and msg: "msg_ok M (MCommit k)" "Commit_ValidateBasic k = None" "Commit_Height k = Height c"
    and round: "0 \<le> Commit_Round k" "Commit_Round k \<le> Round c + 300" and prev: "c_Prev k = lastCommittedData c"
    and sigs: "\<And>v. Some v \<in> set (c_Precommits k) \<Longrightarrow> VerifyVote (app c) v"
    and power: "2 * TotalVotingPower (app c) < 3 * tally (app c) (v_Address ` {v. Some v \<in> set (c_Precommits k)})"
  shows "\<exists>c'. handleCommit env k c = Inr c' \<and> left env (Height c) (c_ProposedData k) c'"
proof -
  let ?c = "c\<lparr>hasRecvCommitRecords := True\<rparr>" and ?ps = "c_Precommits k"
  have ok: "env_ok env" using env by (simp add: env_live_def)
  have H: "0 < Height c" "Height c < max_int64" using live by (auto simp: live_def ready_def safe_def)
  have ps: "None \<notin> set ?ps" "length ?ps \<le> M" using msg(1) by (simp_all add: msg_ok_def)
  have "live p M (2 * length ?ps + m) c" using live by (rule live_mono) (use ps(2) in \<open>simp add: cost_def\<close>)
  then have live1: "live p M (2 * length ?ps + m) ?c" by (rule live_frame) (auto intro: quietI)
  have rest1: "rests env {} ?c" and base1: "based env ?c" using rest base by (simp_all add: rests_def based_def)
  obtain vs where vs: "holding env (Height ?c) (app ?c) (Commit_Round k) vs ?c" "vs_base vs = lastCommittedData ?c"
    by (rule holding_start [OF live1 ok base1])
  have "towards env (Height c) (app c) (Commit_Round k) (lastCommittedData c) (c_ProposedData k) {} ?c"
    using vs round(2) by (auto simp: towards_def)
  from each_towards [OF env round(1) H ps(1) commit_counts [OF msg(2) prev sigs, unfolded msg(3)] live1 rest1 this]
  obtain c' where c': "for_each (tryAddVote env) ?ps ?c = Inr c'" "live p M m c'" "rests env {} c'"
    "towards env (Height c) (app c) (Commit_Round k) (lastCommittedData c) (c_ProposedData k) (v_Address ` {v. Some v \<in> set ?ps}) c'"
    by auto
  have "c_ProposedData k \<noteq> NilData" using msg(2) by (simp add: Commit_ValidateBasic_iff)
  with c' power have "left env (Height c) (c_ProposedData k) c'" by (intro towards_left)
  with c'(1) msg(2,3) show ?thesis by (simp add: handleCommit_def)
qed

text \<open>C10. A commit lets a node catch up. When a running node handles a commit for its height that holds
  precommits with valid signatures by validators with more than two thirds of the power, on the data
  it has committed last and not more than 300 rounds ahead, it commits the data of the commit and
  goes on to a later height, whatever it had collected before and in whatever round and step it was.
  The conditions are those under which a node does not panic.\<close>

theorem commit_brings_up:
  assumes "booted env V c0" and "env_live p env" and "good_committee p V" and "steady env p M es c0"
    and "n = Suc (length es) * cost M" and "GetAppState V = Some st" and "LastHeight st + 1 + int n < 2 ^ 62"
    and "301 * int n < 2 ^ 62" and "int n * p < 2 ^ 63" and "runs env es c0 c"
    and "started c" and "msgQueue c = mi # rest" and "mi_Msg mi = MCommit k"
    and "Commit_ValidateBasic k = None" and "Commit_Height k = Height c" and "c_Prev k = lastCommittedData c"
    and "0 \<le> Commit_Round k" and "Commit_Round k \<le> Round c + watermark"
    and "\<And>v. Some v \<in> set (c_Precommits k) \<Longrightarrow> VerifyVote (app c) v"
    and "2 * TotalVotingPower (app c) < 3 * tally (app c) (v_Address ` {v. Some v \<in> set (c_Precommits k)})"
  shows "\<exists>c'. core_step env EvMsg c = Inr c' \<and> Height c < Height c' \<and>
    (\<exists>k' \<in> set (commits_in (outbox c')). Commit_Height k' = Height c \<and> c_ProposedData k' = c_ProposedData k)"
proof -
  have "live p M n c0" using booted_live [OF assms(1,3,6-9)] .
  moreover have "n = cost M + length es * cost M" using assms(5) by simp
  ultimately have "goes p M (cost M) (run_steps (core_step env) es c0)" using run_goes [OF assms(2) _ assms(4)] by metis
  then have live: "live p M (0 + cost M) c" using assms(10) by (simp add: runs_def)
  have no_start: "list_all (\<lambda>e. e \<noteq> EvStart) es" and run: "run_steps (core_step env) es c0 = Inr c"
    using assms(10) by (auto simp: runs_def list_all_iff)
  have inv: "rests env {} c" "based env c"
    using resting_machine.run_inv [OF no_start booted_rests [OF assms(1)] run]
      basing_machine.run_inv [OF no_start booted_based [OF assms(1)] run] by blast+
  let ?c = "c\<lparr>msgQueue := rest\<rparr>"
  have "live p M (0 + cost M) ?c" using live by (rule live_queue) (auto simp: assms(12))
  moreover have "rests env {} ?c" "based env ?c" using inv by (simp_all add: rests_def based_def)
  moreover have "msg_ok M (MCommit k)" using live assms(12,13) by (auto simp: live_def ready_def queue_ok_def)
  ultimately obtain c1 where c1: "handleCommit env k ?c = Inr c1" "left env (Height c) (c_ProposedData k) c1"
    using handleCommit_catches_up [of p M 0 ?c env k] assms(2,14-20) by (auto simp: watermark_def)
  then show ?thesis by (auto simp: assms(11-13) receiveRoutine_msg_def handleMsg_def left_def)
qed

text \<open>A node that has just started, at height 1, receives the commit of three others for it.\<close>

definition fx_commit :: Commit where
  "fx_commit =
     \<lparr>c_ProposedData = fx_data, c_Prev = 5, c_Precommits = map (\<lambda>k. Some (fx_vote PrecommitType 1 0 fx_data k)) [''b'', ''c'', ''d''],
      c_CommitTime = 0, c_Address = ''b'', c_Signature = [1]\<rparr>"

definition fx_behind :: Core where
  "fx_behind = fx_start\<lparr>msgQueue := [\<lparr>mi_Msg = MCommit fx_commit, mi_Peer = Some 1\<rparr>]\<rparr>"

lemma fx_commit_valid:
  "Commit_ValidateBasic fx_commit = None" "Commit_Height fx_commit = 1" "Commit_Round fx_commit = 0"
  "c_Prev fx_commit = 5"
  by (simp_all add: fx_commit_def Commit_ValidateBasic_def Commit_Height_def Commit_Round_def FirstPrecommit_def IsNil_def
      fx_data_def NilData_def)

lemma fx_behind_run: "run_steps (core_step fx_env) [EvRecv (MCommit fx_commit) (Some 1)] fx_start = Inr fx_behind"
  by (simp add: fx_behind_def start_eval round_eval fx_start_def NilData_def is_int64_def RecvMsg_def msg_ValidateBasic_def
      fx_commit_valid msgQueueSize_def)

lemma fx_behind_state:
  "started fx_behind" "msgQueue fx_behind = [\<lparr>mi_Msg = MCommit fx_commit, mi_Peer = Some 1\<rparr>]" "Height fx_behind = 1"
  "Round fx_behind = 0" "app fx_behind = fx_committee" "lastCommittedData fx_behind = 5"
  by (simp_all add: fx_behind_def start_eval round_eval fx_start_def NilData_def is_int64_def)

lemma commit_brings_up_witness:
  "\<exists>c'. core_step fx_env EvMsg fx_behind = Inr c' \<and> 1 < Height c'"
proof -
  have "\<exists>c'. core_step fx_env EvMsg fx_behind = Inr c' \<and> Height fx_behind < Height c' \<and>
      (\<exists>k' \<in> set (commits_in (outbox c')). Commit_Height k' = Height fx_behind \<and> c_ProposedData k' = c_ProposedData fx_commit)"
  proof (rule commit_brings_up [OF fx_booted fx_live, where M = 3 and es = "[EvRecv (MCommit fx_commit) (Some 1)]" and
        n = 96 and st = "fx_app 0" and mi = "\<lparr>mi_Msg = MCommit fx_commit, mi_Peer = Some 1\<rparr>" and rest = "[]"])
    show "steady fx_env 1 3 [EvRecv (MCommit fx_commit) (Some 1)] fx_start"
      by (simp add: event_ok_def msg_ok_def fx_commit_def split: sum.split)
    show "runs fx_env [EvRecv (MCommit fx_commit) (Some 1)] fx_start fx_behind"
      using fx_behind_run by (simp add: runs_def)
    have "{v. Some v \<in> set (c_Precommits fx_commit)} = fx_vote PrecommitType 1 0 fx_data ` {''b'', ''c'', ''d''}"
      by (auto simp: fx_commit_def)
    then have keys: "v_Address ` {v. Some v \<in> set (c_Precommits fx_commit)} = {''b'', ''c'', ''d''}" by simp
    show "2 * TotalVotingPower (app fx_behind) <
        3 * tally (app fx_behind) (v_Address ` {v. Some v \<in> set (c_Precommits fx_commit)})"
      by (simp add: keys tally_def fx_behind_state fx_power fx_total fx_keys_def)
    show "VerifyVote (app fx_behind) v" if "Some v \<in> set (c_Precommits fx_commit)" for v
      using that by (auto simp: fx_behind_state fx_verify fx_commit_def fx_keys_def)
  qed (simp_all add: fx_behind_state fx_commit_valid cost_def ValNum_def watermark_def)
  then show ?thesis by (auto simp: fx_behind_state)
qed

end
