(* ===== verification/Core_Types.thy ===== *)
theory Core_Types
  imports Core_Rules Core_Fixture
begin

text \<open>
  Type safety of the core: the model keeps Go's integers as integers of HOL and wraps them where the
  code computes; here every one the state holds is shown to stay in the range of its Go type, the
  step to be one a core can rest in, and every collection of votes to sit under its own height,
  round and type.
\<close>

section \<open>Well-typed states\<close>

definition typed_vote :: "Vote \<Rightarrow> bool" where
  "typed_vote v \<longleftrightarrow> is_int64 (v_Height v) \<and> is_int64 (v_Round v)"

definition typed_set :: "VoteSet \<Rightarrow> bool" where
  "typed_set vs \<longleftrightarrow>
     vs_wf vs \<and> is_int64 (vs_height vs) \<and> is_int64 (vs_round vs) \<and> is_int64 (vs_sum vs) \<and>
     (\<forall>d. is_int64 (pdv_sum (pdv_of vs d)))"

text \<open>The sets of a height; \<open>hvs_shape\<close> says that each is filed under its own round and type.\<close>

definition typed_sets :: "int \<Rightarrow> HeightVoteSet \<Rightarrow> bool" where
  "typed_sets height h \<longleftrightarrow>
     hvs_shape h \<and> hvs_height h = height \<and> is_int64 (hvs_round h) \<and>
     (\<forall>r t vs. hvs_lookup h r t = Some vs \<longrightarrow> typed_set vs)"

definition typed_timeout :: "timeoutInfo \<Rightarrow> bool" where
  "typed_timeout ti \<longleftrightarrow> is_int64 (ti_Duration ti) \<and> is_int64 (ti_Height ti) \<and> is_int64 (ti_Round ti)"

definition typed_core :: "Core \<Rightarrow> bool" where
  "typed_core c \<longleftrightarrow>
     is_int64 (Height c) \<and> is_int64 (Round c) \<and> 0 < Step c \<and> Step c < RoundStepCommit \<and>
     is_int64 (LockedRound c) \<and> is_int64 (CommitRound c) \<and> is_int64 (msgCnt c) \<and>
     (\<forall>v. Proposal c = Some v \<or> LockedProposal c = Some v \<longrightarrow> typed_vote v) \<and>
     (\<exists>h. Votes c = Some h \<and> typed_sets (Height c) h) \<and> (\<forall>vs. LastCommit c = Some vs \<longrightarrow> typed_set vs) \<and>
     (\<forall>ti \<in> set (ticks c). typed_timeout ti) \<and> (\<forall>v \<in> set (votes_in (outbox c)) \<union> queued c. typed_vote v)"

definition typed_event :: "core_event \<Rightarrow> bool" where
  "typed_event e \<longleftrightarrow> (\<forall>mi \<in> received e. \<forall>v \<in> msg_votes (mi_Msg mi). typed_vote v)"

lemma typed_coreD:
  assumes "typed_core c"
  shows "is_int64 (Height c)" "is_int64 (Round c)" "0 < Step c" "Step c < RoundStepCommit" "is_int64 (LockedRound c)"
    "is_int64 (CommitRound c)" "is_int64 (msgCnt c)" "Proposal c = Some v \<Longrightarrow> typed_vote v"
    "LockedProposal c = Some v \<Longrightarrow> typed_vote v" "Votes c = Some h \<Longrightarrow> typed_sets (Height c) h"
    "LastCommit c = Some vs \<Longrightarrow> typed_set vs" "ti \<in> set (ticks c) \<Longrightarrow> typed_timeout ti"
    "v \<in> set (votes_in (outbox c)) \<Longrightarrow> typed_vote v" "v \<in> queued c \<Longrightarrow> typed_vote v"
  using assms by (auto simp: typed_core_def)


section \<open>Collections of votes\<close>

lemma typed_set_add:
  assumes "typed_set vs" and "vs_addVote V (Some v) vs = Inr (a, e, vs')"
  shows "typed_set vs'"
proof (cases a)
  case True
  then have vs': "vs' = vs_add V v vs" and acc: "accepts V vs v" using vs_addVote_result [OF assms(2)] by simp_all
  have "is_int64 (pdv_sum (pdv_addVote v p b))" if "is_int64 (pdv_sum b)" for p b
    using that by (auto simp: pdv_addVote_def split: option.split)
  then show ?thesis
    using assms(1) vs_wf_add [OF _ acc] by (simp add: typed_set_def vs' vs_add_sum pdv_of_vs_add)
next
  case False
  with assms show ?thesis using vs_addVote_result(1) [OF assms(2)] by simp
qed

lemma typed_set_fresh:
  assumes "hvs_height h \<noteq> 0" and "is_int64 (hvs_height h)" and "is_int64 r"
  shows "typed_set (fresh_set h r t)"
  using assms vs_wf_new [OF NewVoteSet_fresh [OF assms(1)]]
  by (simp add: typed_set_def pdv_of_def newProposedDataVotes_def)

lemma typed_sets_new:
  assumes "NewHeightVoteSet height b = Inr h" and "is_int64 height"
  shows "typed_sets height h"
proof -
  note shape = NewHeightVoteSet_shape [OF assms(1)]
  then have "height \<noteq> 0" by (auto simp: hvs_shape_def)
  then obtain h1 where h1: "NewHeightVoteSet height b = Inr h1" "hvs_height h1 = height" "hvs_round h1 = 0"
    and has: "\<And>r. hvs_has h1 r \<longleftrightarrow> r = 0" and fresh: "\<And>r t vs. hvs_lookup h1 r t = Some vs \<Longrightarrow> vs = fresh_set h1 r t"
    by (rule NewHeightVoteSet_spec) blast
  have "typed_set vs" if l: "hvs_lookup h1 r t = Some vs" for r t vs
  proof -
    have "r = 0" using l has [of r] by (auto simp: hvs_lookup_eq hvs_has_def split: option.splits)
    then show ?thesis
      using fresh [OF l] typed_set_fresh [of h1 0 t] h1(2) assms(2) \<open>height \<noteq> 0\<close> by (simp add: is_int64_def)
  qed
  moreover have "h1 = h" using h1(1) assms(1) by simp
  ultimately show ?thesis using shape h1(3) unfolding typed_sets_def by (simp add: is_int64_def)
qed

lemma typed_sets_track:
  assumes "typed_sets height h" and "SetRound n h = Inr h'" and "is_int64 height" and "is_int64 n"
  shows "typed_sets height h'"
proof -
  have shape: "hvs_shape h" "hvs_height h = height" "hvs_height h \<noteq> 0"
    using assms(1) by (auto simp: typed_sets_def hvs_shape_def)
  note track = SetRound_Inr [OF assms(2) shape(3)]
  have "typed_set vs" if l: "hvs_lookup h' r t = Some vs" for r t vs
  proof (cases "hvs_lookup h r t = Some vs")
    case True
    with assms(1) show ?thesis by (auto simp: typed_sets_def)
  next
    case False
    then have "vs = fresh_set h r t" "wrap64 (hvs_round h + 1) \<le> r" "r \<le> n"
      using l track(2) by (auto simp: extends_to_def split: if_splits)
    moreover have "is_int64 r"
      using calculation(2,3) is_int64_wrap64 [of "hvs_round h + 1"] assms(4) unfolding is_int64_def by linarith
    ultimately show ?thesis using typed_set_fresh [of h r t] shape assms(3) by simp
  qed
  then show ?thesis
    using hvs_store.track_inv [OF shape(1) assms(2)] SetRound_height [OF assms(2) shape(1)] shape(2) track(1) assms(4)
    by (auto simp: typed_sets_def)
qed

lemma typed_sets_add:
  assumes "typed_sets height h" and add: "hvs_AddVote V v h = Inr (a, e, h')" and "is_int64 height" and "is_int64 (v_Round v)"
  shows "typed_sets height h'"
proof -
  have shape: "hvs_shape h" "hvs_height h = height" and h: "hvs_height h \<noteq> 0"
    using assms(1) by (auto simp: typed_sets_def hvs_shape_def)
  have old: "typed_set vs" if "hvs_lookup h r t = Some vs" for r t vs
    using assms(1) that by (auto simp: typed_sets_def)
  from add h have "is_int64 (hvs_round h') \<and> (\<forall>r t vs. hvs_lookup h' r t = Some vs \<longrightarrow> typed_set vs)"
  proof (cases rule: hvs_AddVote_Inr)
    case invalid
    with assms(1) show ?thesis by (auto simp: typed_sets_def)
  next
    case (valid vs')
    have fresh: "typed_set (fresh_set h (v_Round v) t)" for t
      using typed_set_fresh [OF h] shape(2) assms(3,4) by simp
    have all_with: "typed_set vs" if "hvs_lookup (hvs_with (v_Round v) h) r t = Some vs" for r t vs
      using that fresh old by (auto simp: hvs_lookup_with [OF h] split: if_splits)
    have "typed_set vs'"
      using all_with [OF target_set_with [OF h valid(1)]] valid(2) by (rule typed_set_add)
    moreover have "hvs_round h' = hvs_round h"
      by (simp add: valid(3) hvs_put_def hvs_with_simps [OF h] split: option.split)
    ultimately show ?thesis
      using all_with assms(1) by (auto simp: typed_sets_def valid(3) hvs_lookup_put_with [OF h valid(1)] split: if_splits)
  qed
  then show ?thesis
    using hvs_store.add_inv [OF shape(1) add] hvs_AddVote_height [OF add shape(1)] shape(2) by (auto simp: typed_sets_def)
qed


section \<open>Handlers and steps\<close>

lemma queued_vote: "v \<in> queued (signAddVote env w c) \<Longrightarrow> v \<in> queued c \<or> v = SignVote (privVal env) w"
  by (auto simp: signAddVote_def sendInternalMessage_def call_app_def queued_def msg_votes_def Let_def split: if_splits)

lemma typed_SignVote [simp]: "typed_vote (SignVote pv v) = typed_vote v"
  by (simp add: typed_vote_def)

text \<open>Changes that touch none of the parts that are typed.\<close>

lemma typed_frame:
  assumes "typed_core c" and "Height c' = Height c" "Round c' = Round c" "Step c' = Step c" "LockedRound c' = LockedRound c"
    "CommitRound c' = CommitRound c" "msgCnt c' = msgCnt c" "Proposal c' = Proposal c" "LockedProposal c' = LockedProposal c"
    "Votes c' = Votes c" "LastCommit c' = LastCommit c" "ticks c' = ticks c" "votes_in (outbox c') = votes_in (outbox c)"
    "msgQueue c' = msgQueue c"
  shows "typed_core c'"
  using assms by (simp add: typed_core_def queued_def)

abbreviation typed_in :: "Env \<Rightarrow> Core \<Rightarrow> bool" where
  "typed_in env c \<equiv> env_ok env \<and> typed_core c"

lemma typed_signAddVote:
  assumes "typed_core c" and "typed_vote v"
  shows "typed_core (signAddVote env v c)"
proof -
  have "typed_vote w" if "w \<in> queued (signAddVote env v c)" for w
    using queued_vote [OF that] assms typed_coreD(14) [OF assms(1)] by auto
  moreover have "msgCnt (signAddVote env v c) = msgCnt c"
    by (simp add: signAddVote_def sendInternalMessage_def call_app_def Let_def)
  ultimately show ?thesis
    using assms by (auto simp: typed_core_def voted_def split: if_splits)
qed

interpretation typing: core_rules env "typed_in env" is_int64 typed_vote for env
proof unfold_locales
  fix c and v :: Vote assume "typed_in env c" "v_Height v = Height c" "is_int64 (v_Round v)"
  then show "typed_in env (signAddVote env v c)" and "typed_in env (c\<lparr>Proposal := Some v\<rparr>)"
    using typed_coreD(1) [of c] typed_signAddVote [of c v]
    by (auto simp: typed_vote_def) (auto simp: typed_core_def typed_vote_def queued_def)
next
  fix c r h h'
  assume c: "typed_in env c" and r: "is_int64 r" "Votes c = Some h" "SetRound (wrap64 (r + 1)) h = Inr h'"
  then have "typed_sets (Height c) h'" using typed_coreD(1,10) [of c] typed_sets_track by blast
  with c show "typed_in env (c\<lparr>Votes := Some h'\<rparr>)" by (auto simp: typed_core_def queued_def)
next
  fix c v a e vs
  assume c: "typed_in env c" and "AddVote (app c) (Some v) (LastCommit c) = Inr (a, e, vs)"
  then have "typed_set vs" using typed_set_add typed_coreD(11) [of c] by (auto simp: AddVote_def split: option.splits)
  with c show "typed_in env (c\<lparr>LastCommit := Some vs\<rparr>)" by (auto simp: typed_core_def queued_def)
next
  fix c r assume "typed_in env c" "is_int64 r"
  then show "typed_in env (c\<lparr>LockedRound := r\<rparr>)" "typed_in env (c\<lparr>LockedRound := r, LockedProposal := Proposal c\<rparr>)"
    by (auto simp: typed_core_def queued_def)
next
  fix c assume "typed_in env c"
  then show "typed_in env (c\<lparr>LockedRound := -1, LockedProposal := None\<rparr>)" "typed_in env (c\<lparr>Proposal := None\<rparr>)"
    by (auto simp: typed_core_def queued_def)
next
  fix c r and st :: RoundStepType
  assume "typed_in env c" "is_int64 r" "0 < st" "st < RoundStepCommit"
  then show "typed_in env (updateRoundStep r st c)" by (auto simp: typed_core_def queued_def updateRoundStep_def)
next
  fix c r d and st :: RoundStepType
  assume "typed_in env c" "is_int64 r" "is_int64 d"
  then show "typed_in env (scheduleTimeout d (Height c) r st c)"
    by (auto simp: typed_core_def queued_def scheduleTimeout_def typed_timeout_def)
next
  fix c m p assume "typed_in env c"
  then show "typed_in env (call_app (Send m p) c)" by (auto simp: call_app_def intro: typed_frame)
next
  fix c assume "typed_in env c"
  then show "is_int64 (Round c)" by (simp add: typed_coreD)
qed (auto simp: intro: typed_frame)

lemma scheduleRound0_timeout:
  "\<exists>dur. is_int64 dur \<and> ticks (scheduleRound0 env c) =
     ticks c @ [\<lparr>ti_Duration = dur, ti_Height = Height c, ti_Round = 0, ti_Step = RoundStepNewHeight\<rparr>]"
proof -
  let ?dur = "time_Sub (StartTime c) (common_Now env c)"
  have "is_int64 (if ?dur < 0 then 0 else ?dur)" by simp
  moreover have "ticks (scheduleRound0 env c) = ticks c @ [\<lparr>ti_Duration = (if ?dur < 0 then 0 else ?dur),
      ti_Height = Height c, ti_Round = 0, ti_Step = RoundStepNewHeight\<rparr>]"
    by (simp add: scheduleRound0_def update_defs Let_def)
  ultimately show ?thesis by blast
qed

lemma last_precommits_typed:
  assumes "last_precommits c = Inr lp" and "\<And>h. Votes c = Some h \<Longrightarrow> typed_sets x h" and "lp = Some vs"
  shows "typed_set vs"
  using assms by (auto simp: last_precommits_def typed_sets_def Precommits_lookup split: option.splits if_splits)

lemma enterCommit_typed:
  assumes "enterCommit env h r c = Inr c'" and "typed_in env c"
  shows "typed_in env c'"
proof -
  have env: "env_ok env" and c: "typed_core c" using assms(2) by simp_all
  from assms(1) env show ?thesis
  proof (cases rule: enterCommit_Inr)
    case (commit hvs d k0 k st c3 c4 t out)
    from commit(12) obtain hvs' lp rd t' where lp: "last_precommits c3 = Inr lp"
      and new: "NewHeightVoteSet (wrap64 (LastHeight st + 1)) (LastProposedData st) = Inr hvs'"
      and c4: "c4 = c3\<lparr>Height := wrap64 (LastHeight st + 1), Round := 0, Step := RoundStepNewHeight, inFetch := False,
        reads := rd, StartTime := t', Proposal := None, LockedRound := -1, LockedProposal := None,
        CommitRound := -1, LastCommit := lp, lastCommittedData := LastProposedData st, Votes := Some hvs'\<rparr>"
      by (rule updateToAppState_Inr)
    have last: "typed_set vs" if "lp = Some vs" for vs
      using lp _ that by (rule last_precommits_typed) (use typed_coreD(10) [OF c] in \<open>simp add: commit(10)\<close>)
    obtain dur where "is_int64 dur" and "ticks c' = ticks c4 @ [\<lparr>ti_Duration = dur, ti_Height = Height c4, ti_Round = 0,
        ti_Step = RoundStepNewHeight\<rparr>]"
      using scheduleRound0_timeout [of env "c4\<lparr>hasRecvCommitRecords := False\<rparr>"] unfolding commit(13) by auto
    moreover have "ticks c4 = ticks c" by (simp add: c4 commit(10))
    ultimately have timeouts: "\<forall>ti \<in> set (ticks c'). typed_timeout ti"
      using typed_coreD(12) [OF c] by (auto simp: typed_timeout_def c4)
    have out: "votes_in (outbox c') = votes_in (outbox c)" "msgQueue c' = msgQueue c" "msgCnt c' = msgCnt c"
      using commit(11) by (auto simp: commit(13,10) c4 scheduleRound0_def update_defs Let_def)
    have "typed_core c'"
      using c out last typed_sets_new [OF new] timeouts
      by (simp add: typed_core_def queued_def)
         (simp add: commit(13) c4 scheduleRound0_def update_defs Let_def step_defs)
    with env show ?thesis by simp
  qed (use assms(2) in simp)
qed

interpretation typing_step: core_step_rules env "typed_in env" is_int64 typed_vote for env
proof unfold_locales
  fix c v h a e h'
  assume c: "typed_in env c" and v: "typed_vote v" and h: "Votes c = Some h" "hvs_AddVote (app c) v h = Inr (a, e, h')"
  then have "typed_sets (Height c) h'"
    using typed_coreD(1,10) [of c] typed_sets_add unfolding typed_vote_def by blast
  with c have I: "typed_in env (c\<lparr>Votes := Some h'\<rparr>)" by (auto simp: typed_core_def queued_def)
  then show "typed_in env (c\<lparr>Votes := Some h'\<rparr>)" .
  show "typed_in env c'" if "added_precommit env (Height c) v h' (c\<lparr>Votes := Some h'\<rparr>) = Inr c'" for c'
    using that I by (rule typing.added_precommit_keeps) (use v enterCommit_typed in \<open>auto simp: typed_vote_def\<close>)
next
  fix c mi v assume "typed_in env c" "mi \<in> set (msgQueue c)" "v \<in> msg_votes (mi_Msg mi)"
  then show "typed_vote v" using typed_coreD(14) [of c v] by (auto simp: queued_def)
qed (auto simp: typed_core_def queued_def typed_vote_def typed_timeout_def)


section \<open>Running nodes\<close>

interpretation typing_machine: machine "core_step env" "\<lambda>e. e \<noteq> EvStart \<and> typed_event e" "typed_in env" for env
  by unfold_locales (rule typing_step.core_step_keeps; auto simp: typed_event_def)

lemma booted_typed:
  assumes "booted env V c"
  shows "typed_in env c"
proof -
  obtain st where st: "GetAppState V = Some st" "0 \<le> LastHeight st" "LastHeight st < max_int64" and env: "env_ok env"
    and start: "Start env (NewCore V) = Inr (None, c)" using assms by (auto simp: booted_def)
  have new: "GetAppState (app (NewCore V)) = Some st" "Height (NewCore V) \<le> 0" "msgCnt (NewCore V) = 0"
    "outbox (NewCore V) = []" "msgQueue (NewCore V) = []"
    using st(1) by (simp_all add: NewCore_def)
  from start new(1) st(2,3) obtain hvs dur where c: "Height c = LastHeight st + 1" "Round c = 0" "Step c = RoundStepNewHeight"
    "LockedRound c = -1" "LockedProposal c = None" "Proposal c = None" "CommitRound c = -1" "LastCommit c = None"
    "NewHeightVoteSet (LastHeight st + 1) (LastProposedData st) = Inr hvs" "Votes c = Some hvs"
    "outbox c = []" "msgQueue c = []" "is_int64 dur" "msgCnt c = 0"
    "ticks c = [\<lparr>ti_Duration = dur, ti_Height = Height c, ti_Round = 0, ti_Step = RoundStepNewHeight\<rparr>]"
    by (rule Start_Inr) (simp_all add: new)
  have h: "is_int64 (LastHeight st + 1)" using st by (simp add: is_int64_def)
  with c env typed_sets_new [OF c(9) h] show ?thesis
    by (simp add: typed_core_def queued_def typed_timeout_def) (simp add: step_defs is_int64_def)
qed

text \<open>C20. Type safety: if the votes that arrive have heights and rounds in the range of \<^verbatim>\<open>int64\<close>, then so
  has, in every state a node reaches, every integer of its state: heights, rounds, locked and
  committed round, counters, waiting times, and the sums of powers of every set of votes. The
  step is one a core can rest in, the votes it has sent and queued are well-typed, and each set of
  votes is well-formed and filed under its own height, round and type.\<close>

theorem state_stays_typed:
  assumes "booted env V c0" and "runs env es c0 c" and "list_all typed_event es"
  shows "typed_core c"
  using typing_machine.run_inv [of es env c0 c] booted_typed [OF assms(1)] assms(2,3)
  by (auto simp: runs_def list_all_iff)

lemma state_stays_typed_witness: "typed_core fx_committed \<and> Height fx_committed = 2"
proof -
  have "list_all typed_event fx_commit_events"
    by (simp add: fx_commit_events_def fx_lock_events_def fx_in_def typed_event_def msg_votes_def typed_vote_def is_int64_def)
  then show ?thesis using state_stays_typed [OF fx_booted fx_commit_run] fx_committed_height by simp
qed

end
