(* ===== verification/Core_Safety.thy ===== *)
theory Core_Safety
  imports Core_Fixture
begin

text \<open>
  The safety properties of one node: whatever messages, timeouts and changes of the application
  it meets, it follows the abstract protocol. Each comes with an example run.
\<close>

section \<open>Properties\<close>

text \<open>C6. The core refines the abstract protocol: after any run of messages, timeouts and changes
  of the application, the node its state represents is reached from the initial one by moves of
  the protocol.\<close>

theorem core_refines_protocol:
  assumes "booted env V c0" and "runs env es c0 c"
  shows "any_moves (node_of env c0) (node_of env c)"
  using booted_spec(1) [OF assms(1)] runs_sim [of env es c0 c] assms by (simp add: runs_def booted_def)

theorem core_refines_protocol_witness:
  "any_moves (node_of fx_env fx_start) (node_of fx_env fx_unlocked)"
  using fx_booted fx_unlock_run by (rule core_refines_protocol)

text \<open>C3. A node never equivocates: over a run without a restart, two votes it broadcast for the same
  height, round and type are the same vote.\<close>

theorem no_equivocation:
  assumes "booted env V c0" and "runs env es c0 c"
    and "v \<in> set (votes_in (outbox c))" and "w \<in> set (votes_in (outbox c))"
    and "v_Height v = v_Height w" and "v_Round v = v_Round w" and "v_Type v = v_Type w"
  shows "v = w"
proof -
  have "ordered_sent (node_of env c)"
    using booted_runs_inv [OF assms(1,2)] by (simp add: core_inv_def node_inv_def)
  then show ?thesis
    using assms(3-7) by (intro sorted_positions_unique) (simp_all add: ordered_sent_def node_of_def vote_pos_def)
qed

theorem no_equivocation_witness:
  "\<exists>v. v \<in> set (votes_in (outbox fx_unlocked)) \<and> v_Type v = PrevoteType \<and> v_Round v = 1 \<and>
     v = fx_own PrevoteType 1 9"
proof -
  let ?v = "fx_own PrevoteType 1 9"
  have "?v = ?v"
    by (rule no_equivocation [OF fx_booted fx_unlock_run]) (simp_all add: fx_unlocked_sent)
  then show ?thesis by (intro exI [of _ ?v]) (simp add: fx_unlocked_sent fx_own_def)
qed

text \<open>C5. A non-nil precommit the node broadcast at its current height rests on a polka: it has seen
  +2/3 prevotes for the same data in the same round. And it is kept: the node is still locked on
  that data, or it has seen a polka for other data in a later round.\<close>

theorem precommit_rests_on_polka:
  assumes "booted env V c0" and "runs env es c0 c" and "v \<in> set (votes_in (outbox c))"
    and "v_Height v = Height c" and "v_Type v = PrecommitType" and "v_Proposed v \<noteq> NilData"
  shows "\<exists>hvs. Votes c = Some hvs \<and> TwoThirdsMajority (Prevotes (v_Round v) hvs) = (v_Proposed v, True) \<and>
    ((\<exists>lp. LockedProposal c = Some lp \<and> v_Proposed lp = v_Proposed v \<and> v_Round v \<le> LockedRound c) \<or>
     (\<exists>r d. v_Round v < r \<and> d \<noteq> v_Proposed v \<and> TwoThirdsMajority (Prevotes r hvs) = (d, True)))"
proof -
  have "precommits_ok (node_of env c)"
    using booted_runs_inv [OF assms(1,2)] by (simp add: core_inv_def node_inv_def)
  then have "polka (node_of env c) (v_Round v) (v_Proposed v)" "kept (node_of env c) (v_Round v) (v_Proposed v)"
    using assms(3-6) by (simp_all add: precommits_ok_def node_of_def)
  then show ?thesis
    by (auto simp: polka_def kept_def overridden_def node_of_def lock_of_def split: option.splits if_splits)
qed

theorem precommit_rests_on_polka_witness:
  "\<exists>hvs. Votes fx_locked = Some hvs \<and> TwoThirdsMajority (Prevotes 0 hvs) = (fx_data, True)"
  using precommit_rests_on_polka [OF fx_booted fx_lock_run, of "fx_own PrecommitType 0 fx_data"]
  by (auto simp: fx_locked_sent fx_own_def fx_data_def NilData_def)

text \<open>C4. Locks are respected: a node that broadcast a non-nil precommit prevotes other data in a later
  round of the same height only after it has seen a polka for other data in a round later than
  the precommit's.\<close>

theorem prevote_respects_lock:
  assumes "booted env V c0" and "runs env es c0 c"
    and "pc \<in> set (votes_in (outbox c))" and "pv \<in> set (votes_in (outbox c))"
    and "v_Height pc = Height c" and "v_Height pv = Height c"
    and "v_Type pc = PrecommitType" and "v_Type pv = PrevoteType"
    and "v_Proposed pc \<noteq> NilData" and "v_Round pc < v_Round pv" and "v_Proposed pv \<noteq> v_Proposed pc"
  shows "\<exists>hvs r d. Votes c = Some hvs \<and> v_Round pc < r \<and> d \<noteq> v_Proposed pc \<and>
    TwoThirdsMajority (Prevotes r hvs) = (d, True)"
proof -
  have "prevotes_ok (node_of env c)"
    using booted_runs_inv [OF assms(1,2)] by (simp add: core_inv_def node_inv_def)
  then have "overridden (node_of env c) (v_Round pc) (v_Proposed pc)"
    using assms(3-11) unfolding prevotes_ok_def by (simp add: node_of_def)
  then show ?thesis by (auto simp: overridden_def polka_def node_of_def)
qed

theorem prevote_respects_lock_witness:
  "\<exists>hvs r d. Votes fx_unlocked = Some hvs \<and> 0 < r \<and> d \<noteq> fx_data \<and>
    TwoThirdsMajority (Prevotes r hvs) = (d, True)"
  using prevote_respects_lock [OF fx_booted fx_unlock_run, of "fx_own PrecommitType 0 fx_data" "fx_own PrevoteType 1 9"]
  by (simp add: fx_unlocked_sent fx_own_def fx_data_def NilData_def)

text \<open>C11. A node commits each height at most once and in increasing order of heights, and every commit
  it hands to the application passes the stateless validation.\<close>

theorem commits_in_order:
  assumes "booted env V c0" and "runs env es c0 c"
  shows "sorted_wrt (<) (map Commit_Height (commits_in (outbox c))) \<and>
    list_all (\<lambda>k. Commit_ValidateBasic k = None \<and> Commit_Height k < Height c) (commits_in (outbox c))"
  using booted_runs_inv [OF assms]
  by (simp add: core_inv_def node_inv_def commits_ok_def node_of_def list_all_iff)

theorem commits_in_order_witness:
  "list_all (\<lambda>k. Commit_ValidateBasic k = None \<and> Commit_Height k < 2) (commits_in (outbox fx_committed)) \<and>
   map Commit_Height (commits_in (outbox fx_committed)) = [1]"
  using commits_in_order [OF fx_booted fx_commit_run] by (simp add: fx_committed_height fx_committed_commits)

text \<open>C22. The position (height, round, step) of a running node never goes back.\<close>

theorem position_never_back:
  assumes "booted env V c0" and "runs env es c0 c" and "runs env es' c c'"
  shows "HRS (Height c) (Round c) (Step c) \<le> HRS (Height c') (Round c') (Step c')"
proof -
  have "safe c" "env_ok env" using booted_runs_inv [OF assms(1,2)] by (simp_all add: core_inv_def)
  then have "any_moves (node_of env c) (node_of env c')"
    using runs_sim [of env es' c c'] assms(3) by (simp add: runs_def)
  from node_moves_pos [OF this] show ?thesis by (simp add: n_pos_def node_of_def)
qed

theorem position_never_back_witness:
  "HRS (Height fx_start) (Round fx_start) (Step fx_start) \<le> HRS 2 (Round fx_committed) (Step fx_committed)"
proof -
  have "runs fx_env [] fx_start fx_start" by (simp add: runs_def)
  from position_never_back [OF fx_booted this fx_commit_run] show ?thesis by (simp add: fx_committed_height)
qed

text \<open>C23. A timeout changes the state only when the node is at the very height, round and step it was
  scheduled for.\<close>

theorem timeout_acts_at_its_position:
  assumes "booted env V c0" and "runs env es c0 c"
    and "ti \<in> set (ticks c)" and "receiveRoutine_tock env ti c \<noteq> Inr c"
  shows "ti_Height ti = Height c \<and> ti_Round ti = Round c \<and> ti_Step ti = Step c"
proof -
  have safe: "safe c" using booted_runs_inv [OF assms(1,2)] by (simp add: core_inv_def)
  have "\<not> (ti_Height ti \<noteq> Height c \<or> ti_Round ti < Round c \<or> (ti_Round ti = Round c \<and> ti_Step ti < Step c))"
  proof
    assume "ti_Height ti \<noteq> Height c \<or> ti_Round ti < Round c \<or> (ti_Round ti = Round c \<and> ti_Step ti < Step c)"
    then have "receiveRoutine_tock env ti c = Inr c"
      by (simp add: receiveRoutine_tock_def handleTimeout_def GetRoundState_def RoundState.defs)
    with assms(4) show False by simp
  qed
  from tock_position [OF safe assms(3) this] show ?thesis by (simp add: ti_hrs_def c_pos_def)
qed

theorem timeout_acts_at_its_position_witness:
  "ti_Height fx_ti = Height fx_start \<and> ti_Round fx_ti = Round fx_start \<and> ti_Step fx_ti = Step fx_start"
proof (rule timeout_acts_at_its_position [OF fx_booted])
  show "runs fx_env [] fx_start fx_start" by (simp add: runs_def)
  show "fx_ti \<in> set (ticks fx_start)" by (simp add: fx_run_eval)
  show "receiveRoutine_tock fx_env fx_ti fx_start \<noteq> Inr fx_start" by (simp add: fx_run_eval)
qed

end
