(* ===== verification/Core_Limits.thy ===== *)
theory Core_Limits
  imports Core_Safety
begin

text \<open>
  Where the guarantees of a node end: runs of the example node in which a restart makes it vote
  twice, and in which a message that passes the stateless validation ends it.
\<close>

text \<open>The node is stopped after its prevote and started again at the same height, where it accepts
  another proposal.\<close>

definition fx_restart_events :: "core_event list" where
  "fx_restart_events =
     fx_lock_events @ [EvStop, EvStart, EvTock fx_ti, EvMsg] @ fx_in ProposalType 0 9 ''b''"


definition fx_bad_request :: FetchVotesReq where
  "fx_bad_request =
     \<lparr>q_Type = PrevoteType, q_Height = 1, q_Round = -1, q_Invoker = ''x'', q_Voters = [], q_Time = 0, q_Signature = [1]\<rparr>"


definition fx_bad_commit :: Commit where
  "fx_bad_commit =
     \<lparr>c_ProposedData = fx_data, c_Prev = 5, c_Precommits = [Some (fx_vote PrecommitType 1 0 fx_data ''x''), None],
      c_CommitTime = 0, c_Address = ''x'', c_Signature = [1]\<rparr>"


end
