(* ===== verification/Vote_Set_Props.thy ===== *)
theory Vote_Set_Props
  imports Fixture
begin

text \<open>
  The properties of the vote set, each with an example on the concrete committee: the +2/3
  majority is exactly a quorum of voting power, two majorities of one committee agree unless
  more than a third of the power voted twice, a majority once seen stays, \<^verbatim>\<open>AddVote\<close> refines
  insertion into a partial map, and what the code does with votes it has already seen, with
  double votes and with a total power it cannot double.
\<close>

section \<open>Majorities\<close>

text \<open>C12. A vote set collected from any sequence of votes reports a +2/3 majority exactly when
  the voters of some non-nil proposed data hold more than two thirds of the total voting power
  (no overflow: total below \<open>2 ^ 62\<close>, number of votes times largest power below \<open>2 ^ 63\<close>).\<close>

theorem majority_iff_quorum:
  assumes "collected V p ps vs" and "total_ok V"
  shows "HasTwoThirdsMajority (Some vs) \<longleftrightarrow>
    (\<exists>d. d \<noteq> NilData \<and> 2 * TotalVotingPower V < 3 * tally V (voters vs d))"
  using assms by (rule collected_majority_iff)

theorem majority_iff_quorum_witness:
  "\<exists>d. d \<noteq> NilData \<and> 2 * TotalVotingPower fx_committee < 3 * tally fx_committee (voters (fx_set3 PrevoteType) d)"
  using majority_iff_quorum [OF fx_collected3 [of PrevoteType] fx_total_ok]
  by (simp add: HasTwoThirdsMajority_def fx_set3_def fx_data_def NilData_def)

text \<open>C13. Two vote sets of the same committee (at the same or at different nodes) whose majorities
  are \<open>d1\<close> and \<open>d2\<close> agree, unless the validators that voted in both sets for different data
  hold more than a third of the voting power.\<close>

theorem majorities_agree:
  assumes "collected V p ps vs1" and "collected V q qs vs2"
    and "total_ok V" and "committee_total V vals"
    and "TwoThirdsMajority (Some vs1) = (d1, True)" and "TwoThirdsMajority (Some vs2) = (d2, True)"
    and "\<And>k. k \<in> voters vs1 d1 \<Longrightarrow> k \<in> voters vs2 d2 \<Longrightarrow> d1 \<noteq> d2 \<Longrightarrow> k \<in> byz"
    and "finite byz" and "3 * tally V byz \<le> TotalVotingPower V"
  shows "d1 = d2"
proof (rule ccontr)
  assume "d1 \<noteq> d2"
  have nn: "nonneg_powers V" using assms(1) powers_within_nonneg by (auto simp: collected_def)
  have "TotalVotingPower V < 3 * tally V (voters vs1 d1 \<inter> voters vs2 d2)"
    using assms(1-6) nn
    by (intro quorum_overlap collected_voters_validators collected_majority_power)
  also have "tally V (voters vs1 d1 \<inter> voters vs2 d2) \<le> tally V byz"
    using assms(7,8) nn \<open>d1 \<noteq> d2\<close> by (intro tally_mono) auto
  finally show False using assms(9) by simp
qed

theorem majorities_agree_witness:
  "fst (TwoThirdsMajority (Some (fx_set3 PrevoteType))) = fst (TwoThirdsMajority (Some (fx_set3 PrecommitType)))"
proof -
  have "fx_data = fx_data"
    by (rule majorities_agree [OF fx_collected3 [of PrevoteType] fx_collected3 [of PrecommitType]
          fx_total_ok fx_committee_total fx_majority3 fx_majority3, where byz = "{}"])
       (simp_all add: tally_def fx_total)
  then show ?thesis by (simp add: fx_majority3)
qed

text \<open>C24. Once a vote set has seen a majority, no later vote changes it.\<close>

theorem majority_stable:
  assumes "HasTwoThirdsMajority (Some vs)" and "run_steps (vs_step V) ps vs = Inr vs'"
  shows "TwoThirdsMajority (Some vs') = TwoThirdsMajority (Some vs)"
  using vs_run_maj23 [OF assms(2)] assms(1) by (simp add: vs_defs)

theorem majority_stable_witness:
  "\<exists>vs'. run_steps (vs_step fx_committee) [Some (fx_vote PrevoteType 1 0 9 ''d''), None] (fx_set3 PrevoteType) = Inr vs'
     \<and> TwoThirdsMajority (Some vs') = (fx_data, True)"
proof -
  have maj: "HasTwoThirdsMajority (Some (fx_set3 PrevoteType))"
    by (simp add: HasTwoThirdsMajority_def fx_set3_def fx_data_def NilData_def)
  obtain vs' where run: "run_steps (vs_step fx_committee) [Some (fx_vote PrevoteType 1 0 9 ''d''), None]
      (fx_set3 PrevoteType) = Inr vs'"
    using vs_machine.run_total [OF _ collected_inv(1) [OF fx_collected3 [of PrevoteType]],
        of "[Some (fx_vote PrevoteType 1 0 9 ''d''), None]" fx_committee] by (auto simp: list_all_iff)
  with majority_stable [OF maj run] fx_majority3 show ?thesis by metis
qed


section \<open>Adding a vote\<close>

text \<open>C25. \<^verbatim>\<open>AddVote\<close> on a vote set never panics and refines insertion into the partial map from
  (proposed data, address) to votes: a vote that fits the set, is new and verifies is inserted
  and reported without error; any other vote is reported with an error and leaves the map.\<close>

theorem AddVote_refines_insert:
  "\<exists>err vs'. AddVote V (Some v) (Some vs) = Inr (accepts V vs v, err, vs') \<and>
     (err = None \<longleftrightarrow> accepts V vs v) \<and>
     (\<lambda>(d, k). getVote vs' d k) =
       (if accepts V vs v then (\<lambda>(d, k). getVote vs d k)((v_Proposed v, v_Address v) \<mapsto> v)
        else (\<lambda>(d, k). getVote vs d k))"
proof (cases "accepts V vs v")
  case True
  then show ?thesis
    by (auto simp: AddVote_def vs_addVote_Some getVote_vs_add fun_eq_iff)
next
  case False
  then show ?thesis by (auto simp: AddVote_def vs_addVote_Some)
qed

text \<open>A vote set keeps its well-formedness under any sequence of votes, and never panics:
  keys are unique, every stored vote is filed under its own data and address and belongs to the
  set's height, round, type and base, and a majority is one of the collected data.\<close>

theorem vote_set_invariant:
  assumes "vs_wf vs"
  shows "\<exists>vs'. run_steps (vs_step V) ps vs = Inr vs' \<and> vs_wf vs'"
  using assms by (intro vs_machine.run_total) (simp_all add: list_all_iff)

theorem vote_set_invariant_witness:
  "\<exists>vs'. run_steps (vs_step fx_committee) [None, Some (fx_vote PrevoteType 2 0 9 ''d'')] (fx_set3 PrevoteType) = Inr vs'
     \<and> vs_wf vs'"
  by (rule vote_set_invariant) (rule collected_inv(1) [OF fx_collected3])

text \<open>A vote that is already known is reported as an error and changes nothing: as a duplicate
  when the signatures agree, as a non-deterministic signature otherwise.\<close>

theorem known_vote_is_error:
  assumes "getVote vs (v_Proposed v) (v_Address v) = Some old"
    and "v_Prev v = vs_base vs" and "v_Height v = vs_height vs" and "v_Round v = vs_round vs"
    and "v_Type v = vs_type vs"
  shows "AddVote V (Some v) (Some vs) =
    Inr (False, Some (if v_Signature old = v_Signature v then ErrDuplicateVote
                      else ErrVoteNonDeterministicSignature), vs)"
  using assms by (simp add: AddVote_def vs_addVote_def)

theorem known_vote_is_error_witness:
  "AddVote fx_committee (Some (fx_vote PrevoteType 1 0 fx_data ''b'')) (Some (fx_set3 PrevoteType)) =
     Inr (False, Some ErrDuplicateVote, fx_set3 PrevoteType)"
proof -
  have "getVote (fx_set3 PrevoteType) fx_data ''b'' = Some (fx_vote PrevoteType 1 0 fx_data ''b'')"
    by (simp add: getVote_def pdv_getVote_def fx_set3_def)
  then show ?thesis
    using known_vote_is_error [of "fx_set3 PrevoteType" "fx_vote PrevoteType 1 0 fx_data ''b''"]
    by (simp add: fx_set3_def)
qed


section \<open>Limits of the counting\<close>


text \<open>\<^verbatim>\<open>MinorQuorum\<close> names the data of the first vote, not the data that most validators have voted
  for: after one prevote for 9 and three prevotes of other validators for 7 it reports 9.\<close>

theorem minor_quorum_names_first:
  "\<exists>vs. run_steps (vs_step fx_committee)
       (map (\<lambda>(k, d). Some (fx_vote PrevoteType 1 0 d k)) [(''d'', 9), (''a'', 7), (''b'', 7), (''c'', 7)])
       (fx_set PrevoteType) = Inr vs \<and>
     voters vs 9 = {''d''} \<and> voters vs 7 = {''a'', ''b'', ''c''} \<and> MinorQuorum fx_committee (Some vs) = (9, True)"
proof -
  define vs where "vs = projr (run_steps (vs_step fx_committee)
       (map (\<lambda>(k, d). Some (fx_vote PrevoteType 1 0 d k)) [(''d'', 9), (''a'', 7), (''b'', 7), (''c'', 7)]) (fx_set PrevoteType))"
  have run: "run_steps (vs_step fx_committee)
       (map (\<lambda>(k, d). Some (fx_vote PrevoteType 1 0 d k)) [(''d'', 9), (''a'', 7), (''b'', 7), (''c'', 7)])
       (fx_set PrevoteType) = Inr vs"
    and fields: "vs_distinctVoter vs = 3" "vs_minorQuorum vs = 9"
    and get9: "getVote vs 9 k = (if k = ''d'' then Some (fx_vote PrevoteType 1 0 9 k) else None)"
    and get7: "getVote vs 7 k = (if k \<in> {''a'', ''b'', ''c''} then Some (fx_vote PrevoteType 1 0 7 k) else None)" for k
    by (simp_all add: vs_def fx_set_def NewVoteSet_def vs_step_def fx_eval)
  have "MinorQuorum fx_committee (Some vs) = (9, True)"
    by (simp add: MinorQuorum_def fields GetValidatorNum_def fx_committee_def wrap64_idI)
  then show ?thesis
    using run by (intro exI [of _ vs]) (auto simp: voters_def get9 get7)
qed



end
