(* ===== verification/Message_Props.thy ===== *)
theory Message_Props
  imports Commit_Props
begin

text \<open>
  The properties of the messages and of their signatures: what a signed vote commits its signer
  to, what it leaves open, and that every message a node signs verifies.
\<close>

section \<open>What the digest of a vote covers\<close>

definition vote_preimage :: "Vote \<Rightarrow> byte list" where
  "vote_preimage v =
     v_Type v # be_bytes 8 (v_Height v) @ pd_bytes (v_Proposed v) @ pd_bytes (v_Prev v)"

lemma Vote_Digest_preimage: "Vote_Digest v = sha256 (vote_preimage v)"
  by (simp add: Vote_Digest_def vote_preimage_def bin_writes_def)

lemma pd_bytes_inject [simp]: "pd_bytes d = pd_bytes e \<longleftrightarrow> d = e"
proof
  assume "pd_bytes d = pd_bytes e"
  then have "uint d mod 256 ^ 32 = uint e mod 256 ^ 32" unfolding pd_bytes_def by (rule be_bytes_inject)
  moreover have "uint x mod 256 ^ 32 = uint x" for x :: ProposedData
    using uint_lt2p [of x] by (intro mod_pos_pos_trivial) simp_all
  ultimately show "d = e" by (simp add: word_uint_eq_iff)
qed simp

lemma be_bytes8_inject: "is_int64 x \<Longrightarrow> is_int64 y \<Longrightarrow> be_bytes 8 x = be_bytes 8 y \<longleftrightarrow> x = y"
  using be_bytes_inject [of 8 x y] is_int64_mod_inject by blast

lemma length_pd_bytes [simp]: "length (pd_bytes d) = 32"
  by (simp add: pd_bytes_def)

text \<open>C29. The digest of a vote is the hash of its type, height, proposed data and previous data: two
  votes have the same hash input exactly when they agree on these four.\<close>

theorem vote_digest_covers:
  assumes "is_int64 (v_Height v)" and "is_int64 (v_Height w)"
  shows "Vote_Digest v = sha256 (vote_preimage v) \<and>
    (vote_preimage v = vote_preimage w \<longleftrightarrow>
      v_Type v = v_Type w \<and> v_Height v = v_Height w \<and> v_Proposed v = v_Proposed w \<and> v_Prev v = v_Prev w)"
  using assms by (auto simp: Vote_Digest_preimage) (auto simp: vote_preimage_def be_bytes8_inject)

theorem vote_digest_covers_witness:
  "vote_preimage (fx_vote PrevoteType 1 0 7 ''a'') \<noteq> vote_preimage (fx_vote PrecommitType 1 0 7 ''a'')"
  using vote_digest_covers [of "fx_vote PrevoteType 1 0 7 ''a''" "fx_vote PrecommitType 1 0 7 ''a''"]
  by (simp add: is_int64_def)

text \<open>C30. The signature of a vote does not cover its round and its time stamp: a vote that verifies
  still verifies after both are replaced, so that a vote cast in one round counts in any other
  round of the height.\<close>

theorem vote_round_not_signed:
  "VerifyVote V (v\<lparr>v_Round := r, v_Timestamp := t\<rparr>) = VerifyVote V v"
  by (simp add: VerifyVote_eq Vote_Digest_preimage vote_preimage_def cong: option.case_cong)


section \<open>Signing and verifying\<close>

text \<open>C28. Every message a node signs verifies under its committee, when the committee knows the
  node's key and accepts what it signs; a response is signed without a panic when none of its
  votes is nil.\<close>

theorem signed_messages_verify:
  assumes "key_pair V pv" and "None \<notin> set (r_MissingVotes rsp)"
  shows "VerifyVote V (SignVote pv v) \<and>
    Validators_VerifySignature Commit_GetSigner Commit_GetSignature (Inr \<circ> Commit_Digest cdc) V (SignCommit cdc pv k) = Inr True \<and>
    Validators_VerifySignature Req_GetSigner Req_GetSignature (Inr \<circ> Req_Digest) V (SignReq pv q) = Inr True \<and>
    and_then (SignRsp pv rsp) (Validators_VerifySignature Rsp_GetSigner Rsp_GetSignature Rsp_Digest V) = Inr True"
proof (intro conjI)
  show "VerifyVote V (SignVote pv v)" using assms(1) by (rule VerifyVote_SignVote)
  show "Validators_VerifySignature Commit_GetSigner Commit_GetSignature (Inr \<circ> Commit_Digest cdc) V (SignCommit cdc pv k) = Inr True"
    using commit_signable.verify_sign [OF assms(1), of cdc k "SignCommit cdc pv k"]
    by (simp add: SignCommit_def validators_defs)
  show "Validators_VerifySignature Req_GetSigner Req_GetSignature (Inr \<circ> Req_Digest) V (SignReq pv q) = Inr True"
    using req_signable.verify_sign [OF assms(1), of q "SignReq pv q"] by (simp add: SignReq_def validators_defs)
  obtain rsp' where rsp': "SignRsp pv rsp = Inr rsp'"
    using assms(2) by (simp add: SignRsp_def validators_defs Rsp_Digest_def Rsp_SetSigner_def)
  from rsp_signable.verify_sign [OF assms(1) rsp' [unfolded SignRsp_def]] rsp'
  show "and_then (SignRsp pv rsp) (Validators_VerifySignature Rsp_GetSigner Rsp_GetSignature Rsp_Digest V) = Inr True"
    by simp
qed

theorem signed_messages_verify_witness:
  "VerifyVote fx_committee (SignVote fx_priv (fx_vote PrevoteType 1 0 7 ''b''))"
  using signed_messages_verify [OF fx_key_pair, where v = "fx_vote PrevoteType 1 0 7 ''b''"
    and rsp = "\<lparr>r_Type = PrevoteType, r_Height = 1, r_Round = 0, r_Responser = [], r_MissingVotes = [],
      r_Time = 0, r_Signature = []\<rparr>"] by simp


end
