(* ===== verification/Fetch_Props.thy ===== *)
theory Fetch_Props
  imports Commit_Props Height_Vote_Set_Facts
begin

text \<open>
  The properties of the rounds of a height and of the exchange of missing votes between nodes.
\<close>

section \<open>Rounds\<close>

text \<open>C27. \<^verbatim>\<open>POLInfo\<close> returns the last tracked round with +2/3 prevotes and their data, or \<open>-1\<close> when no
  tracked round has them.\<close>

theorem POLInfo_is_last_polka:
  "case POLInfo hvs of (r, d) \<Rightarrow>
     {x. r < x \<and> 0 \<le> x \<and> x \<le> hvs_round hvs \<and> HasTwoThirdsMajority (Prevotes x hvs)} = {} \<and>
     (if r = -1 then True
      else 0 \<le> r \<and> r \<le> hvs_round hvs \<and> TwoThirdsMajority (Prevotes r hvs) = (d, True))"
proof -
  obtain r d where eq: "POLInfo hvs = (r, d)" by fastforce
  from pol_loop_spec [OF this [unfolded POLInfo_def]] show ?thesis unfolding eq by auto
qed

text \<open>C26. \<^verbatim>\<open>SetRound\<close> on a well-formed set, to a later round, returns a well-formed set that tracks every
  round up to the new one and keeps every vote set it had.\<close>

theorem SetRound_tracks:
  assumes "hvs_wf hvs" and "hvs_round hvs < round" and "round < max_int64"
  shows "\<exists>hvs'. SetRound round hvs = Inr hvs' \<and> hvs_wf hvs' \<and> hvs_round hvs' = round \<and>
    (\<forall>r t vs. hvs_lookup hvs r t = Some vs \<longrightarrow> hvs_lookup hvs' r t = Some vs)"
proof -
  have h: "hvs_height hvs \<noteq> 0" and r: "0 \<le> hvs_round hvs" and tr: "hvs_tracks hvs" and sh: "hvs_shape hvs"
    using assms(1) by (auto simp: hvs_wf_def hvs_shape_def hvs_tracks_def)
  have "is_int64 (hvs_round hvs + 1)" using r assms(2,3) by (simp add: is_int64_def)
  from SetRound_spec [OF h this assms(3)] assms(2) obtain hvs' where hvs': "SetRound round hvs = Inr hvs'"
    "hvs_round hvs' = round" and ext: "extends_to (hvs_round hvs + 1) round hvs hvs'" by blast
  have "hvs_tracks hvs'" using tr ext hvs'(2) r assms(2) unfolding hvs_tracks_def extends_to_def by auto
  with hvs_shape_extends [OF sh ext] extends_to_lookup [OF ext] hvs' show ?thesis by (auto simp: hvs_wf_def)
qed

definition fx_hvs :: HeightVoteSet where
  "fx_hvs = projr (NewHeightVoteSet 1 5)"

lemma fx_hvs_new: "NewHeightVoteSet 1 5 = Inr fx_hvs" "hvs_round fx_hvs = 0" "hvs_wf fx_hvs" "hvs_height fx_hvs = 1"
proof -
  obtain hvs where "NewHeightVoteSet 1 5 = Inr hvs" "hvs_height hvs = 1" "hvs_round hvs = 0" "hvs_wf hvs"
    by (rule NewHeightVoteSet_spec [of 1 5]) simp_all
  then show "NewHeightVoteSet 1 5 = Inr fx_hvs" "hvs_round fx_hvs = 0" "hvs_wf fx_hvs" "hvs_height fx_hvs = 1"
    by (simp_all add: fx_hvs_def)
qed

theorem SetRound_tracks_witness:
  "\<exists>hvs'. SetRound 3 fx_hvs = Inr hvs' \<and> hvs_wf hvs' \<and> hvs_round hvs' = 3"
  using SetRound_tracks [OF fx_hvs_new(3), of 3] by (auto simp: fx_hvs_new(2))




section \<open>The exchange of missing votes\<close>

lemma set_ranged_votes:
  assumes "vs_wf vs" and "is_range_order ord"
  shows "(k, v) \<in> set (ranged_votes ord vs) \<longleftrightarrow> (\<exists>d. getVote vs d k = Some v)"
proof -
  have ord: "is_order (order_pd ord)" "is_order (order_pk ord d)" for d
    using assms(2) by (simp_all add: is_range_order_def)
  have dist: "distinct (map fst (vs_votesByProposedData vs))" using assms(1) by (simp add: vs_wf_def)
  have entry: "set (map_range (order_pk ord d) (pdv_votes b)) = set (pdv_votes b)"
    "distinct (map fst (pdv_votes b))"
    if "(d, b) \<in> set (vs_votesByProposedData vs)" for d b
    using that assms(1) ord(2) by (auto simp: vs_wf_def intro!: set_map_range)
  have "(k, v) \<in> set (ranged_votes ord vs) \<longleftrightarrow>
      (\<exists>d b. (d, b) \<in> set (vs_votesByProposedData vs) \<and> (k, v) \<in> set (pdv_votes b))"
    using entry(1) by (auto simp: ranged_votes_def set_map_range [OF ord(1) dist]) blast+
  also have "\<dots> \<longleftrightarrow> (\<exists>d b. map_of (vs_votesByProposedData vs) d = Some b \<and> map_of (pdv_votes b) k = Some v)"
    using entry(2) dist by (metis map_of_eq_Some_iff)
  also have "\<dots> \<longleftrightarrow> (\<exists>d. getVote vs d k = Some v)"
    by (auto simp: getVote_def pdv_getVote_def split: option.split)
  finally show ?thesis .
qed

lemma fetch_rsp_set:
  assumes "vs_wf vs" and "is_range_order ord" and "MakeFetchVotesRsp ord now req (Some vs) = Inr rsp"
  shows "set (r_MissingVotes rsp) = {Some v | d k v. getVote vs d k = Some v \<and> k \<notin> set (q_Voters req)}"
proof -
  have "set (r_MissingVotes rsp) = {Some v | k v. (k, v) \<in> set (ranged_votes ord vs) \<and> k \<notin> set (q_Voters req)}"
    using assms(3) by (fastforce simp: MakeFetchVotesRsp_def image_iff)
  then show ?thesis unfolding set_ranged_votes [OF assms(1,2)] by blast
qed

text \<open>\<open>same_place vs vs'\<close>: two sets, at two nodes, of the same votes.\<close>

definition same_place :: "VoteSet \<Rightarrow> VoteSet \<Rightarrow> bool" where
  "same_place vs vs' \<longleftrightarrow>
     vs_height vs = vs_height vs' \<and> vs_round vs = vs_round vs' \<and> vs_type vs = vs_type vs' \<and> vs_base vs = vs_base vs'"

lemma vs_step_keeps:
  assumes "vs_step V p vs = Inr vs'"
  shows "same_place vs' vs" and "getVote vs d k = Some v \<Longrightarrow> getVote vs' d k = Some v"
  using vs_step_cases [of V p vs] assms by (auto simp: same_place_def getVote_vs_add accepts_def)

lemma vs_step_takes:
  assumes "vs_step V (Some v) vs = Inr vs'" and "VerifyVote V v" and "v_Prev v = vs_base vs" and "v_Height v = vs_height vs"
    and "v_Round v = vs_round vs" and "v_Type v = vs_type vs"
  shows "getVote vs' (v_Proposed v) (v_Address v) \<noteq> None"
proof (cases "accepts V vs v")
  case True
  then have "vs' = vs_add V v vs" using assms(1) by (simp add: vs_step_def vs_addVote_Some)
  with True show ?thesis by (simp add: getVote_vs_add)
next
  case False
  then have "getVote vs (v_Proposed v) (v_Address v) \<noteq> None" using assms(2-6) by (simp add: accepts_def)
  with vs_step_keeps(2) [OF assms(1)] show ?thesis by auto
qed

lemma vs_run_takes:
  assumes "run_steps (vs_step V) ps vs = Inr vs'"
  shows "getVote vs d k = Some v \<Longrightarrow> getVote vs' d k = Some v"
    and "Some w \<in> set ps \<Longrightarrow> VerifyVote V w \<Longrightarrow> v_Prev w = vs_base vs \<Longrightarrow> v_Height w = vs_height vs \<Longrightarrow>
      v_Round w = vs_round vs \<Longrightarrow> v_Type w = vs_type vs \<Longrightarrow> getVote vs' (v_Proposed w) (v_Address w) \<noteq> None"
proof -
  have keep: "getVote vs d k = Some v \<Longrightarrow> getVote vs' d k = Some v"
    if "run_steps (vs_step V) ps vs = Inr vs'" for ps vs vs' d k v
    using that by (induction ps arbitrary: vs) (auto elim!: and_then_InrE dest: vs_step_keeps(2))
  show "getVote vs d k = Some v \<Longrightarrow> getVote vs' d k = Some v" using assms by (rule keep)
  show "getVote vs' (v_Proposed w) (v_Address w) \<noteq> None"
    if "Some w \<in> set ps" "VerifyVote V w" "v_Prev w = vs_base vs" "v_Height w = vs_height vs"
      "v_Round w = vs_round vs" "v_Type w = vs_type vs"
    using assms that
  proof (induction ps arbitrary: vs)
    case (Cons p ps)
    then obtain vs1 where vs1: "vs_step V p vs = Inr vs1" "run_steps (vs_step V) ps vs1 = Inr vs'"
      by (auto elim!: and_then_InrE)
    have same: "same_place vs1 vs" using vs1(1) by (rule vs_step_keeps)
    show ?case
    proof (cases "p = Some w")
      case True
      with vs_step_takes [of V w vs vs1] vs1(1) Cons.prems have "getVote vs1 (v_Proposed w) (v_Address w) \<noteq> None" by simp
      with keep [OF vs1(2)] show ?thesis by auto
    next
      case False
      with Cons.prems same show ?thesis by (intro Cons.IH [OF vs1(2)]) (auto simp: same_place_def)
    qed
  qed simp
qed

text \<open>C18. The exchange of missing votes makes up for lost messages: when a node adds the votes another
  node returns for its request, it keeps what it had and ends with a vote of every validator
  the other node has a vote of.\<close>

theorem fetch_fills_in:
  assumes "vs_wf vsA" and "vs_wf vsB" and "is_range_order ordA" and "is_range_order ordB" and "same_place vsA vsB"
    and "\<And>d k v. getVote vsA d k = Some v \<Longrightarrow> VerifyVote V v"
    and "MakeFetchVotesReq ordB t (Some vsB) = Inr req" and "MakeFetchVotesRsp ordA t' req (Some vsA) = Inr rsp"
  shows "\<exists>vsB'. run_steps (vs_step V) (r_MissingVotes rsp) vsB = Inr vsB' \<and>
    (\<forall>d k. getVote vsA d k \<noteq> None \<longrightarrow> (\<exists>d'. getVote vsB' d' k \<noteq> None)) \<and>
    (\<forall>d k v. getVote vsB d k = Some v \<longrightarrow> getVote vsB' d k = Some v)"
proof -
  obtain vsB' where run: "run_steps (vs_step V) (r_MissingVotes rsp) vsB = Inr vsB'"
    using vs_machine.run_total [of "r_MissingVotes rsp" vsB V] assms(2) by (auto simp: list_all_iff)
  have req: "k \<in> set (q_Voters req) \<longleftrightarrow> (\<exists>d v. getVote vsB d k = Some v)" for k
    using assms(7) set_ranged_votes [OF assms(2,4)] by (force simp: MakeFetchVotesReq_def)
  have rsp: "Some v \<in> set (r_MissingVotes rsp)" if "getVote vsA d k = Some v" "k \<notin> set (q_Voters req)" for d k v
    unfolding fetch_rsp_set [OF assms(1,3,8)] using that by blast
  note keep = vs_run_takes [OF run]
  have "\<exists>d'. getVote vsB' d' k \<noteq> None" if v: "getVote vsA d k = Some v" for d k v
  proof (cases "k \<in> set (q_Voters req)")
    case True
    with req keep(1) show ?thesis by (metis option.distinct(1))
  next
    case False
    note v' = vs_wfD [OF assms(1) v]
    have "getVote vsB' (v_Proposed v) (v_Address v) \<noteq> None"
      using assms(5) by (intro keep(2) [OF rsp [OF v False] assms(6) [OF v]]) (simp_all add: v' same_place_def)
    then show ?thesis unfolding v' by blast
  qed
  with run keep(1) show ?thesis by blast
qed

definition fx_req :: FetchVotesReq where
  "fx_req = projr (MakeFetchVotesReq fx_order 0 (Some (fx_set PrevoteType)))"

definition fx_rsp :: FetchVotesRsp where
  "fx_rsp = projr (MakeFetchVotesRsp fx_order 0 fx_req (Some (fx_set3 PrevoteType)))"

theorem fetch_fills_in_witness:
  "\<exists>vsB'. run_steps (vs_step fx_committee) (r_MissingVotes fx_rsp) (fx_set PrevoteType) = Inr vsB' \<and>
    (\<exists>d'. getVote vsB' d' ''c'' \<noteq> None)"
proof -
  have c: "getVote (fx_set3 PrevoteType) fx_data ''c'' \<noteq> None"
    by (simp add: fx_set3_def getVote_def pdv_getVote_def)
  have verified: "VerifyVote fx_committee v" if "getVote (fx_set3 PrevoteType) d k = Some v" for d k v
    using that by (auto simp: fx_verify fx_keys_def fx_set3_def getVote_def pdv_getVote_def split: if_splits)
  have "\<exists>vsB'. run_steps (vs_step fx_committee) (r_MissingVotes fx_rsp) (fx_set PrevoteType) = Inr vsB' \<and>
    (\<forall>d k. getVote (fx_set3 PrevoteType) d k \<noteq> None \<longrightarrow> (\<exists>d'. getVote vsB' d' k \<noteq> None)) \<and>
    (\<forall>d k v. getVote (fx_set PrevoteType) d k = Some v \<longrightarrow> getVote vsB' d k = Some v)"
  proof (rule fetch_fills_in [OF collected_inv(1) [OF fx_collected3] vs_wf_new [OF fx_new] fx_range_order fx_range_order])
    show "same_place (fx_set3 PrevoteType) (fx_set PrevoteType)"
      by (simp add: same_place_def fx_set3_def fx_set_def NewVoteSet_def)
    show "MakeFetchVotesReq fx_order 0 (Some (fx_set PrevoteType)) = Inr fx_req"
      by (simp add: fx_req_def MakeFetchVotesReq_def)
    show "MakeFetchVotesRsp fx_order 0 fx_req (Some (fx_set3 PrevoteType)) = Inr fx_rsp"
      by (simp add: fx_rsp_def MakeFetchVotesRsp_def)
  qed (rule verified)
  with c show ?thesis by blast
qed

end
