(* ===== verification/Network.thy ===== *)
theory Network
  imports Backing
begin

text \<open>
  Many nodes: the honest members of a committee follow the abstract protocol, every node is given
  votes an adversary chooses, except that a vote that carries an honest member's address is
  one that member has sent. The invariant of the network, by induction over its moves, gives
  agreement: with at most a third of the power outside the honest members, no two of them
  commit different data at one height.
\<close>

section \<open>Networks\<close>

definition authentic :: "PubKey set \<Rightarrow> (PubKey \<Rightarrow> Node) \<Rightarrow> Vote set" where
  "authentic Hon N = {v. v_Address v \<in> Hon \<longrightarrow> v \<in> set (n_sent (N (v_Address v)))}"

text \<open>A node that has just been started.\<close>

definition fresh_node :: "(int \<Rightarrow> ICommittee \<Rightarrow> bool) \<Rightarrow> PubKey \<Rightarrow> Node \<Rightarrow> bool" where
  "fresh_node F k n \<longleftrightarrow>
     n_key n = k \<and> node_inv n \<and> n_sent n = [] \<and> n_commits n = [] \<and> F (n_height n) (n_app n) \<and>
     (\<forall>h. n_votes n = Some h \<longrightarrow> (\<exists>b. NewHeightVoteSet (n_height n) b = Inr h))"

inductive net :: "PubKey set \<Rightarrow> (int \<Rightarrow> ICommittee \<Rightarrow> bool) \<Rightarrow> (PubKey \<Rightarrow> Node) \<Rightarrow> bool" for Hon F where
  start: "(\<And>k. k \<in> Hon \<Longrightarrow> fresh_node F k (N k)) \<Longrightarrow> net Hon F N"
| move: "net Hon F N \<Longrightarrow> k \<in> Hon \<Longrightarrow> node_move (authentic Hon N) F (N k) n' \<Longrightarrow> net Hon F (N(k := n'))"

text \<open>The bound on the power outside the honest members, at every height.\<close>

definition bft :: "PubKey set \<Rightarrow> (int \<Rightarrow> ICommittee) \<Rightarrow> (int \<Rightarrow> PubKey list) \<Rightarrow> bool" where
  "bft Hon W vals \<longleftrightarrow>
     (\<forall>h. committee_ok (W h) (vals h) \<and> 3 * tally (W h) (set (vals h) - Hon) \<le> TotalVotingPower (W h))"

lemma bftD:
  assumes "bft Hon W vals"
  shows "committee_ok (W h) (vals h)" and "3 * tally (W h) (set (vals h) - Hon) \<le> TotalVotingPower (W h)"
  using assms by (simp_all add: bft_def)


section \<open>Quorums\<close>

definition quorum :: "(int \<Rightarrow> ICommittee) \<Rightarrow> (int \<Rightarrow> PubKey list) \<Rightarrow> int \<Rightarrow> PubKey set \<Rightarrow> bool" where
  "quorum W vals h Q \<longleftrightarrow> Q \<subseteq> set (vals h) \<and> 2 * TotalVotingPower (W h) < 3 * tally (W h) Q"

lemma quorums_meet:
  assumes "bft Hon W vals" and "quorum W vals h P" and "quorum W vals h Q"
  obtains k where "k \<in> P" "k \<in> Q" "k \<in> Hon"
proof -
  have nn: "nonneg_powers (W h)" and total: "TotalVotingPower (W h) = tally (W h) (set (vals h))"
    and byz: "3 * tally (W h) (set (vals h) - Hon) \<le> TotalVotingPower (W h)"
    using bftD [OF assms(1), of h] by (simp_all add: committee_ok_def committee_total_def)
  have sub: "P \<subseteq> set (vals h)" "Q \<subseteq> set (vals h)" and fin: "finite P" "finite Q"
    using assms(2,3) finite_subset [of _ "set (vals h)"] by (auto simp: quorum_def)
  have "tally (W h) (P \<union> Q) \<le> TotalVotingPower (W h)"
    unfolding total using nn sub by (intro tally_mono) auto
  then have more: "TotalVotingPower (W h) < 3 * tally (W h) (P \<inter> Q)"
    using tally_Un_Int [OF fin, of "W h"] assms(2,3) by (simp add: quorum_def)
  have "\<not> P \<inter> Q \<subseteq> set (vals h) - Hon"
  proof
    assume "P \<inter> Q \<subseteq> set (vals h) - Hon"
    with nn have "tally (W h) (P \<inter> Q) \<le> tally (W h) (set (vals h) - Hon)" by (intro tally_mono) auto
    with more byz show False by simp
  qed
  with sub show thesis using that by blast
qed

definition has_sent :: "(PubKey \<Rightarrow> Node) \<Rightarrow> PubKey \<Rightarrow> int \<Rightarrow> int \<Rightarrow> VoteType \<Rightarrow> ProposedData \<Rightarrow> bool" where
  "has_sent N k h r t d \<longleftrightarrow>
     (\<exists>v \<in> set (n_sent (N k)). v_Height v = h \<and> v_Round v = r \<and> v_Type v = t \<and> v_Proposed v = d)"

text \<open>\<open>supported\<close>: a quorum whose honest members have all sent the vote.\<close>

definition supported ::
  "PubKey set \<Rightarrow> (int \<Rightarrow> ICommittee) \<Rightarrow> (int \<Rightarrow> PubKey list) \<Rightarrow> (PubKey \<Rightarrow> Node) \<Rightarrow> int \<Rightarrow> int \<Rightarrow> VoteType \<Rightarrow> ProposedData \<Rightarrow> bool" where
  "supported Hon W vals N h r t d \<longleftrightarrow> (\<exists>Q. quorum W vals h Q \<and> (\<forall>k \<in> Q \<inter> Hon. has_sent N k h r t d))"

lemma majority_supported:
  assumes "sound W vals (authentic Hon N) n" and "votes_ok n" and "n_votes n = Some hv" and "committee_ok (W (n_height n)) (vals (n_height n))"
    and "TwoThirdsMajority (hvs_lookup hv r t) = (d, True)"
  shows "supported Hon W vals N (n_height n) r t d"
proof -
  let ?h = "n_height n"
  obtain vs where vs: "hvs_lookup hv r t = Some vs" "vs_maj23 vs = d" "d \<noteq> NilData"
    using assms(5) by (cases "hvs_lookup hv r t") (auto simp: TwoThirdsMajority_def split: if_splits)
  have shape: "hvs_shape hv" "hvs_height hv = ?h" using assms(2,3) by (simp_all add: votes_ok_def)
  have bk: "backed (W ?h) (vals ?h) vs" and within: "votes_within (authentic Hon N) vs"
    using assms(1,3) hvs_allD [OF _ vs(1)] unfolding sound_def by blast+
  have "total_ok (W ?h)" using assms(4) by (simp add: committee_ok_def)
  then have "quorum W vals ?h (voters vs d)"
    using bk vs(2,3) by (simp add: quorum_def backed_def quorum_le_iff)
  moreover have "has_sent N k ?h r t d" if k: "k \<in> voters vs d" "k \<in> Hon" for k
  proof -
    obtain v where v: "getVote vs d k = Some v" using k(1) by (auto simp: voters_def)
    note wf = hvs_shapeD [OF shape(1) vs(1)]
    note v' = vs_wfD [OF wf(1) v]
    have "v \<in> set (n_sent (N k))" using within v v'(1) k(2) by (auto simp: votes_within_def authentic_def)
    with v' wf shape(2) show ?thesis by (auto simp: has_sent_def)
  qed
  ultimately show ?thesis by (auto simp: supported_def)
qed


section \<open>What moves keep\<close>

text \<open>A new vote is sent at a position after all the positions before the move.\<close>

lemma sent_new:
  assumes "node_move A F n n'" and "v \<in> set (n_sent n')" and "v \<notin> set (n_sent n)"
  shows "n_pos n < vote_pos v" and "vote_pos v \<le> n_pos n'" and "v_Height v = n_height n" and "v_Round v = n_round n"
    and "v_Address v = n_key n" and "sent_rule (v_Type v) (v_Proposed v) n n'"
proof -
  have rule: "v_Height v = n_height n \<and> v_Round v = n_round n \<and> sent_rule (v_Type v) (v_Proposed v) n n'"
    by (rule sent_cases [OF assms(1,2)]) (use assms(3) in simp_all)
  moreover have "n_pos n < vote_pos v \<and> vote_pos v \<le> n_pos n' \<and> v_Address v = n_key n"
    using assms
    by (cases rule: node_move.cases) (auto simp: sends_def vote_pos_def n_pos_def HRS_less HRS_le less_imp_le)
  ultimately show "n_pos n < vote_pos v" and "vote_pos v \<le> n_pos n'" and "v_Height v = n_height n"
    and "v_Round v = n_round n" and "v_Address v = n_key n" and "sent_rule (v_Type v) (v_Proposed v) n n'" by blast+
qed

lemma sent_grows:
  assumes "node_move A F n n'"
  shows "set (n_sent n) \<subseteq> set (n_sent n')" and "n_key n' = n_key n"
proof -
  show "set (n_sent n) \<subseteq> set (n_sent n')" using move_sends [OF assms] by auto
  show "n_key n' = n_key n" using assms by (cases rule: node_move.cases) simp_all
qed

text \<open>\<open>strays N k h r d\<close>: after round \<open>r\<close> member \<open>k\<close> has prevoted something else than \<open>d\<close>;
  \<open>missed N k h r d\<close>: it has passed the precommit of round \<open>r\<close> without one for \<open>d\<close>.\<close>

definition strays :: "(PubKey \<Rightarrow> Node) \<Rightarrow> PubKey \<Rightarrow> int \<Rightarrow> int \<Rightarrow> ProposedData \<Rightarrow> bool" where
  "strays N k h r d \<longleftrightarrow> (\<exists>r' d'. r < r' \<and> d' \<noteq> d \<and> has_sent N k h r' PrevoteType d')"

definition missed :: "(PubKey \<Rightarrow> Node) \<Rightarrow> PubKey \<Rightarrow> int \<Rightarrow> int \<Rightarrow> ProposedData \<Rightarrow> bool" where
  "missed N k h r d \<longleftrightarrow> HRS h r RoundStepPrecommit \<le> n_pos (N k) \<and> \<not> has_sent N k h r PrecommitType d"

definition net_inv :: "PubKey set \<Rightarrow> (int \<Rightarrow> ICommittee) \<Rightarrow> (int \<Rightarrow> PubKey list) \<Rightarrow> (PubKey \<Rightarrow> Node) \<Rightarrow> bool" where
  "net_inv Hon W vals N \<longleftrightarrow>
     (\<forall>k \<in> Hon. n_key (N k) = k \<and> node_inv (N k) \<and> sound W vals (authentic Hon N) (N k) \<and>
        app_fits W (n_height (N k)) (n_app (N k))) \<and>
     (\<forall>k \<in> Hon. \<forall>h r d. has_sent N k h r PrecommitType d \<longrightarrow> d \<noteq> NilData \<longrightarrow>
        supported Hon W vals N h r PrevoteType d) \<and>
     (\<forall>k \<in> Hon. \<forall>km \<in> set (n_commits (N k)). c_ProposedData km \<noteq> NilData \<and>
        (\<exists>r. supported Hon W vals N (Commit_Height km) r PrecommitType (c_ProposedData km))) \<and>
     (\<forall>h r d Q. d \<noteq> NilData \<longrightarrow> quorum W vals h Q \<longrightarrow> (\<exists>k \<in> Q \<inter> Hon. strays N k h r d) \<longrightarrow>
        (\<exists>k \<in> Q \<inter> Hon. missed N k h r d))"

lemma net_invD:
  assumes "net_inv Hon W vals N"
  shows "k \<in> Hon \<Longrightarrow> n_key (N k) = k" and "k \<in> Hon \<Longrightarrow> node_inv (N k)"
    and "k \<in> Hon \<Longrightarrow> sound W vals (authentic Hon N) (N k)" and "k \<in> Hon \<Longrightarrow> app_fits W (n_height (N k)) (n_app (N k))"
    and "k \<in> Hon \<Longrightarrow> has_sent N k h r PrecommitType d \<Longrightarrow> d \<noteq> NilData \<Longrightarrow> supported Hon W vals N h r PrevoteType d"
    and "k \<in> Hon \<Longrightarrow> km \<in> set (n_commits (N k)) \<Longrightarrow> c_ProposedData km \<noteq> NilData \<and>
      (\<exists>r. supported Hon W vals N (Commit_Height km) r PrecommitType (c_ProposedData km))"
    and "d \<noteq> NilData \<Longrightarrow> quorum W vals h Q \<Longrightarrow> k \<in> Q \<Longrightarrow> k \<in> Hon \<Longrightarrow> strays N k h r d \<Longrightarrow> \<exists>k \<in> Q \<inter> Hon. missed N k h r d"
  using assms unfolding net_inv_def by blast+

text \<open>A move of one member: what has been sent stays sent.\<close>

lemma has_sent_move:
  assumes "node_move A F (N i) n'" and "has_sent N k h r t d"
  shows "has_sent (N(i := n')) k h r t d"
  using assms(2) sent_grows(1) [OF assms(1)] by (auto simp: has_sent_def)

lemma supported_move:
  assumes "node_move A F (N i) n'" and "supported Hon W vals N h r t d"
  shows "supported Hon W vals (N(i := n')) h r t d"
  using assms(2) has_sent_move [of A F N i n'] assms(1) unfolding supported_def by blast

lemma authentic_move:
  assumes "node_move A F (N i) n'"
  shows "authentic Hon N \<subseteq> authentic Hon (N(i := n'))"
  using sent_grows(1) [OF assms] by (auto simp: authentic_def)

text \<open>A vote that is new has been sent by the member that moved.\<close>

lemma has_sent_new:
  assumes "node_move A F (N i) n'" and "has_sent (N(i := n')) k h r t d" and "\<not> has_sent N k h r t d"
  shows "k = i" and "h = n_height (N i)" and "r = n_round (N i)" and "sent_rule t d (N i) n'"
    and "n_pos (N i) < HRS h r (vote_step t)"
proof -
  show "k = i" using assms(2,3) by (auto simp: has_sent_def split: if_splits)
  then obtain v where v: "v \<in> set (n_sent n')" "v \<notin> set (n_sent (N i))" "v_Height v = h" "v_Round v = r" "v_Type v = t" "v_Proposed v = d"
    using assms(2,3) by (auto simp: has_sent_def)
  from sent_new [OF assms(1) v(1,2)] v show "h = n_height (N i)" and "r = n_round (N i)" and "sent_rule t d (N i) n'"
    and "n_pos (N i) < HRS h r (vote_step t)" by (auto simp: vote_pos_def)
qed

lemma missed_move:
  assumes "node_move A F (N i) n'" and "missed N k h r d"
  shows "missed (N(i := n')) k h r d"
proof -
  have pos: "n_pos (N k) \<le> n_pos ((N(i := n')) k)" using node_move_pos [OF assms(1)] by simp
  have "\<not> has_sent (N(i := n')) k h r PrecommitType d"
  proof
    assume "has_sent (N(i := n')) k h r PrecommitType d"
    moreover have "\<not> has_sent N k h r PrecommitType d" using assms(2) by (simp add: missed_def)
    ultimately have "k = i" "n_pos (N i) < HRS h r (vote_step PrecommitType)"
      by (rule has_sent_new [of A F N i n', OF assms(1)])+
    with assms(2) show False by (auto simp: missed_def)
  qed
  with pos assms(2) show ?thesis by (auto simp: missed_def)
qed


section \<open>The invariant\<close>

lemma polka_supported:
  assumes "net_inv Hon W vals N" and "bft Hon W vals" and "k \<in> Hon" and "polka (N k) r d"
  shows "supported Hon W vals N (n_height (N k)) r PrevoteType d"
proof -
  obtain hv where "n_votes (N k) = Some hv" "TwoThirdsMajority (hvs_lookup hv r PrevoteType) = (d, True)"
    using assms(4) by (auto simp: polka_def Prevotes_lookup)
  moreover have "votes_ok (N k)" using net_invD(2) [OF assms(1,3)] by (simp add: node_inv_def)
  ultimately show ?thesis
    using net_invD(3) [OF assms(1,3)] bftD(1) [OF assms(2)] by (intro majority_supported)
qed

lemma polka_neq_Nil: "polka n r d \<Longrightarrow> d \<noteq> NilData"
  by (auto simp: polka_def TwoThirdsMajority_def split: option.splits if_splits)

text \<open>The heart of agreement: a member of a quorum strays from \<open>d\<close> only after another one has missed \<open>d\<close>.\<close>

lemma strays_move:
  assumes inv: "net_inv Hon W vals N" and bft: "bft Hon W vals" and i: "i \<in> Hon" and m: "node_move A F (N i) n'"
    and d: "d \<noteq> NilData" and Q: "quorum W vals h Q" and k: "k \<in> Q" "k \<in> Hon" and strays: "strays (N(i := n')) k h r d"
  shows "\<exists>k \<in> Q \<inter> Hon. missed (N(i := n')) k h r d"
proof (cases "\<exists>k \<in> Q \<inter> Hon. strays N k h r d")
  case True
  then have "\<exists>k \<in> Q \<inter> Hon. missed N k h r d" using net_invD(7) [OF inv d Q] by blast
  with missed_move [of A F N i n', OF m] show ?thesis by blast
next
  case False
  obtain r' d' where new: "r < r'" "d' \<noteq> d" "has_sent (N(i := n')) k h r' PrevoteType d'"
    using strays by (auto simp: strays_def)
  with False k have "\<not> has_sent N k h r' PrevoteType d'" by (auto simp: strays_def)
  note sent = has_sent_new [of A F N i n', OF m new(3) this]
  have pos: "HRS h r RoundStepPrecommit \<le> n_pos (N k)" using sent(1-3) new(1) by (simp add: n_pos_def HRS_le)
  have node: "node_inv (N k)" using net_invD(2) [OF inv k(2)] .
  have "\<not> has_sent N k h r PrecommitType d"
  proof
    assume "has_sent N k h r PrecommitType d"
    then have "kept (N k) r d"
      using node d sent(1,2) by (auto simp: node_inv_def precommits_ok_def has_sent_def)
    moreover have "prevote_rule (N k) d'" using sent(1,4) by (simp add: sent_rule_def)
    ultimately have "overridden (N k) r d" using new(2) by (auto simp: kept_def prevote_rule_def)
    then obtain r'' d'' where over: "r < r''" "d'' \<noteq> d" "polka (N k) r'' d''" by (auto simp: overridden_def)
    from polka_supported [OF inv bft k(2) over(3)] sent(1,2)
    obtain P where P: "quorum W vals h P" "\<And>k. k \<in> P \<Longrightarrow> k \<in> Hon \<Longrightarrow> has_sent N k h r'' PrevoteType d''"
      by (auto simp: supported_def)
    obtain k' where "k' \<in> P" "k' \<in> Q" "k' \<in> Hon" using quorums_meet [OF bft P(1) Q] by blast
    with P(2) over False show False by (auto simp: strays_def)
  qed
  with pos have "missed N k h r d" by (simp add: missed_def)
  with missed_move [of A F N i n', OF m] k show ?thesis by blast
qed

lemma commit_supported:
  assumes inv: "net_inv Hon W vals N" and bft: "bft Hon W vals" and i: "i \<in> Hon" and m: "node_move A F (N i) n'"
    and km: "km \<in> set (n_commits n')" "km \<notin> set (n_commits (N i))"
  shows "c_ProposedData km \<noteq> NilData \<and>
    (\<exists>r. supported Hon W vals N (Commit_Height km) r PrecommitType (c_ProposedData km))"
  using m
proof (cases rule: node_move.cases)
  case (commit hv ord r k0 pv k cdc t height V b h')
  have "km = k" using km commit(1) by auto
  obtain vs where vs: "Precommits r hv = Some vs" using commit(5) by (cases "Precommits r hv") (auto simp: MakeCommit_def)
  have ok: "votes_ok (N i)" using net_invD(2) [OF inv i] by (simp add: node_inv_def)
  then have "hvs_shape hv" "hvs_height hv = n_height (N i)" using commit(3) by (simp_all add: votes_ok_def)
  then have wf: "vs_wf vs" "vs_type vs = PrecommitType" "vs_height vs = n_height (N i)"
    using vs hvs_shapeD [of hv r PrecommitType vs] by (simp_all add: Precommits_lookup)
  have data: "c_ProposedData k = vs_maj23 vs" "vs_maj23 vs \<noteq> NilData"
    using commit(5,8) vs by (auto simp: MakeCommit_def SignCommit_eq split: if_splits option.splits list.splits)
  have height: "Commit_Height k = n_height (N i)"
    using MakeCommit_signed_valid [of ord vs k0 pv k cdc t] commit vs wf by simp
  have "TwoThirdsMajority (hvs_lookup hv r PrecommitType) = (vs_maj23 vs, True)"
    using vs data(2) by (simp add: Precommits_lookup TwoThirdsMajority_def)
  then have "supported Hon W vals N (n_height (N i)) r PrecommitType (vs_maj23 vs)"
    using net_invD(3) [OF inv i] ok commit(3) bftD(1) [OF bft] by (intro majority_supported)
  with data height \<open>km = k\<close> show ?thesis by auto
qed (use km in simp_all)

lemma net_inv_start:
  assumes "\<And>k. k \<in> Hon \<Longrightarrow> fresh_node F k (N k)" and "keeps_powers W F"
  shows "net_inv Hon W vals N"
proof -
  have "sound W vals A (N k)" if "k \<in> Hon" for A k
    unfolding sound_def
  proof (intro allI impI)
    fix h assume "n_votes (N k) = Some h"
    with assms(1) [OF that] obtain b where "NewHeightVoteSet (n_height (N k)) b = Inr h" unfolding fresh_node_def by blast
    then show "hvs_all (\<lambda>vs. backed (W (n_height (N k))) (vals (n_height (N k))) vs \<and> votes_within A vs) h"
      using is_fresh_sound by (rule hvs_all_new)
  qed
  with assms show ?thesis
    by (auto simp: net_inv_def fresh_node_def has_sent_def strays_def dest: keeps_powersD)
qed

lemma net_inv_move:
  assumes inv: "net_inv Hon W vals N" and bft: "bft Hon W vals" and i: "i \<in> Hon"
    and m: "node_move (authentic Hon N) F (N i) n'" and fits: "app_fits W (n_height n') (n_app n')"
  shows "net_inv Hon W vals (N(i := n'))"
proof -
  let ?N = "N(i := n')"
  note sup = supported_move [of _ _ N i n', OF m]
  have auth: "authentic Hon N \<subseteq> authentic Hon ?N" using m by (rule authentic_move)
  have "votes_ok (N i)" using net_invD(2) [OF inv i] by (simp add: node_inv_def)
  note new = sound_move [OF m net_invD(3) [OF inv i] this net_invD(4) [OF inv i] bftD(1) [OF bft]]
  have "n_key (?N k) = k \<and> node_inv (?N k) \<and> sound W vals (authentic Hon ?N) (?N k) \<and>
      app_fits W (n_height (?N k)) (n_app (?N k))" if "k \<in> Hon" for k
  proof (cases "k = i")
    case True
    then show ?thesis
      using fits sound_mono [OF new auth] sent_grows(2) [OF m] net_invD(1,2) [OF inv i] node_inv_move [OF m] by simp
  next
    case False
    then show ?thesis using net_invD(1-4) [OF inv that] sound_mono [OF _ auth] by auto
  qed
  moreover have "supported Hon W vals ?N h r PrevoteType d"
    if k: "k \<in> Hon" and pc: "has_sent ?N k h r PrecommitType d" and d: "d \<noteq> NilData" for k h r d
  proof (cases "has_sent N k h r PrecommitType d")
    case True
    from sup [OF net_invD(5) [OF inv k this d]] show ?thesis .
  next
    case False
    note sent = has_sent_new [of _ _ N i n', OF m pc False]
    have "polka (N i) r d" using sent(3,4) d by (simp add: sent_rule_def)
    from sup [OF polka_supported [OF inv bft i this]] sent(2) show ?thesis by simp
  qed
  moreover have "c_ProposedData km \<noteq> NilData \<and>
      (\<exists>r. supported Hon W vals ?N (Commit_Height km) r PrecommitType (c_ProposedData km))"
    if k: "k \<in> Hon" and km: "km \<in> set (n_commits (?N k))" for k km
  proof (cases "km \<in> set (n_commits (N k))")
    case True
    with net_invD(6) [OF inv k True] sup show ?thesis by blast
  next
    case False
    with km have "k = i" "km \<in> set (n_commits n')" by (auto split: if_splits)
    with commit_supported [OF inv bft i m, of km] False sup show ?thesis by blast
  qed
  ultimately show ?thesis
    unfolding net_inv_def using strays_move [OF inv bft i m] by blast
qed

lemma net_fits:
  assumes "net Hon F N" and "k \<in> Hon"
  shows "F (n_height (N k)) (n_app (N k))"
  using assms
proof (induction arbitrary: k)
  case (start N)
  then show ?case by (simp add: fresh_node_def)
next
  case (move N i n')
  then show ?case using fits_move [OF move.hyps(3)] by (cases "k = i") simp_all
qed

lemma net_inv_reachable:
  assumes "net Hon F N" and "keeps_powers W F" and "bft Hon W vals"
  shows "net_inv Hon W vals N"
  using assms(1)
proof induction
  case (start N)
  then show ?case using assms(2) by (rule net_inv_start)
next
  case (move N k n')
  have "F (n_height n') (n_app n')" using fits_move [OF move.hyps(3)] net_fits [OF move.hyps(1,2)] by blast
  with assms(2) have "app_fits W (n_height n') (n_app n')" by (rule keeps_powersD)
  with move.IH assms(3) move.hyps(2,3) show ?case by (rule net_inv_move)
qed


section \<open>Agreement\<close>

text \<open>A later round supports no other data once a quorum has precommitted \<open>d\<close>.\<close>

lemma no_later_support:
  assumes inv: "net_inv Hon W vals N" and bft: "bft Hon W vals" and d: "d \<noteq> NilData" and r: "r < r'"
    and pc: "supported Hon W vals N h r PrecommitType d" and pv: "supported Hon W vals N h r' PrevoteType d'"
  shows "d' = d"
proof (rule ccontr)
  assume ne: "d' \<noteq> d"
  obtain Q where Q: "quorum W vals h Q" "\<And>k. k \<in> Q \<Longrightarrow> k \<in> Hon \<Longrightarrow> has_sent N k h r PrecommitType d"
    using pc unfolding supported_def by blast
  obtain P where P: "quorum W vals h P" "\<And>k. k \<in> P \<Longrightarrow> k \<in> Hon \<Longrightarrow> has_sent N k h r' PrevoteType d'"
    using pv unfolding supported_def by blast
  obtain k where k: "k \<in> Q" "k \<in> P" "k \<in> Hon" using quorums_meet [OF bft Q(1) P(1)] by blast
  then have "strays N k h r d" using P(2) r ne by (auto simp: strays_def)
  then obtain k' where "k' \<in> Q" "k' \<in> Hon" "missed N k' h r d"
    using net_invD(7) [OF inv d Q(1) k(1,3)] by blast
  with Q(2) show False by (auto simp: missed_def)
qed

lemma supported_agree:
  assumes inv: "net_inv Hon W vals N" and bft: "bft Hon W vals" and d: "d \<noteq> NilData" "d' \<noteq> NilData"
    and "supported Hon W vals N h r PrecommitType d" and "supported Hon W vals N h r' PrecommitType d'"
  shows "d' = d"
proof -
  have later: "e' = e" if sup: "supported Hon W vals N h s PrecommitType e" "supported Hon W vals N h s' PrecommitType e'"
    and e: "e \<noteq> NilData" "e' \<noteq> NilData" and s: "s < s'" for e e' s s'
  proof -
    obtain P where P: "quorum W vals h P" "\<And>k. k \<in> P \<Longrightarrow> k \<in> Hon \<Longrightarrow> has_sent N k h s' PrecommitType e'"
      using sup(2) unfolding supported_def by blast
    obtain k where "k \<in> P" "k \<in> Hon" using quorums_meet [OF bft P(1) P(1)] by blast
    with P(2) have "supported Hon W vals N h s' PrevoteType e'" using net_invD(5) [OF inv _ _ e(2)] by blast
    from no_later_support [OF inv bft e(1) s sup(1) this] show ?thesis .
  qed
  show ?thesis
  proof (cases r r' rule: linorder_cases)
    case less
    with later [OF assms(5,6) d] show ?thesis by simp
  next
    case greater
    with later [OF assms(6,5) d(2,1)] show ?thesis by simp
  next
    case equal
    obtain P where P: "quorum W vals h P" "\<And>k. k \<in> P \<Longrightarrow> k \<in> Hon \<Longrightarrow> has_sent N k h r PrecommitType d"
      using assms(5) unfolding supported_def by blast
    obtain Q where Q: "quorum W vals h Q" "\<And>k. k \<in> Q \<Longrightarrow> k \<in> Hon \<Longrightarrow> has_sent N k h r PrecommitType d'"
      using assms(6) equal unfolding supported_def by blast
    obtain k where k: "k \<in> P" "k \<in> Q" "k \<in> Hon" using quorums_meet [OF bft P(1) Q(1)] by blast
    then obtain v w where vw: "v \<in> set (n_sent (N k))" "w \<in> set (n_sent (N k))" "vote_pos v = vote_pos w"
      "v_Proposed v = d" "v_Proposed w = d'"
      using P(2) Q(2) by (fastforce simp: has_sent_def vote_pos_def)
    have "sorted_wrt (<) (map vote_pos (n_sent (N k)))"
      using net_invD(2) [OF inv k(3)] by (simp add: node_inv_def ordered_sent_def)
    then have "distinct (map vote_pos (n_sent (N k)))" by (simp add: strict_sorted_iff)
    with vw(1-3) have "v = w" by (auto simp: distinct_map inj_on_def)
    with vw(4,5) show ?thesis by simp
  qed
qed

theorem net_agreement:
  assumes "net Hon F N" and "keeps_powers W F" and "bft Hon W vals" and "i \<in> Hon" and "j \<in> Hon"
    and "k \<in> set (n_commits (N i))" and "l \<in> set (n_commits (N j))" and "Commit_Height k = Commit_Height l"
  shows "c_ProposedData k = c_ProposedData l"
proof -
  have inv: "net_inv Hon W vals N" using assms(1-3) by (rule net_inv_reachable)
  from net_invD(6) [OF inv assms(4,6)] net_invD(6) [OF inv assms(5,7)] assms(8)
  show ?thesis using supported_agree [OF inv assms(3)] by auto
qed


section \<open>Validity\<close>

text \<open>\<open>approving good F\<close>: applications that answer as \<open>F\<close> allows approve \<open>good\<close> data only.\<close>

definition approving :: "(int \<Rightarrow> ProposedData \<Rightarrow> bool) \<Rightarrow> (int \<Rightarrow> ICommittee \<Rightarrow> bool) \<Rightarrow> bool" where
  "approving good F \<longleftrightarrow> (\<forall>h V d. F h V \<longrightarrow> ValidateProposal V d \<longrightarrow> good h d)"

lemma supported_honest:
  assumes "bft Hon W vals" and "supported Hon W vals N h r t d"
  obtains k where "k \<in> Hon" "has_sent N k h r t d"
proof -
  obtain Q where Q: "quorum W vals h Q" "\<And>k. k \<in> Q \<Longrightarrow> k \<in> Hon \<Longrightarrow> has_sent N k h r t d"
    using assms(2) unfolding supported_def by blast
  obtain k where "k \<in> Q" "k \<in> Hon" using quorums_meet [OF assms(1) Q(1) Q(1)] by blast
  with Q(2) that show thesis by blast
qed

text \<open>What honest members prevote is nil or good: the first one to prevote data has had it approved, and
  a lock rests on prevotes of honest members.\<close>

lemma prevotes_good:
  assumes "net Hon F N" and "keeps_powers W F" and "bft Hon W vals" and "approving good F"
    and "k \<in> Hon" and "has_sent N k h r PrevoteType d" and "d \<noteq> NilData"
  shows "good h d"
  using assms(1,5-7)
proof (induction arbitrary: k h r d)
  case (start N)
  then show ?case by (simp add: fresh_node_def has_sent_def)
next
  case (move N i n')
  note inv = net_inv_reachable [OF move.hyps(1) assms(2,3)]
  show ?case
  proof (cases "has_sent N k h r PrevoteType d")
    case True
    with move.IH [OF move.prems(1)] move.prems(3) show ?thesis by blast
  next
    case False
    note sent = has_sent_new [of _ _ N i n', OF move.hyps(3) move.prems(2) False]
    have rule: "prevote_rule (N i) d" using sent(4) by (simp add: sent_rule_def)
    show ?thesis
    proof (cases "n_lock (N i)")
      case None
      then have "ValidateProposal (n_app (N i)) d" using rule move.prems(3) by (simp add: prevote_rule_def)
      with net_fits [OF move.hyps(1,2)] assms(4) sent(2) show ?thesis unfolding approving_def by blast
    next
      case (Some lock)
      then obtain lr where "n_lock (N i) = Some (lr, d)" using rule by (cases lock) (simp add: prevote_rule_def)
      then have "polka (N i) lr d" using net_invD(2) [OF inv move.hyps(2)] by (simp add: node_inv_def lock_ok_def)
      from polka_supported [OF inv assms(3) move.hyps(2) this]
      obtain k' where "k' \<in> Hon" "has_sent N k' h lr PrevoteType d" using supported_honest [OF assms(3)] sent(2) by blast
      with move.IH move.prems(3) show ?thesis by blast
    qed
  qed
qed

theorem net_validity:
  assumes "net Hon F N" and "keeps_powers W F" and "bft Hon W vals" and "approving good F"
    and "i \<in> Hon" and "k \<in> set (n_commits (N i))"
  shows "good (Commit_Height k) (c_ProposedData k)"
proof -
  have inv: "net_inv Hon W vals N" using assms(1-3) by (rule net_inv_reachable)
  let ?h = "Commit_Height k" and ?d = "c_ProposedData k"
  obtain r where d: "?d \<noteq> NilData" and "supported Hon W vals N ?h r PrecommitType ?d"
    using net_invD(6) [OF inv assms(5,6)] by blast
  then obtain j where "j \<in> Hon" "has_sent N j ?h r PrecommitType ?d" using supported_honest [OF assms(3)] by blast
  then have "supported Hon W vals N ?h r PrevoteType ?d" using net_invD(5) [OF inv] d by blast
  then obtain j' where "j' \<in> Hon" "has_sent N j' ?h r PrevoteType ?d" using supported_honest [OF assms(3)] by blast
  then show ?thesis using prevotes_good [OF assms(1-4)] d by blast
qed

end
