(* ===== verification/Agreement.thy ===== *)
theory Agreement
  imports Network Core_Fixture
begin

text \<open>
  A cluster of running cores: the honest members run the code, the network delivers what it
  likes, except that a vote that carries an honest member's address is one that member has
  broadcast. Every cluster is a network of the abstract protocol, so that its honest members
  agree on what they commit.
\<close>

section \<open>Clusters\<close>

definition honest_votes :: "PubKey set \<Rightarrow> (PubKey \<Rightarrow> Core) \<Rightarrow> Vote set" where
  "honest_votes Hon C = {v. v_Address v \<in> Hon \<longrightarrow> v \<in> set (votes_in (outbox (C (v_Address v))))}"

definition brings_honest :: "PubKey set \<Rightarrow> (PubKey \<Rightarrow> Core) \<Rightarrow> core_event \<Rightarrow> bool" where
  "brings_honest Hon C e \<longleftrightarrow> (\<forall>mi \<in> received e. msg_votes (mi_Msg mi) \<subseteq> honest_votes Hon C)"

text \<open>\<open>F\<close> is what the applications of the honest members may answer at a height.\<close>

inductive cluster :: "PubKey set \<Rightarrow> (PubKey \<Rightarrow> Env) \<Rightarrow> (int \<Rightarrow> ICommittee \<Rightarrow> bool) \<Rightarrow> (PubKey \<Rightarrow> Core) \<Rightarrow> bool" for Hon envs F where
  boot: "(\<And>k. k \<in> Hon \<Longrightarrow> booted (envs k) (V k) (C k) \<and> F (Height (C k)) (V k)) \<Longrightarrow> cluster Hon envs F C"
| step: "cluster Hon envs F C \<Longrightarrow> k \<in> Hon \<Longrightarrow> event_fits F e (C k) \<Longrightarrow> brings_honest Hon C e \<Longrightarrow>
    core_step (envs k) e (C k) = Inr c \<Longrightarrow> cluster Hon envs F (C(k := c))"

text \<open>Each honest member signs with its own key, and its application goes on answering as \<open>F\<close> allows.\<close>

definition members :: "PubKey set \<Rightarrow> (PubKey \<Rightarrow> Env) \<Rightarrow> (int \<Rightarrow> ICommittee \<Rightarrow> bool) \<Rightarrow> bool" where
  "members Hon envs F \<longleftrightarrow>
     (\<forall>k \<in> Hon. PrivPubKey (privVal (envs k)) = k \<and> env_ok (envs k) \<and> env_fits F (envs k))"

definition nodes :: "(PubKey \<Rightarrow> Env) \<Rightarrow> (PubKey \<Rightarrow> Core) \<Rightarrow> PubKey \<Rightarrow> Node" where
  "nodes envs C k = node_of (envs k) (C k)"

lemma nodes_simps [simp]:
  "n_sent (nodes envs C k) = votes_in (outbox (C k))" "n_commits (nodes envs C k) = commits_in (outbox (C k))"
  "n_key (nodes envs C k) = PrivPubKey (privVal (envs k))"
  by (simp_all add: nodes_def node_of_def)

lemma nodes_upd [simp]: "nodes envs (C(k := c)) = (nodes envs C)(k := node_of (envs k) c)"
  by (simp add: nodes_def fun_eq_iff)

lemma authentic_nodes: "authentic Hon (nodes envs C) = honest_votes Hon C"
  by (simp add: authentic_def honest_votes_def)


section \<open>Clusters are networks\<close>

lemma node_move_mono:
  assumes "node_move A F n n'" and "A \<subseteq> B"
  shows "node_move B F n n'"
  using assms
proof (induction rule: node_move.induct)
  case (add_vote n h v a e h')
  then show ?case by (intro node_move.add_vote) auto
qed (rule node_move.intros; assumption)+

lemma net_moves:
  assumes "net Hon F N" and "k \<in> Hon" and "node_moves (authentic Hon N) F (N k) n"
  shows "net Hon F (N(k := n)) \<and> authentic Hon N \<subseteq> authentic Hon (N(k := n))"
  using assms(3)
proof (induction rule: rtranclp_induct)
  case base
  with assms(1) show ?case by simp
next
  case (step m n)
  have move: "node_move (authentic Hon (N(k := m))) F ((N(k := m)) k) n"
    using node_move_mono [OF step.hyps(2) conjunct2 [OF step.IH]] by (simp only: fun_upd_same)
  have "net Hon F (N(k := n))"
    using net.move [OF conjunct1 [OF step.IH] assms(2) move] by (simp only: fun_upd_upd)
  moreover have "authentic Hon (N(k := m)) \<subseteq> authentic Hon (N(k := n))"
    using authentic_move [where N = "N(k := m)" and i = k, OF move] by (simp only: fun_upd_upd)
  ultimately show ?case using conjunct2 [OF step.IH] by (intro conjI) (assumption, rule subset_trans)
qed

lemma net_sent_key:
  assumes "net Hon F N" and "k \<in> Hon"
  shows "n_key (N k) = k" and "v \<in> set (n_sent (N k)) \<Longrightarrow> v_Address v = k"
proof -
  have "n_key (N k) = k \<and> (\<forall>v \<in> set (n_sent (N k)). v_Address v = k)"
    using assms
  proof (induction arbitrary: k)
    case (start N)
    then show ?case by (simp add: fresh_node_def)
  next
    case (move N i n')
    show ?case
    proof (cases "k = i")
      case True
      have "n_key n' = i" using sent_grows(2) [OF move.hyps(3)] move.IH [OF move.hyps(2)] by simp
      moreover have "v_Address v = i" if "v \<in> set (n_sent n')" for v
        using sent_new(5) [OF move.hyps(3) that] move.IH [OF move.hyps(2)] by (cases "v \<in> set (n_sent (N i))") simp_all
      ultimately show ?thesis using True by simp
    next
      case False
      with move.IH [OF move.prems] show ?thesis by simp
    qed
  qed
  then show "n_key (N k) = k" and "v \<in> set (n_sent (N k)) \<Longrightarrow> v_Address v = k" by simp_all
qed

lemma booted_fresh:
  assumes "booted env V c" and "PrivPubKey (privVal env) = k" and "F (Height c) V"
  shows "fresh_node F k (node_of env c)" and "safe c" and "msgQueue c = []"
proof -
  obtain st where st: "GetAppState V = Some st" "0 \<le> LastHeight st" "LastHeight st < max_int64"
    and start: "Start env (NewCore V) = Inr (None, c)" using assms(1) by (auto simp: booted_def)
  have new: "GetAppState (app (NewCore V)) = Some st" "Height (NewCore V) \<le> 0" "msgQueue (NewCore V) = []" "app (NewCore V) = V"
    using st(1) by (simp_all add: NewCore_def)
  from start new(1) st(2,3) obtain hvs where c: "Height c = LastHeight st + 1" "app c = app (NewCore V)" "Votes c = Some hvs"
    "msgQueue c = msgQueue (NewCore V)" "NewHeightVoteSet (LastHeight st + 1) (LastProposedData st) = Inr hvs"
    by (rule Start_Inr) (simp_all add: new)
  show "fresh_node F k (node_of env c)"
    using booted_spec [OF assms(1)] assms(2,3) c new by (simp add: fresh_node_def node_of_def) blast
  show "safe c" using booted_spec(1) [OF assms(1)] .
  show "msgQueue c = []" using c(4) new(3) by simp
qed

lemma cluster_net:
  assumes "cluster Hon envs F C" and "members Hon envs F"
  shows "net Hon F (nodes envs C) \<and> (\<forall>k \<in> Hon. safe (C k) \<and> queued (C k) \<subseteq> honest_votes Hon C)"
  using assms(1)
proof induction
  case (boot V C)
  have "fresh_node F k (nodes envs C k) \<and> safe (C k) \<and> queued (C k) = {}" if "k \<in> Hon" for k
    using booted_fresh [of "envs k" "V k" "C k" k F] boot [OF that] assms(2) that
    by (simp add: members_def nodes_def queued_def)
  then show ?case by (auto intro: net.start)
next
  case (step C k e c)
  let ?N = "nodes envs C" and ?N' = "nodes envs (C(k := c))"
  have net: "net Hon F ?N" and safe: "\<And>k. k \<in> Hon \<Longrightarrow> safe (C k)"
    and queue: "\<And>k. k \<in> Hon \<Longrightarrow> queued (C k) \<subseteq> honest_votes Hon C" using step.IH by auto
  have env: "env_ok (envs k)" "env_fits F (envs k)" using assms(2) step.hyps(2) by (simp_all add: members_def)
  note run = core_step_sim [OF step.hyps(5,3) env queue [OF step.hyps(2)] safe [OF step.hyps(2)]]
  have moves: "node_moves (authentic Hon ?N) F (?N k) (node_of (envs k) c)"
    using run(2) by (simp add: authentic_nodes nodes_def)
  note next_net = net_moves [OF net step.hyps(2) moves, folded nodes_upd, unfolded authentic_nodes]
  then have net': "net Hon F ?N'" and grow: "honest_votes Hon C \<subseteq> honest_votes Hon (C(k := c))"
    by (rule conjunct1, rule conjunct2)
  have own: "v \<in> honest_votes Hon (C(k := c))" if "v \<in> set (votes_in (outbox c))" for v
  proof -
    have "v \<in> set (n_sent (?N' k))" using that by (simp add: node_of_def)
    then have "v_Address v = k" by (rule net_sent_key(2) [OF net' step.hyps(2)])
    with that show ?thesis by (simp add: honest_votes_def)
  qed
  have "queued c \<subseteq> honest_votes Hon (C(k := c))"
  proof
    fix v assume "v \<in> queued c"
    then obtain mi where mi: "mi \<in> set (msgQueue c)" "v \<in> msg_votes (mi_Msg mi)" by (auto simp: queued_def)
    with run(4) consider "mi \<in> set (msgQueue (C k))" | "mi \<in> received e" | "mi \<in> own_votes c" by blast
    then show "v \<in> honest_votes Hon (C(k := c))"
    proof cases
      case 1
      then have "v \<in> queued (C k)" using mi(2) by (auto simp: queued_def)
      with queue [OF step.hyps(2)] grow show ?thesis by blast
    next
      case 2
      with step.hyps(4) mi(2) grow show ?thesis unfolding brings_honest_def by blast
    next
      case 3
      then obtain w where "w \<in> set (votes_in (outbox c))" "mi_Msg mi = MVote w" by (auto simp: own_votes_def)
      with mi(2) own show ?thesis by (simp add: msg_votes_def)
    qed
  qed
  then have "\<forall>i \<in> Hon. safe ((C(k := c)) i) \<and> queued ((C(k := c)) i) \<subseteq> honest_votes Hon (C(k := c))"
    using safe queue run(1) subset_trans [OF queue grow] by simp
  with net' show ?case by blast
qed


section \<open>Agreement of the running code\<close>




section \<open>An example\<close>

text \<open>Three honest members out of four; the fourth votes as it likes.\<close>

definition fx_hon :: "PubKey set" where
  "fx_hon = {''a'', ''b'', ''c''}"

definition fx_envs :: "PubKey \<Rightarrow> Env" where
  "fx_envs k = fx_env\<lparr>privVal := \<lparr>PrivPubKey = k, PrivSign = (\<lambda>_. [1])\<rparr>\<rparr>"

definition fx_W :: "int \<Rightarrow> ICommittee" where
  "fx_W h = fx_committee"

text \<open>Their applications approve one block only.\<close>

definition fx_picky :: ICommittee where
  "fx_picky = fx_committee\<lparr>ValidateProposal := (\<lambda>d. d = fx_data)\<rparr>"

definition fx_F :: "int \<Rightarrow> ICommittee \<Rightarrow> bool" where
  "fx_F h V \<longleftrightarrow> app_fits fx_W h V \<and> (\<forall>d. ValidateProposal V d \<longrightarrow> d = fx_data)"

lemma fx_F_powers: "keeps_powers fx_W fx_F" and fx_F_approving: "approving (\<lambda>h d. d = fx_data) fx_F"
  by (simp_all add: keeps_powers_def approving_def fx_F_def)

lemma fx_bft: "bft fx_hon fx_W (\<lambda>_. fx_keys)"
proof -
  have "set fx_keys - fx_hon = {''d''}" by (auto simp: fx_keys_def fx_hon_def)
  then show ?thesis
    using fx_committee_total fx_total_ok powers_within_nonneg [OF fx_powers_within]
    by (simp add: bft_def committee_ok_def fx_W_def tally_def fx_power fx_total)
qed

text \<open>A stretch of events at one member, which brings votes of others only.\<close>

definition quiet :: "PubKey set \<Rightarrow> (PubKey \<Rightarrow> Core) \<Rightarrow> PubKey \<Rightarrow> core_event \<Rightarrow> bool" where
  "quiet Hon C k e \<longleftrightarrow> (case e of EvApp V \<Rightarrow> False | EvStart \<Rightarrow> False | _ \<Rightarrow> True) \<and>
     (\<forall>mi \<in> received e. \<forall>v \<in> msg_votes (mi_Msg mi). v_Address v \<noteq> k \<and> v \<in> honest_votes Hon C)"

lemma quiet_upd: "quiet Hon C k e \<Longrightarrow> quiet Hon (C(k := c)) k e"
  unfolding quiet_def honest_votes_def by simp

lemma cluster_stretch:
  assumes "run_steps (core_step (envs k)) es (C k) = Inr c" and "cluster Hon envs F C" and "k \<in> Hon"
    and "list_all (quiet Hon C k) es"
  shows "cluster Hon envs F (C(k := c))"
  using assms
proof (induction es arbitrary: C)
  case (Cons e es)
  from Cons.prems(1) obtain c1 where c1: "core_step (envs k) e (C k) = Inr c1" "run_steps (core_step (envs k)) es c1 = Inr c"
    by (auto elim!: and_then_InrE)
  have "event_fits F e (C k)" "brings_honest Hon C e" using Cons.prems(4)
    by (auto simp: quiet_def event_fits_def brings_honest_def split: core_event.splits)
  with Cons.prems(2,3) c1(1) have "cluster Hon envs F (C(k := c1))" by (intro cluster.step)
  moreover have "list_all (quiet Hon (C(k := c1)) k) es"
    using Cons.prems(4) by (auto simp: list_all_iff intro: quiet_upd)
  ultimately have "cluster Hon envs F ((C(k := c1))(k := c))"
    using Cons.IH [of "C(k := c1)"] c1(2) Cons.prems(3) by (simp only: fun_upd_same)
  then show ?case by (simp only: fun_upd_upd)
next
  case Nil
  then have "c = C k" by simp
  with Nil.prems(2) show ?case by (simp only: fun_upd_triv)
qed

text \<open>The vote of member \<open>s\<close> arrives and is handled; the members start with a timeout.\<close>

definition fx_sent :: "VoteType \<Rightarrow> PubKey \<Rightarrow> Vote" where
  "fx_sent t s = (fx_own t 0 fx_data)\<lparr>v_Address := s\<rparr>"

definition fx_from :: "VoteType \<Rightarrow> PubKey \<Rightarrow> core_event list" where
  "fx_from t s = [EvRecv (MVote (fx_sent t s)) (Some 1), EvMsg]"

text \<open>\<open>''b''\<close> proposes and prevotes, \<open>''a''\<close> locks, \<open>''b''\<close> commits, and \<open>''a''\<close> commits.\<close>

definition fx_b1_events :: "core_event list" where
  "fx_b1_events = [EvTock fx_ti, EvMsg, EvMsg]"

definition fx_a2_events :: "core_event list" where
  "fx_a2_events = [EvTock fx_ti] @ fx_from ProposalType ''b'' @ [EvMsg] @ fx_from PrevoteType ''b'' @ fx_from PrevoteType ''d'' @ [EvMsg]"

definition fx_b3_events :: "core_event list" where
  "fx_b3_events = fx_from PrevoteType ''a'' @ fx_from PrevoteType ''d'' @ [EvMsg] @ fx_from PrecommitType ''a'' @ fx_from PrecommitType ''d''"

definition fx_a4_events :: "core_event list" where
  "fx_a4_events = fx_from PrecommitType ''b'' @ fx_from PrecommitType ''d''"

definition fx_cluster0 :: "PubKey \<Rightarrow> Core" where
  "fx_cluster0 k = snd (projr (Start (fx_envs k) (NewCore fx_picky)))"

definition fx_at :: "PubKey \<Rightarrow> core_event list \<Rightarrow> Core" where
  "fx_at k es = projr (run_steps (core_step (fx_envs k)) es (fx_cluster0 k))"

definition fx_cluster :: "PubKey \<Rightarrow> Core" where
  "fx_cluster = fx_cluster0(''b'' := fx_at ''b'' (fx_b1_events @ fx_b3_events), ''a'' := fx_at ''a'' (fx_a2_events @ fx_a4_events))"

lemma fx_envs_simps [simp]:
  "privVal (fx_envs k) = \<lparr>PrivPubKey = k, PrivSign = (\<lambda>_. [1])\<rparr>" "clock (fx_envs k) n = 1000" "map_order (fx_envs k) n = fx_order"
  "codec (fx_envs k) = fx_codec" "AppCommit (fx_envs k) n km V = V\<lparr>GetAppState := Some (fx_app (min (2 ^ 62) (Commit_Height km)))\<rparr>"
  by (simp_all add: fx_envs_def fx_env_def)

lemma fx_picky_simps [simp]:
  "GetValidator fx_picky = GetValidator fx_committee" "GetAppState fx_picky = Some (fx_app 0)" "IsValidator fx_picky = IsValidator fx_committee"
  "GetCurrentProposer fx_picky r = ''b''" "ValidateProposal fx_picky d = (d = fx_data)" "DecidesProposal fx_picky = fx_data"
  "VerifyVote fx_picky = VerifyVote fx_committee" "GetCommitHistory fx_picky = GetCommitHistory fx_committee"
  "TotalVotingPower fx_picky = TotalVotingPower fx_committee" "GetVotingPower fx_picky = GetVotingPower fx_committee"
  "ValidatorNum fx_picky = ValidatorNum fx_committee" "quorum_of fx_picky = 3" "two_thirds fx_picky = 2"
  using fx_quorum
  by (simp_all add: fx_picky_def GetVotingPower_def VerifyVote_eq GetTotalVotingPower_def quorum_of_def two_thirds_def fun_eq_iff)

lemma fx_fits_picky: "fx_F h fx_picky"
  by (simp add: fx_F_def same_powers_def fx_W_def)

lemma fx_members: "members fx_hon fx_envs fx_F"
proof -
  have power: "GetVotingPower (V\<lparr>GetAppState := st\<rparr>) = GetVotingPower V" for V st
    by (simp add: GetVotingPower_def fun_eq_iff)
  show ?thesis
    using fx_range_order
    by (auto simp: members_def env_ok_def env_fits_def fx_hon_def min_def same_powers_def power fx_F_def fx_W_def)
qed

lemma fx_cluster0_cluster: "cluster fx_hon fx_envs fx_F fx_cluster0"
proof (rule cluster.boot)
  fix k assume "k \<in> fx_hon"
  then have "env_ok (fx_envs k)" using fx_members by (simp add: members_def)
  moreover have "Start (fx_envs k) (NewCore fx_picky) = Inr (None, fx_cluster0 k)"
    by (simp add: start_eval round_eval fx_cluster0_def NilData_def is_int64_def)
  ultimately show "booted (fx_envs k) fx_picky (fx_cluster0 k) \<and> fx_F (Height (fx_cluster0 k)) fx_picky"
    by (simp add: booted_def fx_picky_simps fx_fits_picky)
qed

lemma fx_report_at:
  assumes "fx_report (run_steps (core_step (fx_envs k)) es (fx_cluster0 k)) = Some (HRS h r st, vs, ks)"
  shows "run_steps (core_step (fx_envs k)) es (fx_cluster0 k) = Inr (fx_at k es)"
    and "votes_in (outbox (fx_at k es)) = vs"
    and "map (\<lambda>k. (Commit_Height k, c_ProposedData k)) (commits_in (outbox (fx_at k es))) = ks"
  using fx_reported [OF assms] by (simp_all add: fx_at_def)

lemma fx_at_append:
  assumes "run_steps (core_step (fx_envs k)) es (fx_cluster0 k) = Inr c"
    and "run_steps (core_step (fx_envs k)) (es @ es') (fx_cluster0 k) = Inr c'"
  shows "run_steps (core_step (fx_envs k)) es' c = Inr c'"
  using assms by (simp add: run_steps_append)

lemmas fx_at_eval = fx_b1_events_def fx_a2_events_def fx_b3_events_def fx_a4_events_def fx_from_def fx_sent_def
  fx_cluster0_def fx_run_eval doPropose_def cfg_Propose_def votes_in_def commits_in_def

lemma fx_b1_report:
  "fx_report (run_steps (core_step (fx_envs ''b'')) fx_b1_events (fx_cluster0 ''b'')) =
     Some (HRS 1 0 RoundStepPrevoteFetch, [fx_sent ProposalType ''b'', fx_sent PrevoteType ''b''], [])"
  by (simp add: fx_at_eval)

lemma fx_a2_report:
  "fx_report (run_steps (core_step (fx_envs ''a'')) fx_a2_events (fx_cluster0 ''a'')) =
     Some (HRS 1 0 RoundStepPrecommitFetch, [fx_sent PrevoteType ''a'', fx_sent PrecommitType ''a''], [])"
  by (simp add: fx_at_eval)

lemma fx_b3_report:
  "fx_report (run_steps (core_step (fx_envs ''b'')) (fx_b1_events @ fx_b3_events) (fx_cluster0 ''b'')) =
     Some (HRS 2 0 RoundStepNewHeight,
       [fx_sent ProposalType ''b'', fx_sent PrevoteType ''b'', fx_sent PrecommitType ''b''], [(1, 7)])"
  by (simp add: fx_at_eval)

lemma fx_a4_report:
  "fx_report (run_steps (core_step (fx_envs ''a'')) (fx_a2_events @ fx_a4_events) (fx_cluster0 ''a'')) =
     Some (HRS 2 0 RoundStepNewHeight, [fx_sent PrevoteType ''a'', fx_sent PrecommitType ''a''], [(1, 7)])"
  by (simp add: fx_at_eval)

lemmas fx_b1_run = fx_report_at(1) [OF fx_b1_report]
lemmas fx_a2_run = fx_report_at(1) [OF fx_a2_report]
lemmas fx_b3_run = fx_at_append [OF fx_b1_run fx_report_at(1) [OF fx_b3_report]]
lemmas fx_a4_run = fx_at_append [OF fx_a2_run fx_report_at(1) [OF fx_a4_report]]
lemmas fx_b1_sent = fx_report_at(2) [OF fx_b1_report]
lemmas fx_a2_sent = fx_report_at(2) [OF fx_a2_report]
lemmas fx_b3_sent = fx_report_at(2,3) [OF fx_b3_report]
lemmas fx_a4_sent = fx_report_at(3) [OF fx_a4_report]

lemma fx_quiet_from:
  assumes "s \<noteq> k" and "s \<notin> fx_hon \<or> fx_sent t s \<in> set (votes_in (outbox (C s)))"
  shows "list_all (quiet fx_hon C k) (fx_from t s)"
  using assms by (auto simp: fx_from_def quiet_def msg_votes_def honest_votes_def fx_sent_def)

lemma fx_quiet_turn [simp]: "quiet fx_hon C k EvMsg" "quiet fx_hon C k (EvTock ti)"
  by (simp_all add: quiet_def)

lemma fx_hon_mem [simp]: "''a'' \<in> fx_hon" "''b'' \<in> fx_hon" "''d'' \<notin> fx_hon"
  by (simp_all add: fx_hon_def)

lemma fx_cluster_reached: "cluster fx_hon fx_envs fx_F fx_cluster"
proof -
  let ?C1 = "fx_cluster0(''b'' := fx_at ''b'' fx_b1_events)"
  let ?C2 = "?C1(''a'' := fx_at ''a'' fx_a2_events)"
  let ?C3 = "?C2(''b'' := fx_at ''b'' (fx_b1_events @ fx_b3_events))"
  let ?C4 = "?C3(''a'' := fx_at ''a'' (fx_a2_events @ fx_a4_events))"
  have 1: "cluster fx_hon fx_envs fx_F ?C1"
    by (rule cluster_stretch [OF fx_b1_run fx_cluster0_cluster]) (simp_all add: fx_b1_events_def)
  have 2: "cluster fx_hon fx_envs fx_F ?C2"
    by (rule cluster_stretch [OF _ 1, where es = fx_a2_events])
      (simp add: fx_a2_run, simp, simp add: fx_a2_events_def fx_quiet_from fx_b1_sent)
  have 3: "cluster fx_hon fx_envs fx_F ?C3"
    by (rule cluster_stretch [OF _ 2, where es = fx_b3_events])
      (simp add: fx_b3_run, simp, simp add: fx_b3_events_def fx_quiet_from fx_a2_sent)
  have 4: "cluster fx_hon fx_envs fx_F ?C4"
    by (rule cluster_stretch [OF _ 3, where es = fx_a4_events])
      (simp add: fx_a4_run, simp, simp add: fx_a4_events_def fx_quiet_from fx_b3_sent)
  have "?C4 = fx_cluster" by (simp add: fx_cluster_def fun_eq_iff)
  with 4 show ?thesis by simp
qed



end
