(* ===== verification/Timeouts.thy ===== *)
theory Timeouts
  imports Core_Fixture
begin

text \<open>
  The timeouts a core schedules, in order: they climb through the positions of the node, the fetch
  steps alone repeat, and the last one is for the position the node is at. So a node always has a
  timeout to wake it where it stands, and the ticker drops none of them.
\<close>

section \<open>Paths of timeouts\<close>

definition fetch_step :: "RoundStepType \<Rightarrow> bool" where
  "fetch_step s \<longleftrightarrow> s = RoundStepPrevoteFetch \<or> s = RoundStepPrecommitFetch"

definition next_tick :: "HRS \<Rightarrow> timeoutInfo \<Rightarrow> bool" where
  "next_tick p ti \<longleftrightarrow>
     (p < ti_hrs ti \<or> p = ti_hrs ti \<and> fetch_step (ti_Step ti)) \<and>
     (ti_Step ti = RoundStepNewHeight \<longrightarrow> ti_Round ti = 0)"

text \<open>From position \<open>p\<close> the timeouts lead to position \<open>q\<close>.\<close>

fun tick_path :: "HRS \<Rightarrow> timeoutInfo list \<Rightarrow> HRS \<Rightarrow> bool" where
  "tick_path p [] q \<longleftrightarrow> p = q"
| "tick_path p (ti # tis) q \<longleftrightarrow> next_tick p ti \<and> tick_path (ti_hrs ti) tis q"

lemma tick_path_append: "tick_path p us q \<Longrightarrow> tick_path q vs r \<Longrightarrow> tick_path p (us @ vs) r"
  by (induction us arbitrary: p) auto

lemma tick_path_split: "tick_path p (us @ vs) r \<Longrightarrow> \<exists>q. tick_path p us q \<and> tick_path q vs r"
  by (induction us arbitrary: p) auto

lemma tick_path_last: "tick_path p us q \<Longrightarrow> us \<noteq> [] \<Longrightarrow> ti_hrs (last us) = q"
  by (induction us arbitrary: p) (auto split: if_splits)

lemma tick_path_ne: "tick_path p us q \<Longrightarrow> p \<noteq> q \<Longrightarrow> us \<noteq> []"
  by auto

lemma tick_path_new_height:
  "tick_path p us q \<Longrightarrow> ti \<in> set us \<Longrightarrow> ti_Step ti = RoundStepNewHeight \<Longrightarrow> ti_Round ti = 0"
  by (induction us arbitrary: p) (auto simp: next_tick_def)

lemma next_tick_accepted: "next_tick (ti_hrs ti) newti \<Longrightarrow> \<not> ticker_ignores ti newti"
  by (auto simp: next_tick_def fetch_step_def ticker_ignores_def ti_hrs_def HRS_less)

definition ticked :: "Core \<Rightarrow> Core \<Rightarrow> bool" where
  "ticked c c' \<longleftrightarrow> (\<exists>us. ticks c' = ticks c @ us \<and> tick_path (c_pos c) us (c_pos c'))"

lemma ticked_refl [simp]: "ticked c c"
  by (simp add: ticked_def)

lemma ticked_trans [trans]:
  assumes "ticked a b" and "ticked b c"
  shows "ticked a c"
proof -
  obtain us vs where "ticks b = ticks a @ us" "tick_path (c_pos a) us (c_pos b)"
    "ticks c = ticks b @ vs" "tick_path (c_pos b) vs (c_pos c)" using assms by (auto simp: ticked_def)
  then show ?thesis unfolding ticked_def by (intro exI [of _ "us @ vs"]) (simp add: tick_path_append)
qed

lemma ticked_silent:
  assumes "ticks c' = ticks c" and "Height c' = Height c" and "Round c' = Round c" and "Step c' = Step c"
  shows "ticked c c'"
  using assms by (simp add: ticked_def c_pos_def)

text \<open>Between a first change of the position and the timeout that follows it, only the last one counts.\<close>

definition ticks_on :: "HRS \<Rightarrow> Core \<Rightarrow> Core \<Rightarrow> bool" where
  "ticks_on p c c' \<longleftrightarrow> (\<exists>ti us. ticks c' = ticks c @ ti # us \<and> next_tick p ti \<and> tick_path (ti_hrs ti) us (c_pos c'))"

lemma ticks_on_ticked: "ticks_on (c_pos c) c c' \<Longrightarrow> ticked c c'"
  by (fastforce simp: ticks_on_def ticked_def)

lemma ticks_on_one:
  "ticks c' = ticks c @ [ti] \<Longrightarrow> ti_hrs ti = c_pos c' \<Longrightarrow> next_tick p ti \<Longrightarrow> ticks_on p c c'"
  by (auto simp: ticks_on_def)

lemma ticks_on_trans: "ticks_on p a b \<Longrightarrow> ticked b c \<Longrightarrow> ticks_on p a c"
  by (fastforce simp: ticks_on_def ticked_def intro: tick_path_append)

lemma ticks_on_from: "ticks_on p a b \<Longrightarrow> ticks a = ticks c \<Longrightarrow> q \<le> p \<Longrightarrow> ticks_on q c b"
  unfolding ticks_on_def next_tick_def by (auto intro: le_less_trans)

lemma ticks_on_grow: "ticks_on p c c' \<Longrightarrow> ticks c' \<noteq> ticks c"
  by (auto simp: ticks_on_def)


section \<open>The handlers\<close>

lemma step_lt: "\<not> (Round c = r \<and> s \<le> Step c) \<Longrightarrow> \<not> r < Round c \<Longrightarrow> Round c < r \<or> Round c = r \<and> Step c < s"
  by auto

lemmas tick_defs = update_defs c_pos_def ti_hrs_def next_tick_def fetch_step_def HRS_less

lemma enterPrevote_ticked: "ticked c (enterPrevote env h r c)"
proof (cases "Height c \<noteq> h \<or> r < Round c \<or> (Round c = r \<and> RoundStepPrevote \<le> Step c)")
  case False
  then have "Round c < r \<or> Round c = r \<and> Step c < RoundStepPrevote" by auto
  moreover have "Step c < RoundStepPrevote \<Longrightarrow> Step c < RoundStepPrevoteFetch"
    by (erule less_trans) (simp add: step_defs)
  moreover have "RoundStepPrevoteFetch \<noteq> RoundStepNewHeight" by (simp add: step_defs)
  ultimately show ?thesis using False
    by (intro ticks_on_ticked ticks_on_one) (auto simp: enterPrevote_def enterPrevoteFetch_def doPrevote_def tick_defs)
qed (auto simp: enterPrevote_def)

lemma enterPropose_ticks:
  assumes "Height c = h" and "Round c < r \<or> Round c = r \<and> Step c < RoundStepPropose"
  shows "ticks_on (c_pos c) c (enterPropose env h r c)"
proof -
  let ?c1 = "scheduleTimeout (cfg_Propose (cfg c) r) h r RoundStepPropose c"
  define c3 where "c3 = updateRoundStep r RoundStepPropose
    (if \<not> IsValidator (app ?c1) (GetSelfPubKey (privVal env)) then ?c1
     else if GetCurrentProposer (app ?c1) (Round ?c1) = GetSelfPubKey (privVal env)
     then doPropose env h r ?c1 else ?c1)"
  have "\<not> (Height c \<noteq> h \<or> r < Round c \<or> (Round c = r \<and> RoundStepPropose \<le> Step c))" using assms by auto
  then have ep: "enterPropose env h r c = (if isReadyToPrevote c3 then enterPrevote env h (Round c3) c3 else c3)"
    unfolding enterPropose_def Let_def c3_def by (simp only: simp_thms if_False)
  have "ticks_on (c_pos c) c c3"
    using assms by (intro ticks_on_one) (auto simp: c3_def tick_defs step_defs)
  then show ?thesis unfolding ep by (auto intro: ticks_on_trans enterPrevote_ticked)
qed

lemma enterNewRound_ticks:
  assumes "enterNewRound env h r c = Inr c'"
    and "\<not> (Height c \<noteq> h \<or> r < Round c \<or> (Round c = r \<and> Step c \<noteq> RoundStepNewHeight))"
  shows "ticks_on (c_pos c) c c'"
  using assms(1)
proof (cases rule: enterNewRound_Inr)
  case (enter hvs hvs' c1)
  have pos: "c_pos c \<le> c_pos c1" using enter(2)
    by (auto simp: enter(5) c_pos_def HRS_le step_defs)
  have "ticks_on (c_pos c1) c1 c'" unfolding enter(6)
    by (rule enterPropose_ticks) (simp_all add: enter(1,5) step_defs)
  then show ?thesis by (rule ticks_on_from) (use pos in \<open>simp_all add: enter(5)\<close>)
qed (use assms(2) in blast)

lemma enterNewRound_ticked: "enterNewRound env h r c = Inr c' \<Longrightarrow> ticked c c'"
  using enterNewRound_ticks [THEN ticks_on_ticked, of env h r c c']
  by (cases "Height c \<noteq> h \<or> r < Round c \<or> (Round c = r \<and> Step c \<noteq> RoundStepNewHeight)") (auto simp: enterNewRound_def)

lemma enterPrevoteWait_ticked:
  assumes "enterPrevoteWait env h r c = Inr c'"
  shows "ticked c c'"
proof (cases "Height c \<noteq> h \<or> r < Round c \<or> (Round c = r \<and> RoundStepPrevoteWait \<le> Step c)")
  case False
  then have c': "c' = updateRoundStep r RoundStepPrevoteWait
      (scheduleTimeout (cfg_Prevote (cfg c) r) h r RoundStepPrevoteWait c)"
    using assms by (auto simp: enterPrevoteWait_def elim!: and_then_InrE split: if_splits)
  show ?thesis unfolding c' using False
    by (intro ticks_on_ticked ticks_on_one) (auto simp: tick_defs step_defs)
qed (use assms in \<open>auto simp: enterPrevoteWait_def\<close>)

lemma enterPrecommitWait_ticked:
  assumes "enterPrecommitWait env h r c = Inr c'"
  shows "ticked c c'"
proof (cases "Height c \<noteq> h \<or> r < Round c \<or> (Round c = r \<and> RoundStepPrecommitWait \<le> Step c)")
  case False
  then have c': "c' = updateRoundStep r RoundStepPrecommitWait
      (scheduleTimeout (cfg_Precommit (cfg c) r) h r RoundStepPrecommitWait c)"
    using assms by (auto simp: enterPrecommitWait_def elim!: and_then_InrE split: if_splits)
  show ?thesis unfolding c' using False
    by (intro ticks_on_ticked ticks_on_one) (auto simp: tick_defs step_defs)
qed (use assms in \<open>auto simp: enterPrecommitWait_def\<close>)

lemma precommit_polka_frame:
  assumes "precommit_polka env r d v c = Inr c2"
  shows "ticks c2 = ticks c" "Height c2 = Height c" "Round c2 = Round c" "Step c2 = Step c"
  using assms by (atomize (full), cases rule: precommit_polka_Inr) simp_all

lemma done_enterPrecommit_ticks:
  assumes "Round c < r \<or> Round c = r \<and> Step c < RoundStepPrecommit"
    and "ticks c2 = ticks c" "Height c2 = Height c"
  shows "ticks_on (c_pos c) c (done_enterPrecommit r c2)"
proof -
  have "Step c < RoundStepPrecommit \<Longrightarrow> Step c < RoundStepPrecommitFetch"
    by (erule less_trans) (simp add: step_defs)
  moreover have "RoundStepPrecommitFetch \<noteq> RoundStepNewHeight" by (simp add: step_defs)
  ultimately show ?thesis using assms
    by (intro ticks_on_one) (auto simp: done_enterPrecommit_def enterPrecommitFetch_def Let_def tick_defs)
qed

lemma enterPrecommit_ticks:
  assumes "enterPrecommit env h r c = Inr c'"
    and "\<not> (Height c \<noteq> h \<or> r < Round c \<or> (Round c = r \<and> RoundStepPrecommit \<le> Step c))"
  shows "ticks_on (c_pos c) c c'"
proof -
  from assms(2) have pos: "Round c < r \<or> Round c = r \<and> Step c < RoundStepPrecommit" and "Height c = h" by auto
  let ?v = "new_vote env PrecommitType h r NilData c"
  obtain hvs where hvs: "Votes c = Some hvs" using assms by (auto simp: enterPrecommit_def elim!: and_then_InrE)
  note res = assms(1) [unfolded enterPrecommit_def if_not_P [OF assms(2)] hvs deref_simps and_then_simps Let_def]
  show ?thesis
  proof (cases "Prevotes r hvs" rule: TwoThirdsMajority_cases)
    case none
    with res have c': "c' = done_enterPrecommit r (signAddVote env ?v (next_read c))" by simp
    show ?thesis unfolding c' by (rule done_enterPrecommit_ticks [OF pos]) (simp_all add: next_read_def)
  next
    case (some d)
    with res obtain c2 where c2: "precommit_polka env r d ?v (next_read c) = Inr c2" and c': "c' = done_enterPrecommit r c2"
      by (auto elim!: and_then_InrE split: if_splits)
    show ?thesis unfolding c'
      by (rule done_enterPrecommit_ticks [OF pos]) (simp_all add: precommit_polka_frame [OF c2] next_read_def)
  qed
qed

lemma enterPrecommit_ticked: "enterPrecommit env h r c = Inr c' \<Longrightarrow> ticked c c'"
  using enterPrecommit_ticks [THEN ticks_on_ticked, of env h r c c']
  by (cases "Height c \<noteq> h \<or> r < Round c \<or> (Round c = r \<and> RoundStepPrecommit \<le> Step c)") (auto simp: enterPrecommit_def)

lemma enterCommit_ticked:
  assumes "enterCommit env h r c = Inr c'" and "env_ok env" and "0 \<le> r" and "0 < Height c"
  shows "ticked c c'"
  using assms(1,2)
proof (cases rule: enterCommit_Inr)
  case (commit hvs d k0 k st c3 c4 t out)
  from commit(12) obtain hvs' lp rd st' where
    ng: "\<not> (CommitRound c3 > -1 \<and> 0 < Height c3 \<and> Height c3 > LastHeight st)"
    and c4: "c4 = c3\<lparr>Height := wrap64 (LastHeight st + 1), Round := 0, Step := RoundStepNewHeight, inFetch := False,
      reads := rd, StartTime := st', Proposal := None, LockedRound := -1, LockedProposal := None,
      CommitRound := -1, LastCommit := lp, lastCommittedData := LastProposedData st, Votes := Some hvs'\<rparr>"
    by (rule updateToAppState_Inr)
  have "Height c < Height c4"
    using ng assms(3,4) commit(9) by (simp add: c4 commit(10) wrap64_idI)
  then show ?thesis
    by (intro ticks_on_ticked ticks_on_one)
      (auto simp: commit(13) scheduleRound0_def Let_def c4 commit(10) tick_defs)
qed simp

lemma fetchMissingVotes_ticks:
  assumes "fetchMissingVotes env c = Inr c'" and "fetch_step (Step c)"
  shows "ticks_on (c_pos c) c c'"
proof -
  have eq: "(if Step c = RoundStepPrevoteFetch then RoundStepPrevoteFetch else RoundStepPrecommitFetch) = Step c"
    using assms(2) by (auto simp: fetch_step_def)
  obtain m where c': "c' = (scheduleTimeout FetchInterval (Height c) (Round c) (Step c)
      (call_app (Send m None) (next_read c)))\<lparr>inFetch := True\<rparr>"
    using assms unfolding fetchMissingVotes_def Let_def eq fetch_step_def
    by (auto simp: update_defs elim!: and_then_InrE split: if_splits)
  have "Step c \<noteq> RoundStepNewHeight" using assms(2) by (auto simp: fetch_step_def step_defs)
  then show ?thesis unfolding c' using assms(2)
    by (intro ticks_on_one) (auto simp: tick_defs)
qed

lemma fetchMissingVotes_ticked: "fetchMissingVotes env c = Inr c' \<Longrightarrow> ticked c c'"
  using fetchMissingVotes_ticks [THEN ticks_on_ticked, of env c c']
  by (cases "fetch_step (Step c)") (auto simp: fetchMissingVotes_def fetch_step_def)

lemma defaultSetProposal_ticked:
  assumes "defaultSetProposal env v c = (e, c')"
  shows "ticked c c'"
proof (cases "c' = enterPrevote env (Height c) (Round c) (c\<lparr>Proposal := Some v\<rparr>)")
  case True
  have "ticked c (c\<lparr>Proposal := Some v\<rparr>)" by (rule ticked_silent) simp_all
  with True show ?thesis by (auto intro: ticked_trans enterPrevote_ticked)
next
  case False
  with assms have "c' = c" by (auto simp: defaultSetProposal_def Let_def split: if_splits)
  then show ?thesis by simp
qed

lemma add_straggler_ticked:
  assumes "add_straggler env v c = Inr (a, e, c')"
  shows "ticked c c'"
proof -
  have "ticked c (c\<lparr>LastCommit := vs\<rparr>)" for vs by (rule ticked_silent) simp_all
  with add_straggler_Inr [OF assms] show ?thesis by (blast intro: ticked_trans enterNewRound_ticked ticked_refl)
qed

lemma added_prevote_ticked:
  assumes "added_prevote env (Height c) v hvs c = Inr c'"
  shows "ticked c c'"
proof -
  have "ticked c (polka_unlock v (Prevotes (v_Round v) hvs) c)" by (rule ticked_silent) simp_all
  also have "ticked \<dots> c'"
    using assms unfolding added_prevote_def Let_def
    by (auto split: if_splits intro: enterNewRound_ticked enterPrecommit_ticked enterPrevoteWait_ticked enterPrevote_ticked)
  finally show ?thesis .
qed

lemma added_precommit_ticked:
  assumes "added_precommit env (Height c) v hvs c = Inr c'" and "env_ok env" and "0 \<le> v_Round v" and "safe c"
  shows "ticked c c'"
proof (cases "HasTwoThirdsMajority (Precommits (v_Round v) hvs)")
  case True
  from assms(1) True obtain c1 c2 c3 where
    c1: "enterNewRound env (Height c) (v_Round v) c = Inr c1" and
    c2: "enterPrecommit env (Height c) (v_Round v) c1 = Inr c2" and
    c3: "enterCommit env (Height c) (v_Round v) c2 = Inr c3" and
    c': "c' = c3 \<or> enterNewRound env (Height c3) 0 c3 = Inr c'"
    unfolding added_precommit_def Let_def by (auto elim!: and_then_InrE split: if_splits)
  have "sim_any env c c1" using c1 by (rule enterNewRound_sim)
  also have "sim_any env c1 c2" using c2 enterNewRound_pos(2) [OF c1 refl] by (rule enterPrecommit_sim)
  finally have "0 < Height c2" using assms(4) by (auto simp: sim_def safe_def)
  have "ticked c c1" using c1 by (rule enterNewRound_ticked)
  also have "ticked c1 c2" using c2 by (rule enterPrecommit_ticked)
  also have "ticked c2 c3" using c3 assms(2,3) \<open>0 < Height c2\<close> by (rule enterCommit_ticked)
  also have "ticked c3 c'" using c' by (auto intro: enterNewRound_ticked)
  finally show ?thesis .
next
  case False
  with assms(1) show ?thesis unfolding added_precommit_def Let_def
    by (auto intro: ticked_trans enterNewRound_ticked enterPrecommitWait_ticked elim!: and_then_InrE split: if_splits)
qed

lemma addVote_ticked:
  assumes "addVote env p c = Inr (a, e, c')" and "env_ok env" and "safe c"
  shows "ticked c c'"
proof -
  have votes: "ticked c (c\<lparr>Votes := vs\<rparr>)" "safe (c\<lparr>Votes := vs\<rparr>)" for vs
    using assms(3) by (auto simp: safe_def c_pos_def intro: ticked_silent)
  from assms(1) show ?thesis
  proof (cases rule: addVote_Inr)
    case 1
    then show ?thesis using add_straggler_ticked by blast
  next
    case 3
    then show ?thesis using defaultSetProposal_ticked by blast
  next
    case (4 v hvs hvs')
    with votes show ?thesis by simp
  next
    case (5 v hvs hvs')
    then have "ticked (c\<lparr>Votes := Some hvs'\<rparr>) c'" by (intro added_prevote_ticked) simp
    with votes(1) show ?thesis by (rule ticked_trans)
  next
    case (6 v hvs hvs')
    then have "ticked (c\<lparr>Votes := Some hvs'\<rparr>) c'" using assms(2) votes(2) by (intro added_precommit_ticked) simp_all
    with votes(1) show ?thesis by (rule ticked_trans)
  qed simp
qed

lemma tryAddVote_ticked: "tryAddVote env p c = Inr c' \<Longrightarrow> env_ok env \<Longrightarrow> safe c \<Longrightarrow> ticked c c'"
  by (auto simp: tryAddVote_def elim!: and_then_InrE intro: addVote_ticked)

lemma for_each_tryAddVote_ticked:
  assumes "for_each (tryAddVote env) ps c = Inr c'" and "env_ok env" and "safe c"
  shows "ticked c c'"
proof -
  have "ticked c c' \<and> safe c'"
    using assms(1)
  proof (rule for_each_invariant [where I = "\<lambda>t. ticked c t \<and> safe t"])
    fix p t t' assume "ticked c t \<and> safe t" and t': "tryAddVote env p t = Inr t'"
    moreover from t' have "sim_any env t t'" using assms(2) by (intro tryAddVote_sim) simp_all
    ultimately show "ticked c t' \<and> safe t'"
      using tryAddVote_ticked [OF t' assms(2)] by (auto simp: sim_def intro: ticked_trans)
  qed (use assms(3) in simp)
  then show ?thesis by simp
qed

lemma handleMsg_ticked:
  assumes "handleMsg env mi c = Inr c'" and "env_ok env" and "safe c"
  shows "ticked c c'"
proof (cases "mi_Msg mi")
  case (MVote v)
  with assms show ?thesis by (auto simp: handleMsg_def intro: tryAddVote_ticked split: if_splits)
next
  case (MCommit k)
  define c1 where "c1 = (if Commit_Height k = Height c then c\<lparr>hasRecvCommitRecords := True\<rparr> else c)"
  have c1: "ticked c c1" "safe c1" using assms(3) by (auto simp: c1_def safe_def c_pos_def intro: ticked_silent)
  have "c' = c \<or> c' = c1 \<or> for_each (tryAddVote env) (c_Precommits k) c1 = Inr c'"
    using assms(1) MCommit by (auto simp: handleMsg_def handleCommit_def Let_def simp flip: c1_def split: if_splits)
  with c1 assms(2) show ?thesis by (blast intro: ticked_refl ticked_trans for_each_tryAddVote_ticked)
next
  case (MFetchVotesReq q)
  have "ticked c (call_app call (next_read c))" for call by (rule ticked_silent) (simp_all add: update_defs)
  with assms(1) MFetchVotesReq show ?thesis
    by (auto simp: handleMsg_def handleFetch_def elim!: and_then_InrE split: if_splits option.splits)
next
  case (MFetchVotesRsp r)
  with assms show ?thesis
    by (auto simp: handleMsg_def handleFetchRsp_def intro: for_each_tryAddVote_ticked split: if_splits)
qed

lemma handleTimeout_ticked:
  assumes "handleTimeout env ti (GetRoundState c) c = Inr c'" and "ti_Step ti \<noteq> RoundStepNewRound"
  shows "ticked c c'"
  using assms
  by (auto simp: handleTimeout_def intro: enterNewRound_ticked enterPrevote_ticked fetchMissingVotes_ticked
      enterPrecommit_ticked ticked_trans elim!: and_then_InrE split: if_splits)

text \<open>The timeout for the position the node is at makes it schedule another, except in the very last round.\<close>

lemma handleTimeout_ticks:
  assumes res: "handleTimeout env ti (GetRoundState c) c = Inr c'" and at: "ti_hrs ti = c_pos c"
    and step: "ti_Step ti \<in> timeout_steps" and r0: "ti_Step ti = RoundStepNewHeight \<Longrightarrow> ti_Round ti = 0"
    and r: "0 \<le> Round c" "Round c < max_int64"
  shows "ticks c' \<noteq> ticks c"
proof -
  have eq: "ti_Height ti = Height c" "ti_Round ti = Round c" "ti_Step ti = Step c"
    using at by (simp_all add: ti_hrs_def c_pos_def)
  note r0 = r0 [unfolded eq] and res = res [unfolded handleTimeout_def GetRoundState_def RoundState.defs eq, simplified]
  from step consider "Step c = RoundStepNewHeight" | "Step c = RoundStepPropose" | "fetch_step (Step c)"
    | "Step c = RoundStepPrevoteWait" | "Step c = RoundStepPrecommitWait"
    by (auto simp: eq timeout_steps_def fetch_step_def)
  then show ?thesis
  proof cases
    case 1
    with res have "enterNewRound env (Height c) 0 c = Inr c'" by simp
    then show ?thesis by (rule enterNewRound_ticks [THEN ticks_on_grow]) (use r0 [OF 1] 1 in simp)
  next
    case 2
    with res have "c' = enterPrevote env (Height c) (Round c) c" by (simp add: step_defs)
    with 2 show ?thesis by (simp add: enterPrevote_def enterPrevoteFetch_def update_defs step_defs doPrevote_def)
  next
    case 3
    with res have "fetchMissingVotes env c = Inr c'" by (auto simp: fetch_step_def step_defs)
    then show ?thesis using 3 by (rule fetchMissingVotes_ticks [THEN ticks_on_grow])
  next
    case 4
    with res have "enterPrecommit env (Height c) (Round c) c = Inr c'" by (simp add: step_defs)
    then show ?thesis by (rule enterPrecommit_ticks [THEN ticks_on_grow]) (use 4 in \<open>simp add: step_defs\<close>)
  next
    case 5
    have "enterPrecommit env (Height c) (Round c) c = Inr c" using 5 by (simp add: enterPrecommit_def step_defs)
    with res 5 r have "enterNewRound env (Height c) (Round c + 1) c = Inr c'" by (simp add: step_defs wrap64_idI)
    then show ?thesis by (rule enterNewRound_ticks [THEN ticks_on_grow]) (use 5 in simp)
  qed
qed

section \<open>Runs\<close>

lemma core_step_ticked:
  assumes "core_step env e c = Inr c'" and "e \<noteq> EvStart" and "env_ok env" and "safe c"
  shows "ticked c c'"
proof (cases e)
  case (EvRecv m p)
  with assms(1) show ?thesis by (auto simp: RecvMsg_def sendInternalMessage_def intro!: ticked_silent split: option.splits)
next
  case EvMsg
  show ?thesis
  proof (cases "started c \<and> msgQueue c \<noteq> []")
    case True
    then obtain mi rest where q: "msgQueue c = mi # rest" by (cases "msgQueue c") auto
    let ?c = "c\<lparr>msgQueue := rest\<rparr>"
    from assms(1) EvMsg True q obtain c1 where c1: "handleMsg env mi ?c = Inr c1"
      and c': "c' = c1\<lparr>msgCnt := wrap64 (msgCnt c1 + 1)\<rparr>"
      by (auto simp: receiveRoutine_msg_def elim!: and_then_InrE)
    have "ticked c ?c" by (rule ticked_silent) simp_all
    also have "ticked ?c c1"
      using handleMsg_ticked [OF c1 assms(3)] assms(4) by (simp add: safe_def c_pos_def)
    also have "ticked c1 c'" unfolding c' by (rule ticked_silent) simp_all
    finally show ?thesis .
  next
    case False
    with assms(1) EvMsg have "c' = c" by (auto simp: receiveRoutine_msg_def split: if_splits list.splits)
    then show ?thesis by simp
  qed
next
  case (EvTock ti)
  with assms(1,4) show ?thesis
    by (cases "started c \<and> ti \<in> set (ticks c)")
      (auto simp: receiveRoutine_tock_def safe_def timeout_steps_def step_defs intro!: handleTimeout_ticked)
next
  case (EvApp V)
  with assms(1) show ?thesis by (auto intro: ticked_silent)
next
  case EvStop
  with assms(1) show ?thesis by (auto simp: Stop_def intro: ticked_silent)
qed (use assms(2) in simp)

definition on_time :: "Core \<Rightarrow> bool" where
  "on_time c \<longleftrightarrow> ticks c \<noteq> [] \<and> tick_path (HRS 0 0 0) (ticks c) (c_pos c)"

lemma on_time_last: "on_time c \<Longrightarrow> ti_hrs (last (ticks c)) = c_pos c"
  unfolding on_time_def using tick_path_last by blast

lemma booted_on_time:
  assumes "booted env V c"
  shows "on_time c"
proof -
  obtain st where st: "GetAppState V = Some st" "0 \<le> LastHeight st" "LastHeight st < max_int64"
    and start: "Start env (NewCore V) = Inr (None, c)" using assms by (auto simp: booted_def)
  have new: "GetAppState (app (NewCore V)) = Some st" "Height (NewCore V) \<le> 0"
    using st by (simp_all add: NewCore_def)
  from start new(1) st(2,3) obtain dur where c: "Height c = LastHeight st + 1" "Round c = 0" "Step c = RoundStepNewHeight"
    "ticks c = [\<lparr>ti_Duration = dur, ti_Height = Height c, ti_Round = 0, ti_Step = RoundStepNewHeight\<rparr>]"
    by (rule Start_Inr) (simp_all add: new)
  then show ?thesis using st(2) by (simp add: on_time_def tick_defs)
qed

lemma ticked_on_time:
  assumes "on_time c" and "ticked c c'"
  shows "on_time c'"
  using assms by (auto simp: on_time_def ticked_def intro: tick_path_append)

lemma runs_on_time:
  assumes "run_steps (core_step env) es c = Inr c'" and "EvStart \<notin> set es" and "env_ok env" and "safe c" and "on_time c"
  shows "on_time c'"
  using assms(1,2,4,5)
proof (induction es arbitrary: c)
  case (Cons e es)
  then obtain c1 where c1: "core_step env e c = Inr c1" "run_steps (core_step env) es c1 = Inr c'"
    by (auto elim!: and_then_InrE)
  have ne: "e \<noteq> EvStart" "EvStart \<notin> set es" using Cons.prems(2) by auto
  have "safe c1" using c1(1) ne(1) assms(3) Cons.prems(3) by (rule any_step(1))
  moreover have "on_time c1"
    using Cons.prems(4) core_step_ticked [OF c1(1) ne(1) assms(3) Cons.prems(3)] by (rule ticked_on_time)
  ultimately show ?case by (rule Cons.IH [OF c1(2) ne(2)])
qed simp

text \<open>C15. A running node always has a timeout for the very position it is at: the last one it has
  scheduled is for its height, round and step, whatever messages and timeouts it has handled.\<close>

theorem timeout_for_position:
  assumes "booted env V c0" and "runs env es c0 c"
  shows "ticks c \<noteq> [] \<and> ti_hrs (last (ticks c)) = HRS (Height c) (Round c) (Step c)"
proof -
  have "on_time c"
    using assms booted_on_time [OF assms(1)] booted_spec(1) [OF assms(1)]
    by (auto simp: runs_def booted_def intro: runs_on_time)
  with on_time_last [of c] show ?thesis by (simp add: on_time_def c_pos_def)
qed

lemma timeout_for_position_witness:
  "ti_hrs (last (ticks fx_locked)) = HRS 1 0 RoundStepPrecommitFetch"
  using timeout_for_position [OF fx_booted fx_lock_run] by (simp add: fx_locked_sent)

end
