(* ===== verification/System.thy ===== *)
theory System
  imports Timeouts
begin

text \<open>
  A node as the code runs it: the core with its receive routine (\<^verbatim>\<open>src/bftcore.go\<close>) and the
  timeout ticker with its goroutines (\<^verbatim>\<open>src/ticker.go\<close>), joined by the ticker's two channels. The
  core is a client of the ticker: it passes every timeout it schedules to the tick channel, in
  order, and takes the timeouts it handles from the tock channel only.
\<close>

section \<open>The model\<close>

record System =
  sy_core :: Core
  sy_ticker :: Ticker
  sy_passed :: nat

text \<open>The timeouts scheduled in a turn of the receive routine and not yet in the tick channel. The
  routine blocks on a full channel, so it starts no other turn before they are passed.\<close>

definition sy_unpassed :: "System \<Rightarrow> timeoutInfo list" where
  "sy_unpassed s = drop (sy_passed s) (ticks (sy_core s))"

text \<open>The steps: a call of \<^verbatim>\<open>RecvMsg\<close>, a change of the application, the receive routine's two
  branches, the send on the tick channel, the ticker's own steps, and \<^verbatim>\<open>Stop\<close>.\<close>

datatype system_event =
    SyRecv ConsensusMessage "Peer option"
  | SyApp ICommittee
  | SyMsg
  | SyTock
  | SyPass
  | SyTick
  | SyExpire
  | SyFire
  | SyReturn
  | SySend nat
  | SyStop

definition sy_ticker_step :: "ticker_event \<Rightarrow> System \<Rightarrow> System outcome" where
  "sy_ticker_step e s = and_then (timeoutRoutine_step e (sy_ticker s)) (\<lambda>t. Inr (s\<lparr>sy_ticker := t\<rparr>))"

definition sy_core_step :: "Env \<Rightarrow> core_event \<Rightarrow> System \<Rightarrow> System outcome" where
  "sy_core_step env e s = and_then (core_step env e (sy_core s)) (\<lambda>c. Inr (s\<lparr>sy_core := c\<rparr>))"

fun system_step :: "Env \<Rightarrow> system_event \<Rightarrow> System \<Rightarrow> System outcome" where
  "system_step env (SyRecv m p) s = sy_core_step env (EvRecv m p) s"
| "system_step env (SyApp V) s = sy_core_step env (EvApp V) s"
| "system_step env SyMsg s = (if sy_unpassed s = [] then sy_core_step env EvMsg s else Inr s)"
| "system_step env SyTock s =
     (case tk_tockChan (sy_ticker s) of
        [] \<Rightarrow> Inr s
      | ti # _ \<Rightarrow>
          if sy_unpassed s \<noteq> [] \<or> \<not> started (sy_core s) then Inr s
          else and_then (sy_ticker_step TkTake s) (sy_core_step env (EvTock ti)))"
| "system_step env SyPass s =
     (case sy_unpassed s of
        [] \<Rightarrow> Inr s
      | ti # _ \<Rightarrow>
          if length (tk_tickChan (sy_ticker s)) < tickTockBufferSize
          then and_then (sy_ticker_step (TkSchedule ti) s) (\<lambda>s'. Inr (s'\<lparr>sy_passed := Suc (sy_passed s')\<rparr>))
          else Inr s)"
| "system_step env SyTick s = sy_ticker_step TkTick s"
| "system_step env SyExpire s = sy_ticker_step TkExpire s"
| "system_step env SyFire s = sy_ticker_step TkFire s"
| "system_step env SyReturn s = sy_ticker_step TkReturn s"
| "system_step env (SySend i) s = sy_ticker_step (TkSend i) s"
| "system_step env SyStop s =
     (case Stop (sy_core s) of
        (Some err, c) \<Rightarrow> Inr s
      | (None, c) \<Rightarrow> sy_ticker_step TkStop (s\<lparr>sy_core := c\<rparr>))"

text \<open>The system right after \<^verbatim>\<open>Start\<close>, which makes a new ticker.\<close>

definition system_start :: "Core \<Rightarrow> System" where
  "system_start c = \<lparr>sy_core = c, sy_ticker = NewTimeoutTicker, sy_passed = 0\<rparr>"


section \<open>The invariant\<close>

text \<open>The ticker has worked off a prefix of the timeouts the core has scheduled: the current one is the
  last of them, the tick channel and what the core has still to pass are the others, in order.\<close>

definition in_order :: "System \<Rightarrow> bool" where
  "in_order s \<longleftrightarrow> (\<exists>worked. ticks (sy_core s) = worked @ tk_tickChan (sy_ticker s) @ sy_unpassed s \<and>
     sy_passed s = length worked + length (tk_tickChan (sy_ticker s)) \<and>
     tick_path (HRS 0 0 0) worked (ti_hrs (tk_ti (sy_ticker s))) \<and>
     (worked \<noteq> [] \<longrightarrow> tk_ti (sy_ticker s) = last worked) \<and>
     (worked = [] \<longrightarrow> tk_timer (sy_ticker s) = None \<and> \<not> tk_C (sy_ticker s)) \<and>
     in_flight (sy_ticker s) \<subseteq> set worked)"

text \<open>The timeouts on their way: still to be passed, in the tick channel, in the timer, or on their way
  back to the core.\<close>

definition pending :: "System \<Rightarrow> timeoutInfo set" where
  "pending s =
     set (sy_unpassed s) \<union> set (tk_tickChan (sy_ticker s)) \<union>
     (if tk_timer (sy_ticker s) \<noteq> None \<or> tk_C (sy_ticker s) then {tk_ti (sy_ticker s)} else {}) \<union>
     in_flight (sy_ticker s)"

definition sys_inv :: "Env \<Rightarrow> System \<Rightarrow> bool" where
  "sys_inv env s \<longleftrightarrow> env_ok env \<and> safe (sy_core s) \<and> on_time (sy_core s) \<and> in_order s \<and>
     (tk_returned (sy_ticker s) \<longrightarrow> tk_stopCh (sy_ticker s)) \<and>
     (\<not> tk_stopCh (sy_ticker s) \<and> Round (sy_core s) < max_int64 \<longrightarrow> last (ticks (sy_core s)) \<in> pending s)"

lemma sy_unpassed_frame [simp]: "sy_unpassed (s\<lparr>sy_ticker := t\<rparr>) = sy_unpassed s"
  by (simp add: sy_unpassed_def)

lemma tick_path_unique: "tick_path p us q \<Longrightarrow> tick_path p us r \<Longrightarrow> q = r"
  by (induction us arbitrary: p) auto

lemma in_order_start: "in_order (system_start c)"
  by (simp add: in_order_def system_start_def sy_unpassed_def NewTimeoutTicker_def stopTimer_def in_flight_def ti_hrs_def)

lemma last_unpassed:
  assumes "sy_unpassed s \<noteq> []"
  shows "last (ticks (sy_core s)) \<in> set (sy_unpassed s)"
  using assms by (metis sy_unpassed_def last_drop last_in_set drop_eq_Nil not_le)

lemma sys_inv_start:
  assumes "booted env V c"
  shows "sys_inv env (system_start c)"
proof -
  have "sy_unpassed (system_start c) = ticks c" by (simp add: system_start_def sy_unpassed_def)
  moreover have "ticks c \<noteq> []" using booted_on_time [OF assms] by (simp add: on_time_def)
  ultimately have "last (ticks c) \<in> pending (system_start c)" by (simp add: pending_def)
  then show ?thesis
    using assms in_order_start booted_spec(1) [OF assms] booted_on_time [OF assms]
    by (auto simp: sys_inv_def booted_def) (simp_all add: system_start_def NewTimeoutTicker_def stopTimer_def)
qed

text \<open>A step of the core alone.\<close>

lemma core_turn:
  assumes inv: "sys_inv env s" and step: "core_step env e (sy_core s) = Inr c" and e: "e \<noteq> EvStart"
    and t: "t = sy_ticker s \<or> timeoutRoutine_step TkTake (sy_ticker s) = Inr t"
    and take: "ticks c = ticks (sy_core s) \<Longrightarrow> \<not> tk_stopCh (sy_ticker s) \<Longrightarrow> Round (sy_core s) < max_int64 \<Longrightarrow>
      last (ticks (sy_core s)) \<in> in_flight (sy_ticker s) \<Longrightarrow> last (ticks (sy_core s)) \<in> in_flight t"
  shows "sys_inv env (s\<lparr>sy_core := c, sy_ticker := t\<rparr>)" (is "sys_inv env ?s")
proof -
  have env: "env_ok env" and safe: "safe (sy_core s)" and time: "on_time (sy_core s)" and ord: "in_order s"
    using inv by (simp_all add: sys_inv_def)
  have ticked: "ticked (sy_core s) c" using step e env safe by (rule core_step_ticked)
  then obtain us where us: "ticks c = ticks (sy_core s) @ us" "tick_path (c_pos (sy_core s)) us (c_pos c)"
    by (auto simp: ticked_def)
  have t_frame: "tk_tickChan t = tk_tickChan (sy_ticker s)" "tk_ti t = tk_ti (sy_ticker s)" "tk_timer t = tk_timer (sy_ticker s)"
    "tk_C t = tk_C (sy_ticker s)" "tk_stopCh t = tk_stopCh (sy_ticker s)" "tk_returned t = tk_returned (sy_ticker s)"
    using t by auto
  have flight: "in_flight t \<subseteq> in_flight (sy_ticker s)" using t take_in_flight by blast
  from ord obtain worked where w: "ticks (sy_core s) = worked @ tk_tickChan (sy_ticker s) @ sy_unpassed s"
    "sy_passed s = length worked + length (tk_tickChan (sy_ticker s))"
    "tick_path (HRS 0 0 0) worked (ti_hrs (tk_ti (sy_ticker s)))"
    "worked \<noteq> [] \<longrightarrow> tk_ti (sy_ticker s) = last worked"
    "worked = [] \<longrightarrow> tk_timer (sy_ticker s) = None \<and> \<not> tk_C (sy_ticker s)" "in_flight (sy_ticker s) \<subseteq> set worked"
    unfolding in_order_def by blast
  have "sy_passed s \<le> length (ticks (sy_core s))" unfolding w(2) by (subst w(1)) simp
  then have un: "sy_unpassed (s\<lparr>sy_core := c\<rparr>) = sy_unpassed s @ us" using us(1) by (simp add: sy_unpassed_def)
  have "in_order ?s" unfolding in_order_def
    using w us(1) flight by (intro exI [of _ worked]) (auto simp: t_frame un)
  moreover have "last (ticks c) \<in> pending ?s" if "\<not> tk_stopCh t" "Round c < max_int64"
  proof (cases "us = []")
    case True
    then have "c_pos (sy_core s) = c_pos c" using us(2) by simp
    then have "last (ticks (sy_core s)) \<in> pending s"
      using inv that by (simp add: sys_inv_def t_frame c_pos_def)
    then show ?thesis
      using take True us(1) that \<open>c_pos (sy_core s) = c_pos c\<close> by (auto simp: pending_def un t_frame c_pos_def)
  next
    case False
    then show ?thesis by (simp add: pending_def un us(1))
  qed
  moreover have "safe c" using step e env safe by (rule any_step(1))
  ultimately show ?thesis
    using inv ticked_on_time [OF time ticked] by (simp add: sys_inv_def t_frame)
qed

text \<open>What the ticker takes next is never too old.\<close>

lemma in_order_accepts:
  assumes "in_order s" and "on_time (sy_core s)" and "tk_tickChan (sy_ticker s) = newti # rest"
  shows "next_tick (ti_hrs (tk_ti (sy_ticker s))) newti"
proof -
  from assms(1) obtain worked where "ticks (sy_core s) = worked @ newti # rest @ sy_unpassed s"
    "tick_path (HRS 0 0 0) worked (ti_hrs (tk_ti (sy_ticker s)))"
    using assms(3) by (auto simp: in_order_def)
  moreover from this(1) assms(2) obtain q where "tick_path (HRS 0 0 0) worked q" "next_tick q newti"
    unfolding on_time_def by (auto dest!: tick_path_split)
  ultimately show ?thesis using tick_path_unique by blast
qed

lemma send_keeps:
  assumes "timeoutRoutine_step (TkSend i) t = Inr t'"
  shows "in_flight t' = in_flight t"
proof (cases "i < length (tk_senders t) \<and> length (tk_tockChan t) < tickTockBufferSize")
  case True
  let ?xs = "tk_senders t"
  have "?xs = take i ?xs @ ?xs ! i # drop (Suc i) ?xs" using True by (intro id_take_nth_drop) simp
  then have "set ?xs = set (take i ?xs @ ?xs ! i # drop (Suc i) ?xs)" by (rule arg_cong)
  then have "set ?xs = insert (?xs ! i) (set (take i ?xs) \<union> set (drop (Suc i) ?xs))" by simp
  moreover have "in_flight t' = set (take i ?xs) \<union> set (drop (Suc i) ?xs) \<union> insert (?xs ! i) (set (tk_tockChan t))"
    using True assms by (auto simp: in_flight_def)
  ultimately show ?thesis unfolding in_flight_def by blast
qed (use assms in auto)

lemma send_frame:
  assumes "timeoutRoutine_step (TkSend i) t = Inr t'"
  shows "tk_tickChan t' = tk_tickChan t" "tk_ti t' = tk_ti t" "tk_timer t' = tk_timer t" "tk_C t' = tk_C t"
    "tk_stopCh t' = tk_stopCh t" "tk_returned t' = tk_returned t"
  using assms by (auto split: if_splits)

text \<open>A step of the ticker's goroutine, its timer or its senders.\<close>

lemma ticker_turn:
  assumes inv: "sys_inv env s" and step: "timeoutRoutine_step e (sy_ticker s) = Inr t"
    and e: "e \<in> {TkTick, TkExpire, TkFire, TkReturn} \<union> range TkSend"
  shows "sys_inv env (s\<lparr>sy_ticker := t\<rparr>)" (is "sys_inv env ?s")
proof -
  have ord: "in_order s" and time: "on_time (sy_core s)" and env: "env_ok env" and safe: "safe (sy_core s)"
    and ret: "tk_returned (sy_ticker s) \<Longrightarrow> tk_stopCh (sy_ticker s)"
    and last: "\<not> tk_stopCh (sy_ticker s) \<Longrightarrow> Round (sy_core s) < max_int64 \<Longrightarrow> last (ticks (sy_core s)) \<in> pending s"
    using inv by (simp_all add: sys_inv_def)
  have un: "sy_unpassed ?s = sy_unpassed s" by simp
  have "in_order ?s \<and> (tk_returned t \<longrightarrow> tk_stopCh t) \<and> tk_stopCh t = tk_stopCh (sy_ticker s) \<and>
      (\<not> tk_stopCh t \<longrightarrow> last (ticks (sy_core s)) \<in> pending s \<longrightarrow> last (ticks (sy_core s)) \<in> pending ?s)"
  proof -
    from ord obtain worked where w: "ticks (sy_core s) = worked @ tk_tickChan (sy_ticker s) @ sy_unpassed s"
      "sy_passed s = length worked + length (tk_tickChan (sy_ticker s))"
      "tick_path (HRS 0 0 0) worked (ti_hrs (tk_ti (sy_ticker s)))"
      "worked \<noteq> [] \<longrightarrow> tk_ti (sy_ticker s) = last worked"
      "worked = [] \<longrightarrow> tk_timer (sy_ticker s) = None \<and> \<not> tk_C (sy_ticker s)" "in_flight (sy_ticker s) \<subseteq> set worked"
      unfolding in_order_def by blast
    show ?thesis
    proof (cases "t = sy_ticker s")
      case True
      then show ?thesis using ord ret by simp
    next
      case ne: False
      from e consider "e = TkTick" | "e = TkExpire" | "e = TkFire" | "e = TkReturn" | i where "e = TkSend i" by auto
      then show ?thesis
      proof cases
        case 1
        with step ne obtain newti rest where ch: "tk_tickChan (sy_ticker s) = newti # rest" "\<not> tk_returned (sy_ticker s)"
          by (auto split: list.splits if_splits)
        have nt: "next_tick (ti_hrs (tk_ti (sy_ticker s))) newti" by (rule in_order_accepts [OF ord time ch(1)])
        have t: "t = (stopTimer ((sy_ticker s)\<lparr>tk_tickChan := rest\<rparr>))\<lparr>tk_ti := newti, tk_timer := Some (ti_Duration newti)\<rparr>"
          using step 1 ch next_tick_accepted [OF nt] by (auto simp: Let_def)
        have path: "tick_path (HRS 0 0 0) (worked @ [newti]) (ti_hrs newti)"
          using w(3) nt by (intro tick_path_append) auto
        have "in_order ?s" unfolding in_order_def un
          using w ch path by (intro exI [of _ "worked @ [newti]"]) (auto simp: t stopTimer_def in_flight_def)
        moreover have "last (ticks (sy_core s)) \<in> pending ?s"
          using w(1) ch by (cases "rest @ sy_unpassed s = []")
            (auto simp: pending_def un t stopTimer_def last_append)
        ultimately show ?thesis using ch ret by (simp add: t stopTimer_def)
      next
        case 2
        with step ne have "t = (sy_ticker s)\<lparr>tk_timer := None, tk_C := True\<rparr>" "tk_timer (sy_ticker s) \<noteq> None"
          by (auto split: if_splits)
        moreover from this have "worked \<noteq> []" using w(5) by auto
        ultimately show ?thesis using w ret by (auto simp: in_order_def pending_def in_flight_def)
      next
        case 3
        with step ne have t: "t = (sy_ticker s)\<lparr>tk_C := False, tk_senders := tk_senders (sy_ticker s) @ [tk_ti (sy_ticker s)]\<rparr>"
          and "tk_C (sy_ticker s)" by (auto split: if_splits)
        then have "worked \<noteq> []" using w(5) by auto
        moreover from this have "tk_ti (sy_ticker s) \<in> set worked" using w(4) by simp
        ultimately show ?thesis using w ret by (auto simp: t in_order_def pending_def in_flight_def)
      next
        case 4
        with step ne have "t = (sy_ticker s)\<lparr>tk_returned := True\<rparr>" "tk_stopCh (sy_ticker s)" by (auto split: if_splits)
        then show ?thesis using ord by (simp add: in_order_def pending_def in_flight_def)
      next
        case (5 i)
        then have send: "timeoutRoutine_step (TkSend i) (sy_ticker s) = Inr t" using step by simp
        show ?thesis using ord ret send_frame [OF send] send_keeps [OF send] by (simp add: in_order_def pending_def)
      qed
    qed
  qed
  then show ?thesis using env safe time last by (auto simp: sys_inv_def)
qed

section \<open>Runs of the system\<close>

lemma one_step_runs: "core_step env e c = Inr c' \<Longrightarrow> e \<noteq> EvStart \<Longrightarrow> runs env [e] c c'"
  by (simp add: runs_def)

lemma system_step_core:
  assumes "system_step env e s = Inr s'"
  shows "\<exists>ces. runs env ces (sy_core s) (sy_core s')"
proof -
  have refl: "\<exists>ces. runs env ces c c" for c by (rule exI [of _ "[]"]) (simp add: runs_def)
  have core: "\<exists>ces. runs env ces (sy_core s1) (sy_core s2)" if "sy_core_step env e s1 = Inr s2" "e \<noteq> EvStart" for e s1 s2
    using that by (auto simp: sy_core_step_def simp del: core_step.simps elim!: and_then_InrE intro!: exI [of _ "[e]"] one_step_runs)
  have tick: "sy_core s2 = sy_core s1" if "sy_ticker_step e s1 = Inr s2" for e s1 s2
    using that by (auto simp: sy_ticker_step_def simp del: timeoutRoutine_step.simps elim!: and_then_InrE)
  show ?thesis
  proof (cases e)
    case SyTock
    with assms refl core tick show ?thesis by (fastforce split: list.splits if_splits elim!: and_then_InrE)
  next
    case SyPass
    with assms refl tick show ?thesis by (fastforce split: list.splits if_splits elim!: and_then_InrE)
  next
    case SyStop
    have "runs env [EvStop] (sy_core s) (snd (Stop (sy_core s)))" by (rule one_step_runs) simp_all
    with assms SyStop refl tick show ?thesis by (fastforce split: prod.splits option.splits)
  qed (use assms refl core tick in \<open>auto split: if_splits\<close>)
qed

lemma tock_turn:
  assumes inv: "sys_inv env s" and ch: "tk_tockChan (sy_ticker s) = ti # rest"
    and step: "core_step env (EvTock ti) (sy_core s) = Inr c" and on: "started (sy_core s)"
  shows "sys_inv env (s\<lparr>sy_core := c, sy_ticker := (sy_ticker s)\<lparr>tk_tockChan := rest\<rparr>\<rparr>)"
proof (rule core_turn [OF inv step])
  let ?c = "sy_core s"
  have safe: "safe ?c" and time: "on_time ?c" and ord: "in_order s" using inv by (simp_all add: sys_inv_def)
  have "ti \<in> in_flight (sy_ticker s)" using ch by (simp add: in_flight_def)
  then have ti: "ti \<in> set (ticks ?c)" using ord unfolding in_order_def by auto
  then have run: "handleTimeout env ti (GetRoundState ?c) ?c = Inr c" using step on by (simp add: receiveRoutine_tock_def)
  show "last (ticks ?c) \<in> in_flight ((sy_ticker s)\<lparr>tk_tockChan := rest\<rparr>)"
    if same: "ticks c = ticks ?c" and r: "Round ?c < max_int64" and l: "last (ticks ?c) \<in> in_flight (sy_ticker s)"
  proof -
    have "ti \<noteq> last (ticks ?c)"
    proof
      assume "ti = last (ticks ?c)"
      then have "ti_hrs ti = c_pos ?c" using on_time_last [OF time] by simp
      moreover have "ti_Step ti \<in> timeout_steps" "0 \<le> Round ?c" using safe ti by (simp_all add: safe_def)
      moreover have "ti_Step ti = RoundStepNewHeight \<Longrightarrow> ti_Round ti = 0"
        using time ti tick_path_new_height by (auto simp: on_time_def)
      ultimately show False using handleTimeout_ticks [OF run] r same by simp
    qed
    with l ch show ?thesis by (auto simp: in_flight_def)
  qed
qed (use ch in simp_all)

lemma system_step_inv:
  assumes inv: "sys_inv env s" and step: "system_step env e s = Inr s'"
  shows "sys_inv env s'"
proof -
  have core: "sys_inv env s1" if "sy_core_step env e s = Inr s1" "e \<noteq> EvStart" for e s1
  proof -
    from that(1) obtain c where "core_step env e (sy_core s) = Inr c" "s1 = s\<lparr>sy_core := c, sy_ticker := sy_ticker s\<rparr>"
      by (auto simp: sy_core_step_def elim!: and_then_InrE)
    with core_turn [OF inv _ that(2), of c "sy_ticker s"] show ?thesis by simp
  qed
  have tick: "sys_inv env s1" if "sy_ticker_step e s = Inr s1" "e \<in> {TkTick, TkExpire, TkFire, TkReturn} \<union> range TkSend" for e s1
  proof -
    from that(1) obtain t where "timeoutRoutine_step e (sy_ticker s) = Inr t" "s1 = s\<lparr>sy_ticker := t\<rparr>"
      by (auto simp: sy_ticker_step_def simp del: timeoutRoutine_step.simps elim!: and_then_InrE)
    with ticker_turn [OF inv _ that(2)] show ?thesis by simp
  qed
  show ?thesis
  proof (cases e)
    case SyMsg
    with step inv show ?thesis by (auto intro: core split: if_splits)
  next
    case SyTock
    show ?thesis
    proof (cases "tk_tockChan (sy_ticker s) = [] \<or> sy_unpassed s \<noteq> [] \<or> \<not> started (sy_core s)")
      case True
      with step SyTock inv show ?thesis by (auto split: list.splits)
    next
      case False
      then obtain ti rest where ch: "tk_tockChan (sy_ticker s) = ti # rest" by (cases "tk_tockChan (sy_ticker s)") auto
      with step SyTock False obtain c where "core_step env (EvTock ti) (sy_core s) = Inr c"
        "s' = s\<lparr>sy_core := c, sy_ticker := (sy_ticker s)\<lparr>tk_tockChan := rest\<rparr>\<rparr>"
        by (auto simp: sy_ticker_step_def sy_core_step_def elim!: and_then_InrE simp del: core_step.simps)
      with tock_turn [OF inv ch] False show ?thesis by simp
    qed
  next
    case SyPass
    show ?thesis
    proof (cases "sy_unpassed s = [] \<or> \<not> length (tk_tickChan (sy_ticker s)) < tickTockBufferSize")
      case True
      with step SyPass inv show ?thesis by (auto split: list.splits)
    next
      case False
      then obtain ti rest where un: "sy_unpassed s = ti # rest" by (cases "sy_unpassed s") auto
      let ?t = "(sy_ticker s)\<lparr>tk_tickChan := tk_tickChan (sy_ticker s) @ [ti]\<rparr>"
      have s': "s' = s\<lparr>sy_ticker := ?t, sy_passed := Suc (sy_passed s)\<rparr>"
        using step SyPass un False by (simp add: sy_ticker_step_def ticker_ScheduleTimeout_def)
      have un': "sy_unpassed s' = rest" using un by (simp add: s' sy_unpassed_def drop_Suc tl_drop [symmetric])
      have "in_order s'" using inv unfolding sys_inv_def in_order_def un'
        by (auto simp: s' un in_flight_def intro!: exI)
      moreover have "pending s' = pending s" by (auto simp: pending_def un un') (auto simp: s' in_flight_def)
      ultimately show ?thesis using inv by (simp add: sys_inv_def) (simp add: s')
    qed
  next
    case SyStop
    show ?thesis
    proof (cases "fst (Stop (sy_core s))")
      case None
      then have c: "Stop (sy_core s) = (None, (sy_core s)\<lparr>started := False\<rparr>)" by (auto simp: Stop_def split: if_splits)
      have s': "s' = s\<lparr>sy_core := (sy_core s)\<lparr>started := False\<rparr>, sy_ticker := ticker_Stop (sy_ticker s)\<rparr>"
        using step by (simp add: SyStop c sy_ticker_step_def)
      have "sy_unpassed s' = sy_unpassed s" by (simp add: s' sy_unpassed_def)
      then have "in_order s'" using inv unfolding sys_inv_def in_order_def
        by (auto simp: s' ticker_Stop_def stopTimer_def in_flight_def)
      then show ?thesis using inv
        by (auto simp: sys_inv_def s' ticker_Stop_def safe_def on_time_def c_pos_def)
    next
      case (Some err)
      with step SyStop inv show ?thesis by (cases "Stop (sy_core s)") simp
    qed
  qed (use step in \<open>auto intro: core tick\<close>)
qed

interpretation system_machine: machine "system_step env" "\<lambda>_. True" "sys_inv env" for env
  by unfold_locales (rule system_step_inv)

lemma system_run_inv:
  assumes "booted env V c0" and "run_steps (system_step env) es (system_start c0) = Inr s"
  shows "sys_inv env s"
  using system_machine.run_inv [of es env "system_start c0" s] assms sys_inv_start by (simp add: list_all_iff)

text \<open>C8. A node is never left without a timeout: unless it has been stopped, or is in the very last
  round of 64 bits, one for its present height, round and step is always on its way to it - to be
  passed to the ticker, in the tick channel, in the timer, or on its way back - in every
  interleaving of the node's goroutines and whatever messages arrive.\<close>

theorem system_never_stuck:
  assumes "booted env V c0" and "run_steps (system_step env) es (system_start c0) = Inr s"
    and "\<not> tk_stopCh (sy_ticker s)" and "Round (sy_core s) < max_int64"
  shows "\<exists>ti \<in> pending s. ti_hrs ti = HRS (Height (sy_core s)) (Round (sy_core s)) (Step (sy_core s))"
  using system_run_inv [OF assms(1,2)] assms(3,4) on_time_last [of "sy_core s"]
  by (auto simp: sys_inv_def c_pos_def)

text \<open>C16. The ticker drops none of the core's timeouts: every one that it takes from the tick channel
  is for a later position than its current one, or repeats a fetch step, so it replaces the timer.\<close>

theorem no_timeout_dropped:
  assumes "booted env V c0" and "run_steps (system_step env) es (system_start c0) = Inr s"
    and "tk_tickChan (sy_ticker s) = newti # rest"
  shows "\<not> ticker_ignores (tk_ti (sy_ticker s)) newti"
proof -
  have "in_order s" "on_time (sy_core s)" using system_run_inv [OF assms(1,2)] by (simp_all add: sys_inv_def)
  then show ?thesis using assms(3) by (intro next_tick_accepted in_order_accepts)
qed



section \<open>An example\<close>

text \<open>The first timeout passes through the ticker and back, and the node enters round 0; the timeout
  for its next position is in the tick channel.\<close>

definition fx_around :: "system_event list" where
  "fx_around = [SyPass, SyTick, SyExpire, SyFire, SySend 0, SyTock, SyPass]"

definition fx_system :: System where
  "fx_system = projr (run_steps (system_step fx_env) fx_around (system_start fx_start))"

lemmas fx_system_eval = fx_system_def fx_around_def system_start_def sy_unpassed_def sy_ticker_step_def sy_core_step_def
  NewTimeoutTicker_def stopTimer_def ticker_ScheduleTimeout_def tickTockBufferSize_def ticker_ignores_def fx_run_eval

lemma fx_system_run: "run_steps (system_step fx_env) fx_around (system_start fx_start) = Inr fx_system"
  by (simp add: fx_system_eval)

lemma fx_system_state:
  "Height (sy_core fx_system) = 1" "Round (sy_core fx_system) = 0" "Step (sy_core fx_system) = RoundStepPropose"
  "\<not> tk_stopCh (sy_ticker fx_system)" "map ti_hrs (tk_tickChan (sy_ticker fx_system)) = [HRS 1 0 RoundStepPropose]"
  "ti_hrs (tk_ti (sy_ticker fx_system)) = HRS 1 0 RoundStepNewHeight"
  by (simp_all add: fx_system_eval ti_hrs_def)

lemma system_never_stuck_witness:
  "\<exists>ti \<in> pending fx_system. ti_hrs ti = HRS 1 0 RoundStepPropose"
  using system_never_stuck [OF fx_booted fx_system_run fx_system_state(4)] by (simp add: fx_system_state)

lemma no_timeout_dropped_witness:
  "\<exists>ti. tk_tickChan (sy_ticker fx_system) = [ti] \<and> \<not> ticker_ignores (tk_ti (sy_ticker fx_system)) ti"
proof -
  obtain ti where "tk_tickChan (sy_ticker fx_system) = [ti]" using fx_system_state(5) by auto
  with no_timeout_dropped [OF fx_booted fx_system_run] show ?thesis by blast
qed


end
