(* ===== verification/State_Sync.thy ===== *)
theory State_Sync
  imports Timeouts
begin

text \<open>
  Height catch-up (\<^verbatim>\<open>src/state_sync.go\<close>): votes of other heights are collected in height vote sets
  of their own, and when one of them holds enough votes the core jumps to its height. The source
  marks it as deprecated; the call in \<^verbatim>\<open>addVote\<close> is commented out. A height's vote set is handed to
  the core and taken out of the map at the same time, so the two never share one.
\<close>

section \<open>The model\<close>

record StateSync =
  ss_heightVotes :: "int \<rightharpoonup> HeightVoteSet"

definition NewStateSync :: StateSync where
  "NewStateSync = \<lparr>ss_heightVotes = Map.empty\<rparr>"

text \<open>The loop that forgets the heights the core has reached.\<close>

definition ss_prune :: "Core \<Rightarrow> StateSync \<Rightarrow> StateSync" where
  "ss_prune c s = s\<lparr>ss_heightVotes := (\<lambda>k. if k \<le> Height c then None else ss_heightVotes s k)\<rparr>"

definition ss_updateState :: "int \<Rightarrow> int \<Rightarrow> RoundStepType \<Rightarrow> StateSync \<times> Core \<Rightarrow> StateSync \<times> Core" where
  "ss_updateState height round step = (\<lambda>(s, c).
     (s\<lparr>ss_heightVotes := (ss_heightVotes s)(height := None)\<rparr>,
      c\<lparr>Height := height, Round := round, Step := step, Votes := ss_heightVotes s height\<rparr>))"

text \<open>The unlocking after a polka, which does not compare the polka with the lock.\<close>

definition ss_unlock :: "Vote \<Rightarrow> Core \<Rightarrow> Core" where
  "ss_unlock v c =
     (if LockedProposal c \<noteq> None \<and> LockedRound c < v_Round v
      then c\<lparr>LockedRound := -1, LockedProposal := None\<rparr> else c)"

definition ss_prevotes :: "Env \<Rightarrow> Vote \<Rightarrow> VoteSet option \<Rightarrow> StateSync \<times> Core \<Rightarrow> (StateSync \<times> Core) outcome" where
  "ss_prevotes env v prevotes = (\<lambda>(s, c).
     (if HasTwoThirdsMajority prevotes then
        (let (s1, c1) = ss_updateState (v_Height v) (v_Round v) RoundStepNewHeight (s, c)
         in and_then (enterNewRound env (v_Height v) (v_Round v) c1) (\<lambda>c2.
            and_then (enterPrecommit env (v_Height v) (v_Round v) (ss_unlock v c2)) (\<lambda>c3.
              Inr (s1, c3))))
      else if HasTwoThirdsAny (app c) prevotes then
        (let (s1, c1) = ss_updateState (v_Height v) (v_Round v) RoundStepNewHeight (s, c)
         in and_then (enterNewRound env (v_Height v) (v_Round v) c1) (\<lambda>c2.
            and_then (enterPrevoteWait env (v_Height v) (v_Round v) c2) (\<lambda>c3.
              Inr (s1, c3))))
      else Inr (s, c)))"

definition ss_precommits :: "Env \<Rightarrow> Vote \<Rightarrow> VoteSet option \<Rightarrow> StateSync \<times> Core \<Rightarrow> (StateSync \<times> Core) outcome" where
  "ss_precommits env v precommits = (\<lambda>(s, c).
     (if HasTwoThirdsMajority precommits then
        (let (s1, c1) = ss_updateState (v_Height v) (v_Round v) RoundStepNewHeight (s, c)
         in and_then (enterNewRound env (v_Height v) (v_Round v) c1) (\<lambda>c2.
            and_then (enterCommit env (v_Height v) (v_Round v) c2) (\<lambda>c3.
              if SkipTimeoutCommit (cfg c3) then
                and_then (HasAll (app c3) precommits) (\<lambda>all.
                  if all then and_then (enterNewRound env (v_Height v) 0 c3) (\<lambda>c4. Inr (s1, c4)) else Inr (s1, c3))
              else Inr (s1, c3))))
      else if HasTwoThirdsAny (app c) precommits then
        (let (s1, c1) = ss_updateState (v_Height v) (v_Round v) RoundStepNewHeight (s, c)
         in and_then (enterNewRound env (v_Height v) (v_Round v) c1) (\<lambda>c2.
            and_then (enterPrecommitWait env (v_Height v) (v_Round v) c2) (\<lambda>c3.
              Inr (s1, c3))))
      else Inr (s, c)))"

text \<open>The vote set of the vote's height is updated through its pointer, here by putting it back. The
  log line at the start calls \<^verbatim>\<open>Vote.String\<close>, which panics on an unknown type.\<close>

definition ss_AddVote :: "Env \<Rightarrow> Vote \<Rightarrow> StateSync \<Rightarrow> Core \<Rightarrow> (StateSync \<times> Core) outcome" where
  "ss_AddVote env v s c =
     (if \<not> IsVoteTypeValid (v_Type v) then Inl (PanicSanity ''Unknown vote type'')
      else let s1 = ss_prune c s
      in and_then
           (case ss_heightVotes s1 (v_Height v) of
              Some hvs \<Rightarrow> Inr hvs
            | None \<Rightarrow> NewHeightVoteSet (v_Height v) (lastCommittedData c)) (\<lambda>hvs.
         and_then (hvs_AddVote (app c) v hvs) (\<lambda>(added, err, hvs').
           let s2 = s1\<lparr>ss_heightVotes := (ss_heightVotes s1)(v_Height v \<mapsto> hvs')\<rparr>
           in if \<not> added then Inr (s2, c)
              else if v_Type v = PrevoteType then ss_prevotes env v (Prevotes (v_Round v) hvs') (s2, c)
              else if v_Type v = PrecommitType then ss_precommits env v (Precommits (v_Round v) hvs') (s2, c)
              else Inr (s2, c))))"


section \<open>The collected votes\<close>

text \<open>Every height the map tracks has a well-formed vote set of that height.\<close>

definition ss_ok :: "StateSync \<Rightarrow> bool" where
  "ss_ok s \<longleftrightarrow> (\<forall>h hvs. ss_heightVotes s h = Some hvs \<longrightarrow> hvs_shape hvs \<and> hvs_height hvs = h)"

lemma ss_ok_new: "ss_ok NewStateSync"
  by (simp add: ss_ok_def NewStateSync_def)

text \<open>The vote set a vote goes to, and what becomes of it.\<close>

lemma ss_AddVote_Inr:
  assumes "ss_AddVote env v s c = Inr (s', c')" and "ss_ok s"
  obtains hvs hvs' added err where
    "hvs_shape hvs" "hvs_height hvs = v_Height v" "hvs_AddVote (app c) v hvs = Inr (added, err, hvs')"
    "v_Height v \<le> Height c \<or> ss_heightVotes s (v_Height v) = None \<Longrightarrow>
       NewHeightVoteSet (v_Height v) (lastCommittedData c) = Inr hvs"
    "Height c < v_Height v \<Longrightarrow> ss_heightVotes s (v_Height v) \<noteq> None \<Longrightarrow> ss_heightVotes s (v_Height v) = Some hvs"
    "(s', c') = ((ss_prune c s)\<lparr>ss_heightVotes := (ss_heightVotes (ss_prune c s))(v_Height v \<mapsto> hvs')\<rparr>, c) \<and> \<not> added \<or>
     added \<and> v_Type v = PrevoteType \<and> ss_prevotes env v (Prevotes (v_Round v) hvs')
       ((ss_prune c s)\<lparr>ss_heightVotes := (ss_heightVotes (ss_prune c s))(v_Height v \<mapsto> hvs')\<rparr>, c) = Inr (s', c') \<or>
     added \<and> v_Type v = PrecommitType \<and> ss_precommits env v (Precommits (v_Round v) hvs')
       ((ss_prune c s)\<lparr>ss_heightVotes := (ss_heightVotes (ss_prune c s))(v_Height v \<mapsto> hvs')\<rparr>, c) = Inr (s', c')"
proof -
  let ?m = "ss_heightVotes (ss_prune c s) (v_Height v)"
  have m: "?m = (if v_Height v \<le> Height c then None else ss_heightVotes s (v_Height v))" by (simp add: ss_prune_def)
  have "IsVoteTypeValid (v_Type v)" using assms(1) by (auto simp: ss_AddVote_def split: if_splits)
  then have valid: "\<not> \<not> IsVoteTypeValid (v_Type v)" by simp
  from assms(1) valid obtain hvs where hvs: "(case ?m of Some hvs \<Rightarrow> Inr hvs
      | None \<Rightarrow> NewHeightVoteSet (v_Height v) (lastCommittedData c)) = Inr hvs"
    by (auto simp: ss_AddVote_def Let_def elim!: and_then_InrE)
  have shape: "hvs_shape hvs" "hvs_height hvs = v_Height v"
    using hvs assms(2) NewHeightVoteSet_shape by (auto simp: m ss_ok_def split: if_splits option.splits)
  note rest = assms(1) [unfolded ss_AddVote_def Let_def if_not_P [OF valid], unfolded hvs and_then_simps]
  from rest obtain added err hvs' where add: "hvs_AddVote (app c) v hvs = Inr (added, err, hvs')"
    by (auto elim!: and_then_InrE)
  have h: "hvs_height hvs \<noteq> 0" using shape(1) by (simp add: hvs_shape_def)
  have t: "added \<Longrightarrow> v_Type v = PrevoteType \<or> v_Type v = PrecommitType"
    using add h by (cases rule: hvs_AddVote_Inr) auto
  show thesis
  proof (rule that [OF shape add])
    show "NewHeightVoteSet (v_Height v) (lastCommittedData c) = Inr hvs"
      if "v_Height v \<le> Height c \<or> ss_heightVotes s (v_Height v) = None"
      using that hvs by (cases "v_Height v \<le> Height c") (auto simp: m)
    show "ss_heightVotes s (v_Height v) = Some hvs"
      if "Height c < v_Height v" "ss_heightVotes s (v_Height v) \<noteq> None"
      using that hvs by (auto simp: m)
  qed (use rest add t in \<open>auto split: if_splits\<close>)
qed

text \<open>The sets stay well-formed: the core takes one out of the map whole.\<close>

definition ss_forget :: "int \<Rightarrow> StateSync \<Rightarrow> StateSync" where
  "ss_forget h s = s\<lparr>ss_heightVotes := (ss_heightVotes s)(h := None)\<rparr>"

lemma ss_ok_forget: "ss_ok s \<Longrightarrow> ss_ok (ss_forget h s)"
  by (simp add: ss_ok_def ss_forget_def)

lemma ss_updateState_eq:
  "ss_updateState h r st (s, c) =
     (ss_forget h s, c\<lparr>Height := h, Round := r, Step := st, Votes := ss_heightVotes s h\<rparr>)"
  by (simp add: ss_updateState_def ss_forget_def)

lemma ss_prevotes_sets:
  assumes "ss_prevotes env v p (s, c) = Inr (s', c')"
  shows "s' = s \<or> s' = ss_forget (v_Height v) s"
  using assms by (auto simp: ss_prevotes_def ss_updateState_eq elim!: and_then_InrE split: if_splits)

lemma ss_precommits_sets:
  assumes "ss_precommits env v p (s, c) = Inr (s', c')"
  shows "s' = s \<or> s' = ss_forget (v_Height v) s"
  using assms by (auto simp: ss_precommits_def ss_updateState_eq elim!: and_then_InrE split: if_splits)

lemma ss_ok_AddVote:
  assumes "ss_AddVote env v s c = Inr (s', c')" and "ss_ok s"
  shows "ss_ok s'"
  using assms
proof (rule ss_AddVote_Inr)
  fix hvs hvs' added err
  let ?s = "(ss_prune c s)\<lparr>ss_heightVotes := (ss_heightVotes (ss_prune c s))(v_Height v \<mapsto> hvs')\<rparr>"
  assume shape: "hvs_shape hvs" "hvs_height hvs = v_Height v" and add: "hvs_AddVote (app c) v hvs = Inr (added, err, hvs')"
    and res: "(s', c') = (?s, c) \<and> \<not> added \<or>
     added \<and> v_Type v = PrevoteType \<and> ss_prevotes env v (Prevotes (v_Round v) hvs') (?s, c) = Inr (s', c') \<or>
     added \<and> v_Type v = PrecommitType \<and> ss_precommits env v (Precommits (v_Round v) hvs') (?s, c) = Inr (s', c')"
  have "hvs_shape hvs'" using shape(1) add by (rule hvs_shape_AddVote)
  moreover have "hvs_height hvs' = v_Height v" using hvs_AddVote_height [OF add] shape by (simp add: hvs_shape_def)
  ultimately have "ss_ok ?s" using assms(2) by (auto simp: ss_ok_def ss_prune_def)
  moreover have "s' = ?s \<or> s' = ss_forget (v_Height v) ?s"
    using res ss_prevotes_sets ss_precommits_sets by blast
  ultimately show ?thesis using ss_ok_forget by blast
qed

text \<open>No validator alone holds more than two thirds of the power.\<close>

definition spread :: "ICommittee \<Rightarrow> bool" where
  "spread V \<longleftrightarrow> total_ok V \<and> (\<forall>k. 0 \<le> GetVotingPower V k \<and> GetVotingPower V k \<le> two_thirds V)"

text \<open>The first vote of a height reaches no threshold then.\<close>

lemma first_vote:
  assumes new: "NewHeightVoteSet h b = Inr hvs" and add: "hvs_AddVote V v hvs = Inr (True, err, hvs')"
    and V: "spread V" and vs: "hvs_lookup hvs' (v_Round v) (v_Type v) = Some vs"
  shows "\<not> HasTwoThirdsMajority (Some vs)" and "\<not> HasTwoThirdsAny V (Some vs)"
proof -
  have h: "h \<noteq> 0" using NewHeightVoteSet_shape [OF new] by (simp add: hvs_shape_def)
  obtain hvs0 where "NewHeightVoteSet h b = Inr hvs0" "hvs_height hvs0 = h"
    "\<And>r t vs. hvs_lookup hvs0 r t = Some vs \<Longrightarrow> vs = fresh_set hvs0 r t"
    using NewHeightVoteSet_spec [OF h, of b] by metis
  then have hvs: "hvs_height hvs \<noteq> 0" "target_set hvs r t = fresh_set hvs r t" for r t
    using new h by (auto simp: target_set_def split: option.split)
  let ?p = "GetVotingPower V (v_Address v)" and ?f = "fresh_set hvs (v_Round v) (v_Type v)"
  from add hvs(1) obtain vs' where "v_Type v = PrevoteType \<or> v_Type v = PrecommitType"
    and av: "vs_addVote V (Some v) ?f = Inr (True, err, vs')"
    and put: "hvs' = hvs_put (v_Round v) (v_Type v) vs' (hvs_with (v_Round v) hvs)"
    by (cases rule: hvs_AddVote_Inr) (auto simp: hvs(2))
  then have "vs = vs'" using vs by (simp add: hvs_lookup_put_with [OF hvs(1)])
  also have "vs' = vs_add V v ?f" using vs_addVote_result(1) [OF av] by simp
  finally have eq: "vs = vs_add V v ?f" .
  have f: "vs_sum ?f = 0" "vs_maj23 ?f = NilData" "pdv_of ?f d = newProposedDataVotes" for d
    using hvs(1) by (simp_all add: fresh_set_def pdv_of_def NewVoteSet_def)
  have p: "0 \<le> ?p" "?p \<le> two_thirds V" "total_ok V" using V by (simp_all add: spread_def)
  moreover have "2 * TotalVotingPower V div 3 \<le> TotalVotingPower V" using p(3) unfolding total_ok_def by linarith
  then have "two_thirds V < quorum_of V" "two_thirds V < 2 ^ 63"
    using quorum_ok [OF p(3)] two_thirds_ok [OF p(3)] p(3) by (simp_all add: total_ok_def)
  moreover have "wrap64 ?p = ?p" using calculation by (intro wrap64_idI) auto
  ultimately show "\<not> HasTwoThirdsMajority (Some vs)" and "\<not> HasTwoThirdsAny V (Some vs)"
    by (simp_all add: eq vs_defs vs_add_sum vs_add_maj23 f pdv_addVote_def newProposedDataVotes_def Let_def)
qed

section \<open>Jumping ahead\<close>

lemma ticked_Height:
  assumes "ticked c c'"
  shows "Height c \<le> Height c'"
proof -
  have "p \<le> q" if "tick_path p us q" for p us q
    using that
  proof (induction us arbitrary: p)
    case (Cons ti us)
    then have "p \<le> ti_hrs ti" "ti_hrs ti \<le> q" by (auto simp: next_tick_def)
    then show ?case by (rule order_trans)
  qed simp
  then have "c_pos c \<le> c_pos c'" using assms by (auto simp: ticked_def)
  then show ?thesis by (auto simp: c_pos_def HRS_le)
qed

lemma ss_prevotes_Height:
  assumes "ss_prevotes env v p (s, c) = Inr (s', c')"
  shows "c' = c \<and> \<not> HasTwoThirdsMajority p \<and> \<not> HasTwoThirdsAny (app c) p \<or> v_Height v \<le> Height c'"
proof -
  let ?c1 = "c\<lparr>Height := v_Height v, Round := v_Round v, Step := RoundStepNewHeight, Votes := ss_heightVotes s (v_Height v)\<rparr>"
  have unlock: "ticked c2 (ss_unlock v c2)" for c2 by (auto simp: ss_unlock_def intro: ticked_silent)
  have "c' = c \<and> \<not> HasTwoThirdsMajority p \<and> \<not> HasTwoThirdsAny (app c) p \<or> ticked ?c1 c'"
    using assms
    by (auto simp: ss_prevotes_def ss_updateState_def elim!: and_then_InrE split: if_splits
        intro: enterPrevoteWait_ticked enterNewRound_ticked ticked_trans ticked_trans [OF unlock enterPrecommit_ticked])
  then show ?thesis using ticked_Height [of ?c1 c'] by auto
qed

lemma ss_precommits_Height:
  assumes "ss_precommits env v p (s, c) = Inr (s', c')" and "env_ok env" and "0 \<le> v_Round v" and "0 < v_Height v"
  shows "c' = c \<and> \<not> HasTwoThirdsMajority p \<and> \<not> HasTwoThirdsAny (app c) p \<or> v_Height v \<le> Height c'"
proof -
  let ?c1 = "c\<lparr>Height := v_Height v, Round := v_Round v, Step := RoundStepNewHeight, Votes := ss_heightVotes s (v_Height v)\<rparr>"
  have commit: "ticked c2 c3" if "enterCommit env (v_Height v) (v_Round v) c2 = Inr c3" for c2 c3
  proof (cases "Height c2 = v_Height v")
    case True
    with enterCommit_ticked [OF that assms(2,3)] assms(4) show ?thesis by simp
  next
    case False
    with that show ?thesis by (simp add: enterCommit_def)
  qed
  have "c' = c \<and> \<not> HasTwoThirdsMajority p \<and> \<not> HasTwoThirdsAny (app c) p \<or> ticked ?c1 c'"
    using assms(1)
    by (auto simp: ss_precommits_def ss_updateState_def elim!: and_then_InrE split: if_splits
        dest!: enterPrecommitWait_ticked enterNewRound_ticked commit) (blast intro: ticked_trans)+
  then show ?thesis using ticked_Height [of ?c1 c'] by auto
qed

text \<open>C37. Catch-up only jumps ahead: where no validator alone holds more than two thirds of the voting
  power, a vote given to \<^verbatim>\<open>StateSync.AddVote\<close> either leaves the core alone or takes it from a lower
  height to the vote's, or further; the votes of heights the core has reached are forgotten
  before they can count together.\<close>

theorem sync_jumps_ahead:
  assumes "ss_AddVote env v s c = Inr (s', c')" and "ss_ok s" and "env_ok env" and "0 < Height c"
    and "spread (app c)" and "0 \<le> v_Round v"
  shows "c' = c \<or> Height c < v_Height v \<and> v_Height v \<le> Height c'"
  using assms(1,2)
proof (rule ss_AddVote_Inr)
  fix hvs hvs' added err
  let ?s = "(ss_prune c s)\<lparr>ss_heightVotes := (ss_heightVotes (ss_prune c s))(v_Height v \<mapsto> hvs')\<rparr>"
  assume shape: "hvs_shape hvs" and add: "hvs_AddVote (app c) v hvs = Inr (added, err, hvs')"
    and new: "v_Height v \<le> Height c \<or> ss_heightVotes s (v_Height v) = None \<Longrightarrow>
       NewHeightVoteSet (v_Height v) (lastCommittedData c) = Inr hvs"
    and res: "(s', c') = (?s, c) \<and> \<not> added \<or>
     added \<and> v_Type v = PrevoteType \<and> ss_prevotes env v (Prevotes (v_Round v) hvs') (?s, c) = Inr (s', c') \<or>
     added \<and> v_Type v = PrecommitType \<and> ss_precommits env v (Precommits (v_Round v) hvs') (?s, c) = Inr (s', c')"
  have few: "\<not> HasTwoThirdsMajority (hvs_lookup hvs' (v_Round v) (v_Type v)) \<and>
      \<not> HasTwoThirdsAny (app c) (hvs_lookup hvs' (v_Round v) (v_Type v))" if "v_Height v \<le> Height c" "added"
  proof (cases "hvs_lookup hvs' (v_Round v) (v_Type v)")
    case None
    then show ?thesis by (simp add: vs_defs)
  next
    case (Some vs)
    with first_vote [OF new _ assms(5)] add that show ?thesis by auto
  qed
  show ?thesis
  proof (cases "Height c < v_Height v")
    case True
    with res ss_prevotes_Height ss_precommits_Height [OF _ assms(3,6)] assms(4) show ?thesis by fastforce
  next
    case False
    with res few show ?thesis
      by (auto simp: ss_prevotes_def ss_precommits_def Prevotes_lookup Precommits_lookup)
  qed
qed

section \<open>Votes of another base\<close>

text \<open>A sequence of votes given to the catch-up.\<close>

fun ss_run :: "Env \<Rightarrow> Vote list \<Rightarrow> StateSync \<Rightarrow> Core \<Rightarrow> (StateSync \<times> Core) outcome" where
  "ss_run env [] s c = Inr (s, c)"
| "ss_run env (v # vs) s c = and_then (ss_AddVote env v s c) (\<lambda>(s', c'). ss_run env vs s' c')"

definition ss_based :: "ProposedData \<Rightarrow> StateSync \<Rightarrow> bool" where
  "ss_based b s \<longleftrightarrow> ss_ok s \<and> (\<forall>h hvs. ss_heightVotes s h = Some hvs \<longrightarrow> hvs_base hvs = b)"

lemma NewHeightVoteSet_base: "NewHeightVoteSet h b = Inr hvs \<Longrightarrow> hvs_base hvs = b"
  by (cases "h = 0") (auto simp: NewHeightVoteSet_def hvs_Reset_def hvs_addRound_def NewVoteSet_def)

lemma sync_foreign_step:
  assumes "ss_AddVote env v s c = Inr (s', c')" and "ss_based (lastCommittedData c) s" and "v_Prev v \<noteq> lastCommittedData c"
  shows "c' = c \<and> ss_based (lastCommittedData c) s'"
proof -
  have ok: "ss_ok s" and base: "\<And>h hvs. ss_heightVotes s h = Some hvs \<Longrightarrow> hvs_base hvs = lastCommittedData c"
    using assms(2) by (auto simp: ss_based_def)
  from assms(1) ok show ?thesis
  proof (rule ss_AddVote_Inr)
    fix hvs hvs' added err
    let ?s = "(ss_prune c s)\<lparr>ss_heightVotes := (ss_heightVotes (ss_prune c s))(v_Height v \<mapsto> hvs')\<rparr>"
    assume shape: "hvs_shape hvs" "hvs_height hvs = v_Height v" and add: "hvs_AddVote (app c) v hvs = Inr (added, err, hvs')"
      and new: "v_Height v \<le> Height c \<or> ss_heightVotes s (v_Height v) = None \<Longrightarrow>
         NewHeightVoteSet (v_Height v) (lastCommittedData c) = Inr hvs"
      and old: "Height c < v_Height v \<Longrightarrow> ss_heightVotes s (v_Height v) \<noteq> None \<Longrightarrow> ss_heightVotes s (v_Height v) = Some hvs"
      and res: "(s', c') = (?s, c) \<and> \<not> added \<or>
       added \<and> v_Type v = PrevoteType \<and> ss_prevotes env v (Prevotes (v_Round v) hvs') (?s, c) = Inr (s', c') \<or>
       added \<and> v_Type v = PrecommitType \<and> ss_precommits env v (Precommits (v_Round v) hvs') (?s, c) = Inr (s', c')"
    have h: "hvs_height hvs \<noteq> 0" using shape(1) by (simp add: hvs_shape_def)
    have b: "hvs_base hvs = lastCommittedData c" using new old base NewHeightVoteSet_base by (meson not_le)
    have "\<not> added \<and> hvs_base hvs' = hvs_base hvs \<and> hvs_height hvs' = hvs_height hvs"
      using add h
    proof (cases rule: hvs_AddVote_Inr)
      case (valid vs')
      have "vs_base (target_set hvs (v_Round v) (v_Type v)) \<noteq> v_Prev v"
        using target_set_shape [OF shape(1)] b assms(3) by simp
      with valid(2) show ?thesis by (auto simp: vs_addVote_Some accepts_def valid(3) hvs_with_simps [OF h] split: if_splits)
    qed simp
    moreover have "hvs_shape hvs'" using shape(1) add by (rule hvs_shape_AddVote)
    ultimately show ?thesis using res ok base b shape(2)
      by (auto simp: ss_based_def ss_ok_def ss_prune_def)
  qed
qed

text \<open>C38. Catch-up cannot use the votes of a height whose predecessor the node has not committed itself:
  the vote sets it makes for later heights take the node's own last committed data as their base,
  so that no sequence of votes on another base, whatever their heights, moves the core.\<close>

theorem sync_needs_own_base:
  assumes "ss_run env vs NewStateSync c = Inr (s', c')" and "list_all (\<lambda>v. v_Prev v \<noteq> lastCommittedData c) vs"
  shows "c' = c"
proof -
  have "c' = c" if "ss_run env vs s c = Inr (s', c')" "ss_based (lastCommittedData c) s" for s
    using that assms(2)
  proof (induction vs arbitrary: s)
    case (Cons v vs)
    then obtain s1 c1 where "ss_AddVote env v s c = Inr (s1, c1)" "ss_run env vs s1 c1 = Inr (s', c')"
      by (auto elim!: and_then_InrE)
    with Cons sync_foreign_step [of env v s c s1 c1] show ?case by simp
  qed simp
  moreover have "ss_based (lastCommittedData c) NewStateSync"
    using ss_ok_new by (simp add: ss_based_def NewStateSync_def)
  ultimately show ?thesis using assms(1) by blast
qed


section \<open>An example\<close>

text \<open>Three of four validators prevote for the same data at height 3; a node at height 1 jumps there,
  if the votes are based on its own last committed data, and does not move otherwise.\<close>

definition fx_ahead :: "ProposedData \<Rightarrow> PubKey \<Rightarrow> Vote" where
  "fx_ahead b k = (fx_vote PrevoteType 3 0 fx_data k)\<lparr>v_Prev := b\<rparr>"

definition fx_collect :: "ProposedData \<Rightarrow> PubKey list \<Rightarrow> StateSync \<times> Core" where
  "fx_collect b ks = projr (ss_run fx_env (map (fx_ahead b) ks) NewStateSync fx_start)"

lemmas fx_sync_eval = fx_collect_def fx_ahead_def fx_vote_def NewStateSync_def ss_AddVote_def ss_prune_def ss_prevotes_def
  ss_updateState_def ss_unlock_def IsVoteTypeValid_def fx_run_eval

lemma fx_two_ahead:
  "ss_run fx_env (map (fx_ahead 5) [''b'', ''c'']) NewStateSync fx_start = Inr (fx_collect 5 [''b'', ''c''])"
  "snd (fx_collect 5 [''b'', ''c'']) = fx_start"
  by (simp_all add: fx_sync_eval)

lemma ss_ok_run: "ss_run env vs s c = Inr (s', c') \<Longrightarrow> ss_ok s \<Longrightarrow> ss_ok s'"
  by (induction vs arbitrary: s c) (auto elim!: and_then_InrE dest: ss_ok_AddVote)

definition fx_jump :: "StateSync \<times> Core" where
  "fx_jump = projr (ss_AddVote fx_env (fx_ahead 5 ''d'') (fst (fx_collect 5 [''b'', ''c''])) fx_start)"

lemma fx_jump_run: "ss_AddVote fx_env (fx_ahead 5 ''d'') (fst (fx_collect 5 [''b'', ''c''])) fx_start = Inr fx_jump"
  by (simp add: fx_jump_def fx_sync_eval)

lemma fx_start_state: "Height fx_start = 1" "app fx_start = fx_committee" "lastCommittedData fx_start = 5"
  by (simp_all add: fx_run_eval)

lemma fx_jumped: "Height (snd fx_jump) = 3" "Step (snd fx_jump) = RoundStepPrecommitFetch"
  by (simp_all add: fx_jump_def fx_sync_eval)

lemma sync_jumps_ahead_witness:
  "Height (snd fx_jump) = 3 \<and> (snd fx_jump = fx_start \<or> Height fx_start < v_Height (fx_ahead 5 ''d'') \<and>
     v_Height (fx_ahead 5 ''d'') \<le> Height (snd fx_jump))"
proof -
  have run: "ss_AddVote fx_env (fx_ahead 5 ''d'') (fst (fx_collect 5 [''b'', ''c''])) fx_start = Inr (fst fx_jump, snd fx_jump)"
    using fx_jump_run by simp
  have "ss_run fx_env (map (fx_ahead 5) [''b'', ''c'']) NewStateSync fx_start =
      Inr (fst (fx_collect 5 [''b'', ''c'']), snd (fx_collect 5 [''b'', ''c'']))"
    using fx_two_ahead(1) by simp
  then have "ss_ok (fst (fx_collect 5 [''b'', ''c'']))" using ss_ok_new by (rule ss_ok_run)
  moreover have "spread fx_committee" using fx_total_ok by (simp add: spread_def fx_quorum fx_power)
  moreover have "env_ok fx_env" using fx_booted by (simp add: booted_def)
  ultimately have "snd fx_jump = fx_start \<or> Height fx_start < v_Height (fx_ahead 5 ''d'') \<and>
      v_Height (fx_ahead 5 ''d'') \<le> Height (snd fx_jump)"
    by (intro sync_jumps_ahead [OF run]) (simp_all add: fx_start_state fx_ahead_def)
  then show ?thesis using fx_jumped by simp
qed

lemma sync_needs_own_base_witness:
  "snd (fx_collect 6 [''b'', ''c'', ''d'']) = fx_start"
proof -
  have "ss_run fx_env (map (fx_ahead 6) [''b'', ''c'', ''d'']) NewStateSync fx_start =
      Inr (fst (fx_collect 6 [''b'', ''c'', ''d'']), snd (fx_collect 6 [''b'', ''c'', ''d'']))"
    by (simp add: fx_sync_eval)
  then show ?thesis by (rule sync_needs_own_base) (simp add: fx_start_state fx_ahead_def)
qed

end
