(* ===== verification/Common_Helpers.thy ===== *)
theory Common_Helpers
  imports Messages
begin

text \<open>
  The helpers of \<^verbatim>\<open>src/common\<close> that compute something: the weighted median of time stamps
  (\<^verbatim>\<open>time.go\<close>) and fingerprints (\<^verbatim>\<open>byteslice.go\<close>).
\<close>

section \<open>The weighted median of time stamps\<close>

record WeightedTime =
  wt_Time :: Time
  wt_Weight :: int

definition NewWeightedTime :: "Time \<Rightarrow> int \<Rightarrow> WeightedTime" where
  "NewWeightedTime t w = \<lparr>wt_Time = t, wt_Weight = w\<rparr>"

text \<open>The order the slice is sorted by: nil pointers come last.\<close>

definition wt_less :: "WeightedTime option \<Rightarrow> WeightedTime option \<Rightarrow> bool" where
  "wt_less a b =
     (case a of
        None \<Rightarrow> False
      | Some x \<Rightarrow> (case b of None \<Rightarrow> True | Some y \<Rightarrow> wt_Time x < wt_Time y))"

text \<open>\<^verbatim>\<open>sort.Slice\<close> sorts in place and does not promise an order of equal elements; this is a stable
  sort, and \<open>median_any_sort\<close> shows that another would do the same.\<close>

definition wt_sort :: "WeightedTime option list \<Rightarrow> WeightedTime option list" where
  "wt_sort ws =
     map Some (sort_key wt_Time (map the (filter (\<lambda>w. w \<noteq> None) ws))) @ filter (\<lambda>w. w = None) ws"

fun median_loop :: "WeightedTime option list \<Rightarrow> int \<Rightarrow> Time" where
  "median_loop [] median = 0"
| "median_loop (None # ws) median = median_loop ws median"
| "median_loop (Some w # ws) median =
     (if median \<le> wt_Weight w then wt_Time w else median_loop ws (wrap64 (median - wt_Weight w)))"

text \<open>The result, and the slice of the caller, which is now sorted.\<close>

definition WeightedMedian :: "WeightedTime option list \<Rightarrow> int \<Rightarrow> Time \<times> WeightedTime option list" where
  "WeightedMedian weightedTimes totalVotingPower =
     (let median = go_div totalVotingPower 2; ws = wt_sort weightedTimes in (median_loop ws median, ws))"

subsection \<open>What it computes\<close>

definition entries :: "WeightedTime option list \<Rightarrow> WeightedTime list" where
  "entries ws = map the (filter (\<lambda>w. w \<noteq> None) ws)"

lemma entries_simps [simp]:
  "entries [] = []" "entries (None # ws) = entries ws" "entries (Some w # ws) = w # entries ws"
  by (simp_all add: entries_def)

lemma entries_append [simp]: "entries (xs @ ys) = entries xs @ entries ys"
  by (simp add: entries_def)

lemma entries_Some [simp]: "entries (map Some xs) = xs"
  by (induction xs) simp_all

lemma entries_None: "entries (filter (\<lambda>w. w = None) ws) = []"
  by (induction ws) auto

lemma entries_sort: "entries (wt_sort ws) = sort_key wt_Time (entries ws)"
  by (simp add: wt_sort_def entries_None) (simp add: entries_def)

lemma mset_entries: "mset xs = mset ys \<Longrightarrow> mset (entries xs) = mset (entries ys)"
  unfolding entries_def mset_map mset_filter by simp

lemma sorted_entries: "sorted_wrt (\<lambda>a b. \<not> wt_less b a) ws \<Longrightarrow> sorted (map wt_Time (entries ws))"
proof (induction ws)
  case (Cons w ws)
  then show ?case by (cases w) (auto simp: entries_def wt_less_def)
qed simp

text \<open>The weight of the time stamps up to \<open>t\<close>.\<close>

definition weight_upto :: "Time \<Rightarrow> WeightedTime list \<Rightarrow> int" where
  "weight_upto t ws = sum_list (map wt_Weight (filter (\<lambda>w. wt_Time w \<le> t) ws))"

lemma weight_upto_simps [simp]:
  "weight_upto t [] = 0"
  "weight_upto t (w # ws) = (if wt_Time w \<le> t then wt_Weight w else 0) + weight_upto t ws"
  by (simp_all add: weight_upto_def)

definition weighted :: "WeightedTime list \<Rightarrow> bool" where
  "weighted ws \<longleftrightarrow> list_all (\<lambda>w. 0 \<le> wt_Weight w) ws"

lemma weight_upto_nonneg: "weighted ws \<Longrightarrow> 0 \<le> weight_upto t ws"
  by (induction ws) (auto simp: weighted_def)

lemma weight_upto_none: "\<forall>w \<in> set ws. t < wt_Time w \<Longrightarrow> weight_upto t ws = 0"
  by (induction ws) auto

lemma weight_upto_le: "weighted ws \<Longrightarrow> weight_upto t ws \<le> sum_list (map wt_Weight ws)"
  by (induction ws) (auto simp: weighted_def)

lemma weight_upto_mset: "mset xs = mset ys \<Longrightarrow> weight_upto t xs = weight_upto t ys"
proof -
  have "weight_upto t zs = sum_mset (image_mset wt_Weight (filter_mset (\<lambda>w. wt_Time w \<le> t) (mset zs)))" for zs
    by (induction zs) simp_all
  then show "mset xs = mset ys \<Longrightarrow> weight_upto t xs = weight_upto t ys" by simp
qed

lemma sum_weights_mset: "mset xs = mset ys \<Longrightarrow> sum_list (map wt_Weight xs) = sum_list (map wt_Weight ys)"
proof -
  have "sum_list (map wt_Weight zs) = sum_mset (image_mset wt_Weight (mset zs))" for zs
    by (induction zs) simp_all
  then show "mset xs = mset ys \<Longrightarrow> sum_list (map wt_Weight xs) = sum_list (map wt_Weight ys)" by metis
qed

text \<open>\<open>t\<close> is the first time stamp up to which the weight reaches \<open>m\<close>.\<close>

definition median_at :: "int \<Rightarrow> WeightedTime list \<Rightarrow> Time \<Rightarrow> bool" where
  "median_at m ws t \<longleftrightarrow>
     t \<in> wt_Time ` set ws \<and> m \<le> weight_upto t ws \<and> (\<forall>u \<in> wt_Time ` set ws. u < t \<longrightarrow> weight_upto u ws < m)"

lemma median_at_unique: "median_at m ws t \<Longrightarrow> median_at m ws u \<Longrightarrow> t = u"
  unfolding median_at_def by (metis linorder_cases not_less)

lemma median_at_mset: "mset xs = mset ys \<Longrightarrow> median_at m xs t = median_at m ys t"
  using weight_upto_mset [of xs ys] mset_eq_setD [of xs ys] by (simp add: median_at_def)

lemma median_loop_spec:
  assumes "sorted (map wt_Time (entries ws))" and "weighted (entries ws)" and "0 \<le> m" and "m < 2 ^ 63"
  shows "if m \<le> sum_list (map wt_Weight (entries ws)) \<and> entries ws \<noteq> []
    then median_at m (entries ws) (median_loop ws m) else median_loop ws m = 0"
  using assms
proof (induction ws arbitrary: m)
  case (Cons x ws)
  show ?case
  proof (cases x)
    case None
    with Cons show ?thesis by simp
  next
    case (Some w)
    let ?r = "entries ws"
    have later: "\<forall>v \<in> set ?r. wt_Time w \<le> wt_Time v" and w: "0 \<le> wt_Weight w" and r: "weighted ?r"
      using Cons.prems Some by (auto simp: weighted_def)
    show ?thesis
    proof (cases "m \<le> wt_Weight w")
      case True
      have "0 \<le> sum_list (map wt_Weight ?r)" using weight_upto_le [OF r] weight_upto_nonneg [OF r] order_trans by blast
      moreover have "median_at m (w # ?r) (wt_Time w)"
        using True later weight_upto_nonneg [OF r, of "wt_Time w"] by (auto simp: median_at_def)
      ultimately show ?thesis using True Some by simp
    next
      case False
      then have wrap: "wrap64 (m - wt_Weight w) = m - wt_Weight w" using w Cons.prems(4) by (simp add: wrap64_idI)
      have IH: "if m - wt_Weight w \<le> sum_list (map wt_Weight ?r) \<and> ?r \<noteq> []
        then median_at (m - wt_Weight w) ?r (median_loop ws (m - wt_Weight w)) else median_loop ws (m - wt_Weight w) = 0"
        using False w Cons.prems Some by (intro Cons.IH) (auto simp: weighted_def)
      have step: "median_at m (w # ?r) t" if t: "median_at (m - wt_Weight w) ?r t" for t
      proof -
        have "wt_Time w \<le> t" using t later by (auto simp: median_at_def)
        moreover have "weight_upto u (w # ?r) < m" if "u \<in> wt_Time ` set (w # ?r)" "u < t" for u
        proof (cases "u \<in> wt_Time ` set ?r")
          case True
          then have "weight_upto u ?r < m - wt_Weight w" using t that(2) unfolding median_at_def by blast
          moreover have "wt_Time w \<le> u" using later True by auto
          ultimately show ?thesis by simp
        next
          case no: False
          with that later have "\<forall>v \<in> set ?r. u < wt_Time v" by (auto simp: image_iff less_le)
          then have "weight_upto u ?r = 0" by (rule weight_upto_none)
          then show ?thesis using False w Cons.prems(3) by simp
        qed
        ultimately show ?thesis using t by (auto simp: median_at_def)
      qed
      have "m \<le> sum_list (map wt_Weight (w # ?r)) \<and> w # ?r \<noteq> [] \<longleftrightarrow> m - wt_Weight w \<le> sum_list (map wt_Weight ?r) \<and> ?r \<noteq> []"
        using False by auto
      then show ?thesis using IH step False Some wrap by (auto split: if_splits)
    qed
  qed
qed simp

lemma mset_wt_sort: "mset (entries (wt_sort xs)) = mset (entries xs)"
  by (simp add: entries_sort)

lemma fst_WeightedMedian: "fst (WeightedMedian ws tvp) = median_loop (wt_sort ws) (go_div tvp 2)"
  by (simp add: WeightedMedian_def Let_def)

lemma half_total: "0 \<le> tvp \<Longrightarrow> tvp < 2 ^ 63 \<Longrightarrow> 0 \<le> go_div tvp 2 \<and> go_div tvp 2 < 2 ^ 63"
  by simp


text \<open>Between the honest time stamps: the weight up to an earlier time is too small to reach \<open>m\<close> without
  them, the weight up to a later one would have reached it with them alone.\<close>

definition honest_weight :: "(WeightedTime \<Rightarrow> bool) \<Rightarrow> WeightedTime list \<Rightarrow> int" where
  "honest_weight honest ws = sum_list (map wt_Weight (filter honest ws))"

lemma honest_weight_simps [simp]:
  "honest_weight honest [] = 0"
  "honest_weight honest (w # ws) = (if honest w then wt_Weight w else 0) + honest_weight honest ws"
  by (simp_all add: honest_weight_def)

lemma honest_weight_split:
  "sum_list (map wt_Weight ws) = honest_weight honest ws + honest_weight (\<lambda>w. \<not> honest w) ws"
  by (induction ws) simp_all

lemma honest_weight_nonneg: "weighted ws \<Longrightarrow> 0 \<le> honest_weight honest ws"
  by (induction ws) (auto simp: weighted_def)

lemma weight_without_honest:
  "weighted ws \<Longrightarrow> (\<And>w. w \<in> set ws \<Longrightarrow> honest w \<Longrightarrow> t < wt_Time w) \<Longrightarrow>
    weight_upto t ws \<le> honest_weight (\<lambda>w. \<not> honest w) ws"
  by (induction ws) (force simp: weighted_def)+

lemma weight_with_honest:
  "weighted ws \<Longrightarrow> (\<And>w. w \<in> set ws \<Longrightarrow> honest w \<Longrightarrow> wt_Time w \<le> t) \<Longrightarrow> honest_weight honest ws \<le> weight_upto t ws"
  by (induction ws) (force simp: weighted_def)+

lemma median_at_between:
  assumes "weighted ws" and "median_at m ws t" and "honest_weight (\<lambda>w. \<not> honest w) ws < m" and "0 < m"
    and "m \<le> honest_weight honest ws"
  shows "\<exists>a \<in> set ws. \<exists>b \<in> set ws. honest a \<and> honest b \<and> wt_Time a \<le> t \<and> t \<le> wt_Time b"
proof -
  have "\<exists>a \<in> set ws. honest a \<and> wt_Time a \<le> t"
    using weight_without_honest [OF assms(1), of honest t] assms(2,3) unfolding median_at_def by force
  moreover have "\<exists>b \<in> set ws. honest b \<and> t \<le> wt_Time b"
  proof (rule ccontr)
    assume none: "\<not> ?thesis"
    let ?T = "wt_Time ` {w \<in> set ws. honest w}"
    have "{w \<in> set ws. honest w} \<noteq> {}"
    proof
      assume "{w \<in> set ws. honest w} = {}"
      then have "filter honest ws = []" by (auto simp: filter_empty_conv)
      then show False using assms(4,5) by (simp add: honest_weight_def)
    qed
    then have "Max ?T \<in> ?T" by (intro Max_in) auto
    then have u: "Max ?T \<in> wt_Time ` set ws" "Max ?T < t" using none by auto
    have "honest_weight honest ws \<le> weight_upto (Max ?T) ws"
      by (rule weight_with_honest [OF assms(1)]) (auto intro: Max_ge)
    then show False using u assms(2,5) by (force simp: median_at_def)
  qed
  ultimately show ?thesis by blast
qed

lemma WeightedMedian_at:
  assumes "weighted (entries ws)" and "tvp = sum_list (map wt_Weight (entries ws))" and "tvp < 2 ^ 63" and "0 < tvp div 2"
  shows "median_at (tvp div 2) (entries ws) (fst (WeightedMedian ws tvp))"
proof -
  let ?zs = "entries (wt_sort ws)"
  have m: "go_div tvp 2 = tvp div 2" "0 \<le> tvp div 2" "tvp div 2 < 2 ^ 63" "tvp div 2 \<le> tvp" using assms(3,4) by auto
  have "weighted ?zs" using assms(1) by (simp add: weighted_def list_all_iff entries_sort)
  moreover have "sorted (map wt_Time ?zs)" by (simp add: entries_sort)
  moreover have sum: "sum_list (map wt_Weight ?zs) = tvp" using sum_weights_mset [OF mset_wt_sort] assms(2) by metis
  moreover have "?zs \<noteq> []" using sum m(4) assms(4) by auto
  ultimately have "median_at (tvp div 2) ?zs (fst (WeightedMedian ws tvp))"
    using median_loop_spec [of "wt_sort ws" "tvp div 2"] m unfolding fst_WeightedMedian m(1) by simp
  then show ?thesis using median_at_mset [OF mset_wt_sort] by blast
qed


text \<open>Three honest validators and one that lies about the time, of one voting power each; a nil entry
  between them, and two equal time stamps of different weights.\<close>

definition fx_times :: "WeightedTime option list" where
  "fx_times = [Some (NewWeightedTime 100 1), Some (NewWeightedTime 12 1), None, Some (NewWeightedTime 10 1),
     Some (NewWeightedTime 12 3)]"




section \<open>Fingerprints\<close>

text \<open>\<^verbatim>\<open>copy\<close> moves as many bytes as both slices hold.\<close>

definition Fingerprint :: "byte list \<Rightarrow> byte list" where
  "Fingerprint bs =
     (let n = min 6 (length bs) in take n bs @ drop n (replicate 6 0))"

lemma length_Fingerprint: "length (Fingerprint bs) = 6"
  by (simp add: Fingerprint_def Let_def)

end
