(* ===== verification/Go_Format.thy ===== *)
theory Go_Format
  imports Messages
begin

text \<open>
  What the program uses of Go's \<^verbatim>\<open>fmt.Sprintf\<close>: the verbs \<^verbatim>\<open>%v\<close>, \<^verbatim>\<open>%d\<close>, \<^verbatim>\<open>%s\<close> and \<^verbatim>\<open>%X\<close> with a width and the
  flag for leading zeros, and what it prints for verbs without an argument, arguments without a
  verb and verbs that do not fit their argument. The other flags are read over without their
  effect; precisions and argument indexes are not modelled. Further the texts of \<^verbatim>\<open>time.Time\<close> and \<^verbatim>\<open>time.Duration\<close>.
\<close>

section \<open>Numbers\<close>

definition digit :: "int \<Rightarrow> char" where
  "digit n = ''0123456789ABCDEF'' ! nat n"

text \<open>The digits of a natural number in a base.\<close>

function digits :: "int \<Rightarrow> int \<Rightarrow> string" where
  "digits base n = (if n < base \<or> base < 2 then [digit n] else digits base (n div base) @ [digit (n mod base)])"
  by pat_completeness auto
termination
proof (relation "measure (\<lambda>(base, n). nat n)", simp)
  fix base n :: int assume "\<not> (n < base \<or> base < 2)"
  then have "1 < base" "0 < n" by auto
  then have "n div base < n" by (rule int_div_less_self [rotated])
  with \<open>0 < n\<close> show "((base, n div base), (base, n)) \<in> measure (\<lambda>(base, n). nat n)" by simp
qed

declare digits.simps [simp del]

definition signed :: "int \<Rightarrow> int \<Rightarrow> string" where
  "signed base i = (if i < 0 then CHR ''-'' # digits base (- i) else digits base i)"

abbreviation dec :: "int \<Rightarrow> string" where
  "dec \<equiv> signed 10"

definition hex_byte :: "byte \<Rightarrow> string" where
  "hex_byte b = [digit (uint b div 16), digit (uint b mod 16)]"

text \<open>Padding to a width: blanks before the text, or zeros between the sign and the digits.\<close>

definition pad :: "nat \<Rightarrow> string \<Rightarrow> string" where
  "pad width s = replicate (width - length s) CHR '' '' @ s"

definition pad_zero :: "nat \<Rightarrow> string \<Rightarrow> string" where
  "pad_zero width s =
     (case s of
        c # cs \<Rightarrow> if c = CHR ''-'' then c # replicate (width - length s) CHR ''0'' @ cs
                 else replicate (width - length s) CHR ''0'' @ s
      | [] \<Rightarrow> replicate width CHR ''0'')"


section \<open>Values\<close>

text \<open>An argument of type \<^verbatim>\<open>interface{}\<close>: the name of its dynamic type and its value. A value whose method
  \<^verbatim>\<open>Error\<close> or \<^verbatim>\<open>String\<close> renders it is \<open>FShown\<close> of what the method returns.\<close>

datatype fmt_val =
    FInt int
  | FString string
  | FBytes "byte list"
  | FShown string
  | FNil

record fmt_arg =
  fa_type :: string
  fa_val :: fmt_val

definition newline :: string where
  "newline = [CHR 0x0A]"

definition join :: "string \<Rightarrow> string list \<Rightarrow> string" where
  "join sep ss = (case ss of [] \<Rightarrow> [] | t # ts \<Rightarrow> t @ concat (map (\<lambda>u. sep @ u) ts))"

record fmt_spec =
  fs_zero :: bool
  fs_width :: nat

definition fmt_int :: "fmt_spec \<Rightarrow> string \<Rightarrow> string" where
  "fmt_int sp s = (if fs_zero sp then pad_zero (fs_width sp) s else pad (fs_width sp) s)"

definition show_value :: "fmt_spec \<Rightarrow> fmt_val \<Rightarrow> string" where
  "show_value sp v =
     (case v of
        FInt i \<Rightarrow> fmt_int sp (dec i)
      | FString s \<Rightarrow> pad (fs_width sp) s
      | FBytes bs \<Rightarrow> ''['' @ join '' '' (map (\<lambda>b. fmt_int sp (dec (uint b))) bs) @ '']''
      | FShown s \<Rightarrow> pad (fs_width sp) s
      | FNil \<Rightarrow> pad (fs_width sp) ''<nil>'')"

definition plain_spec :: fmt_spec where
  "plain_spec = \<lparr>fs_zero = False, fs_width = 0\<rparr>"

definition typed_text :: "fmt_arg \<Rightarrow> string" where
  "typed_text a =
     (case fa_val a of FNil \<Rightarrow> ''<nil>'' | v \<Rightarrow> fa_type a @ ''='' @ show_value plain_spec v)"

definition bad_verb :: "char \<Rightarrow> fmt_arg \<Rightarrow> string" where
  "bad_verb verb a = ''%!'' @ [verb] @ ''('' @ typed_text a @ '')''"

definition show_arg :: "fmt_spec \<Rightarrow> char \<Rightarrow> fmt_arg \<Rightarrow> string" where
  "show_arg sp verb a =
     (if verb = CHR ''v'' then show_value sp (fa_val a)
      else if verb = CHR ''d'' then
        (case fa_val a of FInt _ \<Rightarrow> show_value sp (fa_val a) | FBytes _ \<Rightarrow> show_value sp (fa_val a) | _ \<Rightarrow> bad_verb verb a)
      else if verb = CHR ''s'' then
        (case fa_val a of
           FString _ \<Rightarrow> show_value sp (fa_val a)
         | FShown _ \<Rightarrow> show_value sp (fa_val a)
         | FBytes bs \<Rightarrow> pad (fs_width sp) (map (\<lambda>b. char_of (unat b)) bs)
         | _ \<Rightarrow> bad_verb verb a)
      else if verb = CHR ''X'' then
        (case fa_val a of
           FInt i \<Rightarrow> fmt_int sp (signed 16 i)
         | FBytes bs \<Rightarrow> concat (map hex_byte bs)
         | FString s \<Rightarrow> concat (map hex_byte (string_bytes s))
         | FShown s \<Rightarrow> concat (map hex_byte (string_bytes s))
         | FNil \<Rightarrow> bad_verb verb a)
      else bad_verb verb a)"


section \<open>Formats\<close>

definition extra_args :: "fmt_arg list \<Rightarrow> string" where
  "extra_args args = (if args = [] then [] else ''%!(EXTRA '' @ join '', '' (map typed_text args) @ '')'')"

definition is_flag :: "char \<Rightarrow> bool" where
  "is_flag c \<longleftrightarrow> List.member ''+- #'' c"

definition is_digit :: "char \<Rightarrow> bool" where
  "is_digit c \<longleftrightarrow> List.member ''0123456789'' c"

text \<open>One pass over the format; \<open>Some sp\<close> after a \<^verbatim>\<open>%\<close> whose flag and width read so far are \<open>sp\<close>.\<close>

fun fmt_loop :: "fmt_spec option \<Rightarrow> string \<Rightarrow> fmt_arg list \<Rightarrow> string" where
  "fmt_loop None [] args = extra_args args"
| "fmt_loop (Some sp) [] args = ''%!(NOVERB)'' @ extra_args args"
| "fmt_loop None (c # cs) args =
     (if c = CHR ''%'' then fmt_loop (Some plain_spec) cs args else c # fmt_loop None cs args)"
| "fmt_loop (Some sp) (c # cs) args =
     (if is_flag c \<and> fs_width sp = 0 then fmt_loop (Some sp) cs args
      else if c = CHR ''0'' \<and> fs_width sp = 0 then fmt_loop (Some (sp\<lparr>fs_zero := True\<rparr>)) cs args
      else if is_digit c
      then fmt_loop (Some (sp\<lparr>fs_width := 10 * fs_width sp + (of_char c - 48)\<rparr>)) cs args
      else if c = CHR ''%'' then c # fmt_loop None cs args
      else case args of
             [] \<Rightarrow> ''%!'' @ [c] @ ''(MISSING)'' @ fmt_loop None cs []
           | a # as \<Rightarrow> show_arg sp c a @ fmt_loop None cs as)"

definition Sprintf :: "string \<Rightarrow> fmt_arg list \<Rightarrow> string" where
  "Sprintf format args = fmt_loop None format args"

text \<open>A format without \<^verbatim>\<open>%\<close> and without arguments is printed as it is.\<close>

lemma Sprintf_plain:
  assumes "CHR ''%'' \<notin> set s"
  shows "Sprintf s [] = s"
proof -
  have "fmt_loop None s [] = s" using assms by (induction s) (auto simp: extra_args_def)
  then show ?thesis by (simp add: Sprintf_def)
qed

abbreviation arg_int :: "string \<Rightarrow> int \<Rightarrow> fmt_arg" where
  "arg_int t i \<equiv> \<lparr>fa_type = t, fa_val = FInt i\<rparr>"

abbreviation arg_string :: "string \<Rightarrow> fmt_arg" where
  "arg_string s \<equiv> \<lparr>fa_type = ''string'', fa_val = FString s\<rparr>"

abbreviation arg_bytes :: "string \<Rightarrow> byte list \<Rightarrow> fmt_arg" where
  "arg_bytes t bs \<equiv> \<lparr>fa_type = t, fa_val = FBytes bs\<rparr>"

abbreviation arg_shown :: "string \<Rightarrow> string \<Rightarrow> fmt_arg" where
  "arg_shown t s \<equiv> \<lparr>fa_type = t, fa_val = FShown s\<rparr>"


section \<open>Times\<close>

text \<open>The date of a day counted from 1 January of year 1 in the Gregorian calendar.\<close>

definition is_leap :: "int \<Rightarrow> bool" where
  "is_leap y \<longleftrightarrow> y mod 4 = 0 \<and> (y mod 100 \<noteq> 0 \<or> y mod 400 = 0)"

definition year_day :: "int \<Rightarrow> int \<times> int" where
  "year_day d =
     (let n400 = d div 146097; r400 = d mod 146097;
          n100 = min 3 (r400 div 36524); r100 = r400 - n100 * 36524;
          n4 = r100 div 1461; r4 = r100 mod 1461;
          n1 = min 3 (r4 div 365)
      in (400 * n400 + 100 * n100 + 4 * n4 + n1 + 1, r4 - n1 * 365))"

fun month_day :: "int list \<Rightarrow> int \<Rightarrow> int \<Rightarrow> int \<times> int" where
  "month_day [] m d = (m, d + 1)"
| "month_day (n # ns) m d = (if d < n then (m, d + 1) else month_day ns (m + 1) (d - n))"

definition civil :: "int \<Rightarrow> int \<times> int \<times> int" where
  "civil d =
     (let (y, yd) = year_day d
      in (y, month_day [31, if is_leap y then 29 else 28, 31, 30, 31, 30, 31, 31, 30, 31, 30, 31] 1 yd))"

definition dec_pad :: "nat \<Rightarrow> int \<Rightarrow> string" where
  "dec_pad w i = pad_zero w (dec i)"

text \<open>The digits of a fraction of \<open>n\<close> decimals, without trailing zeros and without a lone point.\<close>

definition fraction :: "nat \<Rightarrow> int \<Rightarrow> string" where
  "fraction n f =
     (let ds = rev (dropWhile (\<lambda>c. c = CHR ''0'') (rev (dec_pad n f)))
      in if ds = [] then [] else CHR ''.'' # ds)"

text \<open>\<^verbatim>\<open>Time.String\<close> of an instant in UTC without a monotonic reading, as \<^verbatim>\<open>common.Now\<close> makes it.\<close>

definition time_String :: "Time \<Rightarrow> string" where
  "time_String t =
     (let s = t div 10 ^ 9; (y, m, d) = civil (s div 86400); r = s mod 86400
      in dec_pad 4 y @ ''-'' @ dec_pad 2 m @ ''-'' @ dec_pad 2 d @ '' '' @
         dec_pad 2 (r div 3600) @ '':'' @ dec_pad 2 (r div 60 mod 60) @ '':'' @ dec_pad 2 (r mod 60) @
         fraction 9 (t mod 10 ^ 9) @ '' +0000 UTC'')"

definition Duration_String :: "Duration \<Rightarrow> string" where
  "Duration_String d =
     (let u = \<bar>d\<bar>; sign = (if d < 0 then ''-'' else []); mins = u div (60 * 10 ^ 9)
      in if u = 0 then ''0s''
         else sign @
           (if u < 1000 then dec u @ ''ns''
            else if u < 10 ^ 6 then dec (u div 1000) @ fraction 3 (u mod 1000) @ [char_of (0xC2 :: nat), char_of (0xB5 :: nat)] @ ''s''
            else if u < 10 ^ 9 then dec (u div 10 ^ 6) @ fraction 6 (u mod 10 ^ 6) @ ''ms''
            else
              (if mins div 60 > 0 then dec (mins div 60) @ ''h'' else []) @
              (if mins > 0 then dec (mins mod 60) @ ''m'' else []) @
              dec (u div 10 ^ 9 mod 60) @ fraction 9 (u mod 10 ^ 9) @ ''s''))"

definition arg_time :: "Time \<Rightarrow> fmt_arg" where
  "arg_time t = arg_shown ''time.Time'' (time_String t)"

end
