(* ===== verification/Errors.thy ===== *)
theory Errors
  imports Go_Format
begin

text \<open>
  Errors with a history (\<^verbatim>\<open>src/common/errors.go\<close>). An error is an object that is changed through its
  pointer, so the errors of a program are a list of objects and a pointer is a position in it. The
  frames of the calling goroutine, innermost first, are an argument of every call that looks at
  the stack.
\<close>

section \<open>The model\<close>

type_synonym uintptr = nat

record FmtError =
  fe_format :: string
  fe_args :: "fmt_arg list"

datatype err_data = DFmt FmtError | DValue fmt_arg

record msgtraceItem =
  mt_pc :: uintptr
  mt_msg :: string

record cmnError =
  ce_data :: err_data
  ce_msgtraces :: "msgtraceItem list"
  ce_stacktrace :: "uintptr list option"

type_synonym err_heap = "cmnError list"

definition FmtError_Error :: "FmtError \<Rightarrow> string" where
  "FmtError_Error fe = Sprintf (fe_format fe) (fe_args fe)"

text \<open>The slice of arguments is printed as \<^verbatim>\<open>%v\<close> prints each of them, in brackets.\<close>

definition FmtError_String :: "FmtError \<Rightarrow> string" where
  "FmtError_String fe =
     Sprintf ''FmtError{format:%v,args:%v}''
       [arg_string (fe_format fe),
        arg_shown ''[]interface {}'' (''['' @ join '' '' (map (\<lambda>a. show_value plain_spec (fa_val a)) (fe_args fe)) @ '']'')]"

definition FmtError_Format :: "FmtError \<Rightarrow> string" where
  "FmtError_Format fe = fe_format fe"

definition newCmnError :: "err_data \<Rightarrow> cmnError" where
  "newCmnError data = \<lparr>ce_data = data, ce_msgtraces = [], ce_stacktrace = None\<rparr>"

definition alloc :: "cmnError \<Rightarrow> err_heap \<Rightarrow> nat \<times> err_heap" where
  "alloc e h = (length h, h @ [e])"

definition NewError :: "string \<Rightarrow> fmt_arg list \<Rightarrow> err_heap \<Rightarrow> nat \<times> err_heap" where
  "NewError format args h = alloc (newCmnError (DFmt \<lparr>fe_format = format, fe_args = args\<rparr>)) h"

definition NewErrorWithData :: "err_data \<Rightarrow> err_heap \<Rightarrow> nat \<times> err_heap" where
  "NewErrorWithData data h = alloc (newCmnError data) h"

text \<open>\<^verbatim>\<open>runtime.Callers(skip, pcs)\<close> counts from its own frame, \<^verbatim>\<open>runtime.Caller(skip)\<close> from its caller.\<close>

definition captureStacktrace :: "nat \<Rightarrow> nat \<Rightarrow> uintptr list \<Rightarrow> uintptr list" where
  "captureStacktrace offset depth stack = take depth (drop offset stack)"

definition runtime_Caller :: "nat \<Rightarrow> uintptr list \<Rightarrow> uintptr" where
  "runtime_Caller skip stack = (if Suc skip < length stack then stack ! Suc skip else 0)"

definition err_Stacktrace :: "uintptr list \<Rightarrow> cmnError \<Rightarrow> cmnError" where
  "err_Stacktrace stack e =
     (if ce_stacktrace e = None then e\<lparr>ce_stacktrace := Some (captureStacktrace 3 32 stack)\<rparr> else e)"

definition doTrace :: "string \<Rightarrow> nat \<Rightarrow> uintptr list \<Rightarrow> cmnError \<Rightarrow> cmnError" where
  "doTrace msg n stack e =
     e\<lparr>ce_msgtraces := ce_msgtraces e @ [\<lparr>mt_pc = runtime_Caller (n + 2) stack, mt_msg = msg\<rparr>]\<rparr>"

definition err_Trace :: "nat \<Rightarrow> string \<Rightarrow> fmt_arg list \<Rightarrow> uintptr list \<Rightarrow> cmnError \<Rightarrow> cmnError" where
  "err_Trace offset format args stack e = doTrace (Sprintf format args) offset stack e"

definition err_Data :: "cmnError \<Rightarrow> err_data" where
  "err_Data e = ce_data e"

text \<open>What \<^verbatim>\<open>%v\<close> prints of an error's data.\<close>

definition data_arg :: "err_data \<Rightarrow> fmt_arg" where
  "data_arg data =
     (case data of DFmt fe \<Rightarrow> arg_shown ''common.FmtError'' (FmtError_Error fe) | DValue a \<Rightarrow> a)"

text \<open>The run-time tables and the renderings that depend on addresses: the file and line of a program
  counter of the program, the Go syntax of a value, the text of a pointer.\<close>

record err_tables =
  FileLine :: "uintptr \<Rightarrow> string \<times> int"
  GoSyntax :: "err_data \<Rightarrow> string"
  PtrText :: string

definition msgtrace_String :: "err_tables \<Rightarrow> msgtraceItem \<Rightarrow> string" where
  "msgtrace_String tb mti =
     (let (file, line) = FileLine tb (mt_pc mti)
      in Sprintf ''%s:%d - %s'' [arg_string file, arg_int ''int'' line, arg_string (mt_msg mti)])"

definition numbered :: "(nat \<Rightarrow> 'a \<Rightarrow> string) \<Rightarrow> 'a list \<Rightarrow> string" where
  "numbered f xs = concat (map (\<lambda>(i, x). f i x) (zip [0..<length xs] xs))"

definition err_Format :: "err_tables \<Rightarrow> bool \<Rightarrow> char \<Rightarrow> cmnError \<Rightarrow> string" where
  "err_Format tb sharp verb e =
     (if verb = CHR ''p'' then PtrText tb
      else if sharp then
        ''--= Error =--'' @ newline @ ''Data: '' @ GoSyntax tb (ce_data e) @ newline @ ''Msg Traces:'' @ newline @
        numbered (\<lambda>i mti. Sprintf ('' %4d  %s'' @ newline) [arg_int ''int'' (int i), arg_string (msgtrace_String tb mti)])
          (ce_msgtraces e) @
        (case ce_stacktrace e of
           None \<Rightarrow> []
         | Some pcs \<Rightarrow>
             ''Stack Trace:'' @ newline @
             numbered (\<lambda>i pc. let (file, line) = FileLine tb pc
               in Sprintf ('' %4d  %s:%d'' @ newline) [arg_int ''int'' (int i), arg_string file, arg_int ''int'' line]) pcs) @
        ''--= /Error =--'' @ newline
      else Sprintf ''%v'' [data_arg (ce_data e)])"

text \<open>\<^verbatim>\<open>Error\<close> prints the error with \<^verbatim>\<open>%v\<close>, which \<^verbatim>\<open>Format\<close> answers.\<close>

definition err_Error :: "err_tables \<Rightarrow> cmnError \<Rightarrow> string" where
  "err_Error tb e = err_Format tb False CHR ''v'' e"

text \<open>The cause of a wrapped error: nil, a pointer to an error (which may be nil itself), or another value.\<close>

datatype cause = CNil | CErr "nat option" | CValue fmt_arg

definition ErrorWrap :: "cause \<Rightarrow> string \<Rightarrow> fmt_arg list \<Rightarrow> uintptr list \<Rightarrow> uintptr list \<Rightarrow> err_heap \<Rightarrow> (nat \<times> err_heap) outcome" where
  "ErrorWrap cause format args stack_s stack_t h =
     (case cause of
        CErr None \<Rightarrow> Inl NilPointer
      | CErr (Some p) \<Rightarrow>
          (let msg = Sprintf format args
           in Inr (p, h[p := err_Trace 1 msg [] stack_t (err_Stacktrace stack_s (h ! p))]))
      | CNil \<Rightarrow>
          Inr (alloc (err_Stacktrace stack_s (newCmnError (DFmt \<lparr>fe_format = format, fe_args = args\<rparr>))) h)
      | CValue v \<Rightarrow>
          (let msg = Sprintf format args
           in Inr (alloc (err_Trace 1 msg [] stack_t (err_Stacktrace stack_s (newCmnError (DValue v)))) h)))"


section \<open>The panic wrappers\<close>

text \<open>The texts they panic with. Where the rest of the program calls \<^verbatim>\<open>PanicSanity\<close>, its model keeps the
  argument alone, as \<open>PanicSanity\<close> of the argument.\<close>

definition panic_sanity :: "fmt_arg \<Rightarrow> 'a outcome" where
  "panic_sanity v = Inl (PanicMsg (Sprintf ''Panicked on a Sanity Check: %v'' [v]))"

definition PanicCrisis :: "fmt_arg \<Rightarrow> 'a outcome" where
  "PanicCrisis v = Inl (PanicMsg (Sprintf ''Panicked on a Crisis: %v'' [v]))"

definition PanicConsensus :: "fmt_arg \<Rightarrow> 'a outcome" where
  "PanicConsensus v = Inl (PanicMsg (Sprintf ''Panicked on a Consensus Failure: %v'' [v]))"

definition PanicQ :: "fmt_arg \<Rightarrow> 'a outcome" where
  "PanicQ v = Inl (PanicMsg (Sprintf ''Panicked questionably: %v'' [v]))"


section \<open>Wrapping\<close>

text \<open>An error of a format prints as the formatted text, however often it is wrapped.\<close>

lemma fmt_loop_v: "fmt_loop None ''%v'' [arg_shown t s] = s"
  by (simp add: is_flag_def is_digit_def show_arg_def show_value_def plain_spec_def pad_def extra_args_def)

lemma err_Error_fmt: "ce_data e = DFmt fe \<Longrightarrow> err_Error tb e = FmtError_Error fe"
  by (simp add: err_Error_def err_Format_def data_arg_def Sprintf_def fmt_loop_v del: fmt_loop.simps)

type_synonym wrapping = "string \<times> fmt_arg list \<times> uintptr list \<times> uintptr list"

definition wrap_again :: "nat \<Rightarrow> wrapping \<Rightarrow> err_heap \<Rightarrow> err_heap outcome" where
  "wrap_again p w h =
     (case w of (format, args, stack_s, stack_t) \<Rightarrow>
        and_then (ErrorWrap (CErr (Some p)) format args stack_s stack_t h) (\<lambda>(q, h'). Inr h'))"

text \<open>The message a wrapping records: the formatted one, taken as a format again.\<close>

definition wrap_message :: "wrapping \<Rightarrow> string" where
  "wrap_message w = (case w of (format, args, _) \<Rightarrow> Sprintf (Sprintf format args) [])"

lemma wrap_again_eq:
  assumes "p < length h"
  obtains e where "wrap_again p w h = Inr (h[p := e])" "ce_data e = ce_data (h ! p)"
    "map mt_msg (ce_msgtraces e) = map mt_msg (ce_msgtraces (h ! p)) @ [wrap_message w]"
    "ce_stacktrace e \<noteq> None" "ce_stacktrace (h ! p) \<noteq> None \<Longrightarrow> ce_stacktrace e = ce_stacktrace (h ! p)"
proof (cases w)
  case (fields format args stack_s stack_t)
  show thesis
    by (rule that [of "err_Trace 1 (Sprintf format args) [] stack_t (err_Stacktrace stack_s (h ! p))"])
       (auto simp: fields wrap_again_def ErrorWrap_def wrap_message_def err_Trace_def doTrace_def err_Stacktrace_def)
qed



end
