(* ===== verification/Rendering.thy ===== *)
theory Rendering
  imports Go_Format Common_Helpers Fetch_Props Round_State
begin

text \<open>
  The texts of messages, vote sets and the round state: the \<^verbatim>\<open>String\<close> methods of \<^verbatim>\<open>src/message/message.go\<close>,
  \<^verbatim>\<open>src/vote_set.go\<close>, \<^verbatim>\<open>src/height_vote_set.go\<close> and \<^verbatim>\<open>src/state.go\<close>. The log lines of the handlers call them
  whether or not the line is written, so that a method that panics would end the node.
\<close>

section \<open>Messages\<close>

definition collect :: "('a \<Rightarrow> 'b outcome) \<Rightarrow> 'a list \<Rightarrow> 'b list outcome" where
  "collect f xs = foldr (\<lambda>x res. and_then (f x) (\<lambda>y. and_then res (\<lambda>ys. Inr (y # ys)))) xs (Inr [])"

lemma collect_total:
  assumes "\<And>x. x \<in> set xs \<Longrightarrow> \<exists>y. f x = Inr y"
  shows "\<exists>ys. collect f xs = Inr ys"
  using assms
proof (induction xs)
  case Nil
  then show ?case by (simp add: collect_def)
next
  case (Cons x xs)
  then obtain ys where "collect f xs = Inr ys" by auto
  moreover obtain y where "f x = Inr y" using Cons.prems [of x] by auto
  ultimately show ?case by (simp add: collect_def)
qed

abbreviation arg_pubkey :: "PubKey \<Rightarrow> fmt_arg" where
  "arg_pubkey k \<equiv> \<lparr>fa_type = ''message.PubKey'', fa_val = FString k\<rparr>"

abbreviation arg_type :: "VoteType \<Rightarrow> fmt_arg" where
  "arg_type t \<equiv> arg_int ''message.VoteType'' (uint t)"

definition vote_type_string :: "VoteType \<Rightarrow> string outcome" where
  "vote_type_string t =
     (if t = ProposalType then Inr ''Proposal''
      else if t = PrevoteType then Inr ''Prevote''
      else if t = PrecommitType then Inr ''Precommit''
      else Inl (PanicSanity ''Unknown vote type''))"

definition Vote_String :: "Vote option \<Rightarrow> string outcome" where
  "Vote_String vote =
     (case vote of
        None \<Rightarrow> Inr ''nil-Vote''
      | Some v \<Rightarrow> and_then (vote_type_string (v_Type v)) (\<lambda>typeString.
          Inr (Sprintf ''Vote{%v/%02d/%v(%v) %s %X %X @ %v}''
            [arg_int ''int64'' (v_Height v), arg_int ''int'' (v_Round v), arg_type (v_Type v), arg_string typeString,
             arg_pubkey (v_Address v), arg_bytes ''[]uint8'' (Fingerprint (pd_bytes (v_Proposed v))),
             arg_bytes ''[]uint8'' (Fingerprint (v_Signature v)), arg_time (v_Timestamp v)])))"

definition Commit_String :: "Commit \<Rightarrow> string" where
  "Commit_String c =
     Sprintf ''Commit{%v/%v/%02d/%v %X @ %v}''
       [arg_bytes ''message.ProposedData'' (pd_bytes (c_ProposedData c)), arg_bytes ''message.ProposedData'' (pd_bytes (c_Prev c)),
        arg_int ''int'' (int (length (c_Precommits c))), arg_pubkey (c_Address c),
        arg_bytes ''[]uint8'' (Fingerprint (c_Signature c)), arg_time (c_CommitTime c)]"

definition Req_String :: "FetchVotesReq \<Rightarrow> string" where
  "Req_String q =
     Sprintf ''FetchVotesReq{%v/%d/%02d/%v %d %v %v}''
       [arg_type (q_Type q), arg_int ''int64'' (q_Height q), arg_int ''int'' (q_Round q), arg_pubkey (q_Invoker q),
        arg_int ''int'' (int (length (q_Voters q))), arg_bytes ''[]uint8'' (Fingerprint (q_Signature q)), arg_time (q_Time q)]"

definition Rsp_String :: "FetchVotesRsp \<Rightarrow> string" where
  "Rsp_String r =
     Sprintf ''FetchVotesRsp{%v/%d/%02d/%v %d %v %v}''
       [arg_type (r_Type r), arg_int ''int64'' (r_Height r), arg_int ''int'' (r_Round r), arg_pubkey (r_Responser r),
        arg_int ''int'' (int (length (r_MissingVotes r))), arg_bytes ''[]uint8'' (Fingerprint (r_Signature r)), arg_time (r_Time r)]"


section \<open>Vote sets\<close>

definition VoteSet_StringIndented :: "range_order \<Rightarrow> string \<Rightarrow> VoteSet \<Rightarrow> string outcome" where
  "VoteSet_StringIndented ord indent vs =
     and_then (collect (\<lambda>(k, v). Vote_String (Some v)) (ranged_votes ord vs)) (\<lambda>voteStrings.
       Inr (Sprintf (''VoteSet{'' @ newline @ ''%s  H:%v R:%v T:%v'' @ newline @ ''%s  %v'' @ newline @ ''%s}'')
         [arg_string indent, arg_int ''int64'' (vs_height vs), arg_int ''int'' (vs_round vs), arg_type (vs_type vs),
          arg_string indent, arg_string (join (newline @ indent @ ''  '') voteStrings), arg_string indent]))"

definition VoteSet_String :: "range_order \<Rightarrow> VoteSet option \<Rightarrow> string outcome" where
  "VoteSet_String ord vs =
     (case vs of None \<Rightarrow> Inr ''nil-VoteSet'' | Some vs \<Rightarrow> VoteSet_StringIndented ord [] vs)"

definition rvs_strings :: "range_order \<Rightarrow> RoundVoteSet \<Rightarrow> string list outcome" where
  "rvs_strings ord rvs = collect (VoteSet_String ord) [Some (rvs_Prevotes rvs), Some (rvs_Precommits rvs)]"

text \<open>A round without vote sets is a nil pointer, which the loop over the rounds follows. \<open>rounds\<close> are the
  keys of the map in the order of the range over it.\<close>

definition HVS_StringIndented :: "range_order \<Rightarrow> int list \<Rightarrow> string \<Rightarrow> HeightVoteSet \<Rightarrow> string outcome" where
  "HVS_StringIndented ord rounds indent hvs =
     and_then (collect (\<lambda>round. case hvs_roundVoteSets hvs round of None \<Rightarrow> Inl NilPointer | Some rvs \<Rightarrow> rvs_strings ord rvs)
         [0..hvs_round hvs]) (\<lambda>tracked.
     and_then (collect (\<lambda>round. case hvs_roundVoteSets hvs round of None \<Rightarrow> Inl NilPointer | Some rvs \<Rightarrow> rvs_strings ord rvs)
         (filter (\<lambda>round. hvs_round hvs < round) rounds)) (\<lambda>catchup.
       Inr (Sprintf (''HeightVoteSet{H:%v R:0~%v'' @ newline @ ''%s  %v'' @ newline @ ''%s}'')
         [arg_int ''int64'' (hvs_height hvs), arg_int ''int'' (hvs_round hvs), arg_string indent,
          arg_string (join (newline @ indent @ ''  '') (concat (tracked @ catchup))), arg_string indent])))"

definition HVS_String :: "range_order \<Rightarrow> int list \<Rightarrow> HeightVoteSet \<Rightarrow> string outcome" where
  "HVS_String ord rounds hvs = HVS_StringIndented ord rounds [] hvs"

text \<open>\<^verbatim>\<open>Height\<close> and \<^verbatim>\<open>Round\<close> of the source.\<close>

definition HVS_Height :: "HeightVoteSet \<Rightarrow> int" where
  "HVS_Height hvs = hvs_height hvs"

definition HVS_Round :: "HeightVoteSet \<Rightarrow> int" where
  "HVS_Round hvs = hvs_round hvs"


section \<open>The round state\<close>

abbreviation arg_step :: "RoundStepType \<Rightarrow> fmt_arg" where
  "arg_step s \<equiv> arg_shown ''gobft.RoundStepType'' (step_String s)"

definition ti_String :: "timeoutInfo \<Rightarrow> string" where
  "ti_String ti =
     Sprintf ''%v ; %d/%d %v''
       [arg_shown ''time.Duration'' (Duration_String (ti_Duration ti)), arg_int ''int64'' (ti_Height ti),
        arg_int ''int'' (ti_Round ti), arg_step (ti_Step ti)]"

text \<open>The verb \<^verbatim>\<open>%v\<close> calls the method itself and prints a panic of it as a text, here \<open>caught\<close>.\<close>

definition shown_by :: "(panic \<Rightarrow> string) \<Rightarrow> string \<Rightarrow> string outcome \<Rightarrow> fmt_arg" where
  "shown_by caught t res = arg_shown t (case res of Inr s \<Rightarrow> s | Inl p \<Rightarrow> caught p)"

definition RoundState_StringIndented ::
  "(panic \<Rightarrow> string) \<Rightarrow> range_order \<Rightarrow> int list \<Rightarrow> string \<Rightarrow> 'a RoundState_scheme \<Rightarrow> string outcome" where
  "RoundState_StringIndented caught ord rounds indent rs =
     and_then (Vote_String (LockedProposal rs)) (\<lambda>locked.
     and_then (case Votes rs of None \<Rightarrow> Inl NilPointer | Some hvs \<Rightarrow> HVS_StringIndented ord rounds (indent @ ''  '') hvs) (\<lambda>votes.
       Inr (Sprintf (''RoundState{'' @ newline @ ''%s  H:%v R:%v S:%v'' @ newline @ ''%s  StartTime:     %v'' @ newline @
             ''%s  CommitTime:    %v'' @ newline @ ''%s  Proposal:      %v'' @ newline @ ''%s  LockedRound:   %v'' @ newline @
             ''%s  LockedProposal:   %v'' @ newline @ ''%s  Votes:         %v'' @ newline @ ''%s}'')
         [arg_string indent, arg_int ''int64'' (Height rs), arg_int ''int'' (Round rs), arg_step (Step rs),
          arg_string indent, arg_time (StartTime rs), arg_string indent, arg_time (CommitTime rs),
          arg_string indent, shown_by caught ''*message.Vote'' (Vote_String (Proposal rs)),
          arg_string indent, arg_int ''int'' (LockedRound rs), arg_string indent, arg_string locked,
          arg_string indent, arg_string votes, arg_string indent])))"

definition RoundState_String :: "(panic \<Rightarrow> string) \<Rightarrow> range_order \<Rightarrow> int list \<Rightarrow> 'a RoundState_scheme \<Rightarrow> string outcome" where
  "RoundState_String caught ord rounds rs = RoundState_StringIndented caught ord rounds [] rs"

definition RoundState_StringShort :: "'a RoundState_scheme \<Rightarrow> string" where
  "RoundState_StringShort rs =
     Sprintf ''RoundState{H:%v R:%v S:%v ST:%v}''
       [arg_int ''int64'' (Height rs), arg_int ''int'' (Round rs), arg_step (Step rs), arg_time (StartTime rs)]"


section \<open>When a text can be made\<close>

lemma Vote_String_total:
  assumes "\<And>v. p = Some v \<Longrightarrow> IsVoteTypeValid (v_Type v)"
  shows "\<exists>s. Vote_String p = Inr s"
  using assms by (cases p) (auto simp: Vote_String_def vote_type_string_def IsVoteTypeValid_def)

lemma VoteSet_String_total:
  assumes "is_range_order ord" and "\<And>vs. p = Some vs \<Longrightarrow> vs_wf vs \<and> IsVoteTypeValid (vs_type vs)"
  shows "\<exists>s. VoteSet_String ord p = Inr s"
proof (cases p)
  case None
  then show ?thesis by (simp add: VoteSet_String_def)
next
  case (Some vs)
  then have wf: "vs_wf vs" and t: "IsVoteTypeValid (vs_type vs)" using assms(2) by auto
  have "\<exists>s. (\<lambda>(k, v). Vote_String (Some v)) kv = Inr s" if "kv \<in> set (ranged_votes ord vs)" for kv
  proof -
    obtain k v where kv: "kv = (k, v)" by (cases kv)
    then have "\<exists>d. getVote vs d k = Some v" using that set_ranged_votes [OF wf assms(1)] by auto
    then have "v_Type v = vs_type vs" using vs_wfD [OF wf] by auto
    with t show ?thesis unfolding kv using Vote_String_total [of "Some v"] by simp
  qed
  then have "\<exists>ss. collect (\<lambda>(k, v). Vote_String (Some v)) (ranged_votes ord vs) = Inr ss" by (rule collect_total)
  then show ?thesis by (auto simp: Some VoteSet_String_def VoteSet_StringIndented_def)
qed

text \<open>\<open>covered h\<close>: every round up to the tracked one has its vote sets.\<close>

definition covered :: "HeightVoteSet \<Rightarrow> bool" where
  "covered h \<longleftrightarrow> (\<forall>r. 0 \<le> r \<longrightarrow> r \<le> hvs_round h \<longrightarrow> hvs_has h r)"

lemma HVS_String_total:
  assumes "is_range_order ord" and "hvs_shape h" and "covered h" and "\<And>r. r \<in> set rounds \<Longrightarrow> hvs_has h r"
  shows "\<exists>s. HVS_StringIndented ord rounds indent h = Inr s"
proof -
  let ?f = "\<lambda>round. case hvs_roundVoteSets h round of None \<Rightarrow> Inl NilPointer | Some rvs \<Rightarrow> rvs_strings ord rvs"
  have f: "\<exists>y. ?f r = Inr y" if "hvs_has h r" for r
  proof -
    obtain rvs where rvs: "hvs_roundVoteSets h r = Some rvs" using \<open>hvs_has h r\<close> by (auto simp: hvs_has_def)
    then have "hvs_lookup h r PrevoteType = Some (rvs_Prevotes rvs)" "hvs_lookup h r PrecommitType = Some (rvs_Precommits rvs)"
      by (simp_all add: hvs_lookup_eq)
    then have "vs_wf vs \<and> IsVoteTypeValid (vs_type vs)" if "vs \<in> {rvs_Prevotes rvs, rvs_Precommits rvs}" for vs
      using that hvs_shapeD(1,4) [OF assms(2)] by (auto simp: IsVoteTypeValid_def)
    then have one: "\<exists>s. VoteSet_String ord (Some vs) = Inr s" if "vs \<in> {rvs_Prevotes rvs, rvs_Precommits rvs}" for vs
      using VoteSet_String_total [OF assms(1), of "Some vs"] that by simp
    have "\<exists>ss. rvs_strings ord rvs = Inr ss"
      unfolding rvs_strings_def by (rule collect_total) (use one in auto)
    then show ?thesis by (simp add: rvs)
  qed
  have "\<exists>ys. collect ?f [0..hvs_round h] = Inr ys"
    using assms(3) by (intro collect_total f) (simp add: covered_def)
  moreover have "\<exists>ys. collect ?f (filter (\<lambda>r. hvs_round h < r) rounds) = Inr ys"
    using assms(4) by (intro collect_total f) simp
  ultimately show ?thesis by (auto simp: HVS_StringIndented_def)
qed

end
