(* ===== verification/Core_Printing.thy ===== *)
theory Core_Printing
  imports Rendering Core_Types
begin

text \<open>
  The texts of a running core can always be made: no \<^verbatim>\<open>String\<close> method called on its state, as the log lines of
  the handlers do, ends the node.
\<close>

section \<open>States that can be printed\<close>

lemma covered_new:
  assumes "NewHeightVoteSet height b = Inr h"
  shows "covered h"
proof -
  have "height \<noteq> 0" using NewHeightVoteSet_shape [OF assms] by (auto simp: hvs_shape_def)
  then obtain h1 where "NewHeightVoteSet height b = Inr h1" "hvs_round h1 = 0" "\<And>r. hvs_has h1 r \<longleftrightarrow> r = 0"
    by (rule NewHeightVoteSet_spec) blast
  with assms show ?thesis by (simp add: covered_def)
qed

lemma covered_track:
  assumes "covered h" and "SetRound n h = Inr h'" and "hvs_shape h" and "is_int64 (hvs_round h)"
  shows "covered h'"
proof -
  have "hvs_height h \<noteq> 0" using assms(3) by (simp add: hvs_shape_def)
  note track = SetRound_Inr [OF assms(2) this]
  have "hvs_has h' r" if r: "0 \<le> r" "r \<le> n" for r
  proof (cases "r \<le> hvs_round h")
    case True
    with assms(1) r track(2) show ?thesis by (simp add: covered_def extends_to_def)
  next
    case False
    have "wrap64 (hvs_round h + 1) \<le> r"
    proof (cases "hvs_round h = max_int64")
      case True
      then show ?thesis using r(1) by (simp add: wrap64_def)
    next
      case neq: False
      then have "wrap64 (hvs_round h + 1) = hvs_round h + 1" using assms(4) by (intro wrap64_idI) (auto simp: is_int64_def)
      with False show ?thesis by simp
    qed
    with r track(2) show ?thesis by (simp add: extends_to_def)
  qed
  then show ?thesis by (simp add: covered_def track(1))
qed

lemma covered_add:
  assumes "covered h" and "hvs_AddVote V v h = Inr (a, e, h')" and "hvs_shape h"
  shows "covered h'"
proof -
  have h: "hvs_height h \<noteq> 0" using assms(3) by (simp add: hvs_shape_def)
  from assms(2) h show ?thesis
  proof (cases rule: hvs_AddVote_Inr)
    case (valid vs')
    have "hvs_round h' = hvs_round h \<and> (\<forall>r. hvs_has h r \<longrightarrow> hvs_has h' r)"
      using hvs_with_simps(3,4) [OF h, of "v_Round v"]
      by (auto simp: valid(3) hvs_put_def hvs_has_def split: option.split)
    with assms(1) show ?thesis by (auto simp: covered_def)
  qed (use assms(1) in simp)
qed

definition printable :: "Core \<Rightarrow> bool" where
  "printable c \<longleftrightarrow>
     (\<forall>h. Votes c = Some h \<longrightarrow> covered h) \<and>
     (\<forall>v. Proposal c = Some v \<or> LockedProposal c = Some v \<longrightarrow> v_Type v = ProposalType)"

abbreviation printable_in :: "Env \<Rightarrow> Core \<Rightarrow> bool" where
  "printable_in env c \<equiv> typed_in env c \<and> printable c"

lemma printable_frame:
  assumes "printable c" and "Votes c' = Votes c" and "Proposal c' = Proposal c" and "LockedProposal c' = LockedProposal c"
  shows "printable c'"
  using assms by (simp add: printable_def)

lemma printable_more:
  "printable c \<Longrightarrow> v_Type v = ProposalType \<Longrightarrow> printable (c\<lparr>Proposal := Some v\<rparr>)"
  "printable c \<Longrightarrow> printable (c\<lparr>Proposal := None\<rparr>)"
  "printable c \<Longrightarrow> printable (c\<lparr>LockedRound := r, LockedProposal := Proposal c\<rparr>)"
  "printable c \<Longrightarrow> printable (c\<lparr>LockedRound := r, LockedProposal := None\<rparr>)"
  "printable c \<Longrightarrow> covered h \<Longrightarrow> printable (c\<lparr>Votes := Some h\<rparr>)"
  by (auto simp: printable_def)

lemmas typed_parts =
  typing.reading [OF conjI, THEN conjunct2] typing.fetching [OF conjI, THEN conjunct2]
  typing.stepping [OF conjI, THEN conjunct2, unfolded update_defs] typing.schedule [OF conjI, THEN conjunct2, unfolded update_defs]
  typing.sending [OF conjI, THEN conjunct2, unfolded update_defs] typing.voting [OF conjI, THEN conjunct2]
  typing.propose [OF conjI, THEN conjunct2] typing.no_proposal [OF conjI, THEN conjunct2] typing.relocking [OF conjI, THEN conjunct2]
  typing.locking [OF conjI, THEN conjunct2] typing.releasing [OF conjI, THEN conjunct2] typing.round_ok [OF conjI]
  typing_step.unqueue [OF conjI, THEN conjunct2] typing_step.receive [OF conjI, THEN conjunct2]
  typing_step.counting [OF conjI, THEN conjunct2] typing_step.marking [OF conjI, THEN conjunct2]
  typing_step.stopping [OF conjI, THEN conjunct2] typing_step.answering [OF conjI, THEN conjunct2]

interpretation printing: core_rules env "printable_in env" is_int64 typed_vote for env
proof unfold_locales
  fix c r h h'
  assume c: "printable_in env c" and r: "is_int64 r" and h: "Votes c = Some h" "SetRound (wrap64 (r + 1)) h = Inr h'"
  have "typed_sets (Height c) h" using c h(1) by (simp add: typed_coreD(10))
  with c h have "covered h'" by (auto simp: typed_sets_def printable_def intro: covered_track)
  moreover have "typed_in env (c\<lparr>Votes := Some h'\<rparr>)" using c by (intro typing.track [OF _ r h]) simp
  ultimately show "printable_in env (c\<lparr>Votes := Some h'\<rparr>)" using c by (simp add: printable_more)
next
  fix c v a e vs
  assume "printable_in env c" "typed_vote v" "AddVote (app c) (Some v) (LastCommit c) = Inr (a, e, vs)"
  with typing.straggle [of env c v a e vs] show "printable_in env (c\<lparr>LastCommit := Some vs\<rparr>)"
    by (auto intro: printable_frame)
qed (auto intro: typed_parts printable_more printable_frame simp: update_defs)

lemma scheduleRound0_frame:
  "Votes (scheduleRound0 env c) = Votes c" "Proposal (scheduleRound0 env c) = Proposal c"
  "LockedProposal (scheduleRound0 env c) = LockedProposal c"
  by (simp_all add: scheduleRound0_def update_defs Let_def)

lemma enterCommit_printable:
  assumes "enterCommit env h r c = Inr c'" and "printable_in env c"
  shows "printable_in env c'"
proof -
  have env: "env_ok env" using assms(2) by simp
  have "printable c'"
    using assms(1) env
  proof (cases rule: enterCommit_Inr)
    case (commit hvs d k0 k st c3 c4 t out)
    from commit(12) obtain hvs' where new: "NewHeightVoteSet (wrap64 (LastHeight st + 1)) (LastProposedData st) = Inr hvs'"
      and c4: "Votes c4 = Some hvs'" "Proposal c4 = None" "LockedProposal c4 = None"
      by (rule updateToAppState_Inr) simp
    from covered_new [OF new] show ?thesis
      by (simp add: commit(13) printable_def scheduleRound0_frame c4)
  qed (use assms(2) in simp)
  with enterCommit_typed [OF assms(1)] assms(2) show ?thesis by simp
qed

interpretation printing_step: core_step_rules env "printable_in env" is_int64 typed_vote for env
proof unfold_locales
  fix c v h a e h'
  assume c: "printable_in env c" and v: "typed_vote v" and h: "Votes c = Some h" and height: "v_Height v = Height c"
    and round: "0 \<le> v_Round v" and add: "hvs_AddVote (app c) v h = Inr (a, e, h')"
  have typed: "typed_sets (Height c) h" using c h by (simp add: typed_coreD(10))
  then have "covered h'" using c h add by (auto simp: typed_sets_def printable_def intro: covered_add)
  moreover have "typed_core (c\<lparr>Votes := Some h'\<rparr>)"
    using c v typed typed_coreD(1) [of c] typed_sets_add [OF typed add]
    by (auto simp: typed_core_def typed_vote_def queued_def)
  ultimately have I: "printable_in env (c\<lparr>Votes := Some h'\<rparr>)" using c by (simp add: printable_more)
  then show "printable_in env (c\<lparr>Votes := Some h'\<rparr>)" .
  show "printable_in env c'" if "added_precommit env (Height c) v h' (c\<lparr>Votes := Some h'\<rparr>) = Inr c'" for c'
    using that I by (rule printing.added_precommit_keeps) (use v enterCommit_printable in \<open>auto simp: typed_vote_def\<close>)
next
  fix c mi v assume "printable_in env c" "mi \<in> set (msgQueue c)" "v \<in> msg_votes (mi_Msg mi)"
  then show "typed_vote v" using typing_step.queue [of env c mi v] by simp
next
  fix c ti assume "printable_in env c" "ti \<in> set (ticks c)"
  then show "is_int64 (ti_Round ti)" using typing_step.tick_round [of env c ti] by simp
qed (auto simp: typed_vote_def intro: typed_parts printable_frame)


section \<open>Running nodes\<close>

interpretation printing_machine: machine "core_step env" "\<lambda>e. e \<noteq> EvStart \<and> typed_event e" "printable_in env" for env
  by unfold_locales (rule printing_step.core_step_keeps; auto simp: typed_event_def)

lemma booted_printable:
  assumes "booted env V c"
  shows "printable_in env c"
proof -
  obtain st where st: "GetAppState V = Some st" "0 \<le> LastHeight st" "LastHeight st < max_int64"
    and start: "Start env (NewCore V) = Inr (None, c)" using assms by (auto simp: booted_def)
  have new: "GetAppState (app (NewCore V)) = Some st" "Height (NewCore V) \<le> 0" using st(1) by (simp_all add: NewCore_def)
  from start new(1) st(2,3) obtain hvs where c: "LockedProposal c = None" "Proposal c = None" "Votes c = Some hvs"
    "NewHeightVoteSet (LastHeight st + 1) (LastProposedData st) = Inr hvs"
    by (rule Start_Inr) (simp_all add: new)
  with booted_typed [OF assms] covered_new [OF c(4)] show ?thesis by (simp add: printable_def)
qed



end
