(* ===== verification/Spec2Isabelle.thy ===== *)
theory Spec2Isabelle
  imports Core_Catchup Core_Types Core_Limits Core_Live Vote_Set_Props Message_Props Fetch_Props Agreement System State_Sync Common_Helpers
    Errors Core_Printing
begin

text \<open>
  Verification of gobft, a Go library for Byzantine fault tolerant consensus in the manner of
  Tendermint. An application gives the library a committee of validators and a private key; the
  library runs the rounds of proposing, prevoting and precommitting, height by height, and tells the
  application what has been committed.

  \<^bold>\<open>The program and its model.\<close> A theory per component, in the order in which they build on each other.

  \<^item> \<^verbatim>\<open>Prelude\<close>: Go's integers (\<open>wrap64\<close> after every addition the code makes on \<^verbatim>\<open>int64\<close>, words for
    bytes, arrays and the small enumerations), big-endian bytes, panics as the left side of a sum
    (\<open>outcome\<close>) and their sequencing (\<open>and_then\<close>, \<open>for_each\<close>), the association lists that stand for the
    maps the code ranges over, and the locale \<open>machine\<close>: a step function with an invariant.
  \<^item> \<^verbatim>\<open>Sha256\<close>, \<^verbatim>\<open>Messages\<close> (\<^verbatim>\<open>src/message\<close>, parts of \<^verbatim>\<open>src/common\<close>): the digest function; votes, commits,
    vote requests and responses with what their \<^verbatim>\<open>Digest\<close>, \<^verbatim>\<open>ValidateBasic\<close> and accessors do, and the size
    check of the decoder. The amino codec is a parameter of the model.
  \<^item> \<^verbatim>\<open>Committee\<close> (\<^verbatim>\<open>src/validators.go\<close>, \<^verbatim>\<open>src/custom\<close>): the interface to the application as a record of the
    answers its methods give at the moment; signing and verifying of all message types.
  \<^item> \<^verbatim>\<open>Vote_Set\<close>, \<^verbatim>\<open>Height_Vote_Set\<close> with their \<^verbatim>\<open>_Facts\<close> (\<^verbatim>\<open>src/vote_set.go\<close>, \<^verbatim>\<open>src/height_vote_set.go\<close>): the votes
    of one type, height and round; and the sets of all rounds of a height.
  \<^item> \<^verbatim>\<open>Round_State\<close> (\<^verbatim>\<open>src/state.go\<close>, \<^verbatim>\<open>src/config.go\<close>): steps, round state, positions and their order,
    timeouts.
  \<^item> \<^verbatim>\<open>Ticker\<close> (\<^verbatim>\<open>src/ticker.go\<close>): the goroutine that owns the timer, as a step function on the state of the
    goroutine, its channels and the goroutines it leaves behind.
  \<^item> \<^verbatim>\<open>Core_Model\<close> (\<^verbatim>\<open>src/bftcore.go\<close>): the record \<open>Core\<close> is the struct \<^verbatim>\<open>Core\<close> with the embedded round state;
    every handler is a function of its name on it, composed as the code composes them; \<open>core_step\<close> is one
    turn of \<^verbatim>\<open>receiveRoutine\<close> or a call from outside (\<^verbatim>\<open>RecvMsg\<close>, \<^verbatim>\<open>Start\<close>, \<^verbatim>\<open>Stop\<close>). What the core tells the
    application and its peers is appended to \<open>outbox\<close>, what it tells the ticker to \<open>ticks\<close>. The clock, the
    iteration orders of maps, the codec, the key and the reaction of the application to a commit are the
    record \<open>Env\<close>, arguments of the definitions.
  \<^item> \<^verbatim>\<open>System\<close>: core and ticker joined by the two channels between them, every interleaving of the receive
    routine, the ticker's goroutine, its timer and senders.
  \<^item> \<^verbatim>\<open>State_Sync\<close> (\<^verbatim>\<open>src/state_sync.go\<close>, which the source marks as deprecated), \<^verbatim>\<open>Common_Helpers\<close>
    (\<^verbatim>\<open>src/common/time.go\<close>, \<^verbatim>\<open>src/common/byteslice.go\<close>).
  \<^item> \<^verbatim>\<open>Go_Format\<close>: the part of Go's \<^verbatim>\<open>fmt.Sprintf\<close> that the program uses, with its marks for missing, extra
    and unfitting arguments. On it, \<^verbatim>\<open>Errors\<close> (\<^verbatim>\<open>src/common/errors.go\<close>): errors as objects in a heap that
    wrapping and tracing change through their pointers; and \<^verbatim>\<open>Rendering\<close>: the \<^verbatim>\<open>String\<close> methods of messages,
    vote sets and the round state.

  \<^bold>\<open>What is shown.\<close>

  \<^item> \<^emph>\<open>Vote sets\<close> (\<^verbatim>\<open>Vote_Set_Facts\<close>, \<^verbatim>\<open>Vote_Set_Props\<close>, \<^verbatim>\<open>Commit_Props\<close>): adding a vote refines insertion
    into a partial map and never panics; a majority is reported exactly when voters with more than two thirds
    of the power stand behind it, is stable, and two different ones need a third of the power to have voted
    twice; a commit made from a majority is valid and carries that power.
  \<^item> \<^emph>\<open>Rounds and missing votes\<close> (\<^verbatim>\<open>Height_Vote_Set_Facts\<close>, \<^verbatim>\<open>Fetch_Props\<close>): tracking of rounds ends and
    keeps what was collected; \<^verbatim>\<open>POLInfo\<close>; a request and its response fill in what is missing.
  \<^item> \<^emph>\<open>Messages\<close> (\<^verbatim>\<open>Message_Props\<close>): what a signature covers and what it leaves open; what is signed verifies.
  \<^item> \<^emph>\<open>One node\<close>: \<^verbatim>\<open>Protocol\<close> states the algorithm as a guarded transition system on the part of the state
    that matters (\<open>Node\<close>, \<open>node_move\<close>) and proves the invariant \<open>node_inv\<close>: votes in the order of their positions,
    precommits on polkas, locks kept. \<^verbatim>\<open>Core_Refines\<close> simulates every handler by moves of that system,
    \<^verbatim>\<open>Core_Runs\<close> lifts this to runs from a start, \<^verbatim>\<open>Core_Safety\<close> reads off the safety rules of the running
    code. \<^verbatim>\<open>Core_Rules\<close> has the rules by which an invariant passes through all handlers; with them
    \<^verbatim>\<open>Core_Progress\<close> shows that a node commits as soon as it has a quorum, \<^verbatim>\<open>Core_Catchup\<close> that a commit of
    another node makes it commit too, and \<^verbatim>\<open>Core_Types\<close> that its state stays well-typed. \<^verbatim>\<open>Core_Total\<close>,
    \<^verbatim>\<open>Core_Live\<close>: no message or timeout makes the node panic, under the conditions below; \<^verbatim>\<open>Core_Printing\<close>: nor
    do the texts the handlers make of the state for the log. \<^verbatim>\<open>Core_Limits\<close>: runs in which the conditions fail.
  \<^item> \<^emph>\<open>Many nodes\<close>: \<^verbatim>\<open>Backing\<close> and \<^verbatim>\<open>Network\<close> prove agreement and validity for the abstract protocol under an
    adversary that chooses all messages and timeouts, \<^verbatim>\<open>Agreement\<close> transfers both to clusters of running cores.
  \<^item> \<^emph>\<open>Time\<close>: \<^verbatim>\<open>Timeouts\<close>, \<^verbatim>\<open>System\<close>: the timeouts a core schedules climb with its position and the last one is
    for the position it is at; the ticker drops none of them; so whatever the interleaving, a running node
    always has a timeout under way that will move it on.
  \<^item> \<^verbatim>\<open>State_Sync\<close>, \<^verbatim>\<open>Common_Helpers\<close>: when the catch-up moves the core and when it cannot; the weighted median
    of time stamps lies between those of honest validators. \<^verbatim>\<open>Errors\<close>: what wrapping an error keeps and records.

  \<^bold>\<open>Assumptions.\<close> Agreement and validity assume that at every height at most a third of the power is outside
  the honest members (\<open>bft\<close>), that the honest applications agree on the powers of a height (\<open>keeps_powers\<close>), that
  an application has a state after a commit (\<open>env_ok\<close>), and that a vote that carries an honest member's
  address is one the member has broadcast (\<open>authentic\<close>, \<open>brings_honest\<close>). The last one is more than unforgeable
  signatures give: the digest of a vote does not cover its round (\<^verbatim>\<open>Message_Props\<close>), so that whoever has a signed
  vote can replay it for another round. They hold for runs without a restart: a restart forgets the lock
  (\<^verbatim>\<open>Core_Limits\<close>).

  \<^bold>\<open>Bounds.\<close> Heights, rounds and powers are 64-bit in the code. That no run panics is shown within a budget
  of \<open>n\<close>: every event takes \<open>cost M\<close> of it, enough for the votes of one message, where \<open>M\<close> bounds the votes of a commit;
  each vote may raise the round by the 300 of \<open>watermark\<close> and one more, so \<open>301 * n < 2 ^ 62\<close> keeps the rounds in
  range, and \<open>n * p < 2 ^ 63\<close> the sums of powers of at most \<open>p\<close> each. At a million events a second, messages of a hundred
  votes and small powers this is a matter of years. The total power must be below \<open>2 ^ 62\<close>, else thresholds overflow (\<^verbatim>\<open>Vote_Set_Props\<close>). No
  definition needs fuel: every loop of the code is structural or has a measure.

  \<^bold>\<open>Not modelled.\<close> Logging (the \<^verbatim>\<open>String\<close> methods called for it are), \<^verbatim>\<open>SetLogger\<close> and \<^verbatim>\<open>SetName\<close>, message timing
  statistics, \<^verbatim>\<open>sumTotalFrac\<close> (a floating-point quotient that nothing calls), the mutexes (handlers run in one
  goroutine; \<^verbatim>\<open>Start\<close> and \<^verbatim>\<open>Stop\<close> are single steps), the interfaces \<^verbatim>\<open>IP2P\<close> and \<^verbatim>\<open>IPeer\<close> (without code; a peer is
  a name), the generated mocks, and \<^verbatim>\<open>src/evidence.go\<close>, which is empty. Program counters, file names and
  addresses in the texts of errors are parameters.
\<close>

end
